(* ===== verification/Propd_Prelude.thy ===== *)
theory Propd_Prelude
  imports Main "HOL-Library.Word" "HOL-Library.List_Lexorder" "HOL-Library.Char_ord"
begin

text \<open>
  What the components share: the C types of the daemon (bytes, time stamps, error numbers), the
  allocation oracle, the little-endian wire format of its packed structs, the three-way string
  comparison with its interface \<open>three_way\<close>, and the arithmetic of \<^verbatim>\<open>infra/timestamp.h\<close>.
  A C string is a \<open>string\<close> without its terminating NUL; where a NUL matters (buffers, the wire)
  it is written out.
\<close>

named_theorems rb_facts \<open>inorder and rank facts of the rank-balanced tree\<close>
named_theorems cache_facts \<open>what the cache operations do to a lookup\<close>
named_theorems route_facts \<open>what the route operations do to names and reference counts\<close>

section \<open>Types\<close>

type_synonym byte = "8 word"
type_synonym timestamp = int \<comment> \<open>\<open>int64_t\<close>, nanoseconds; the wrap-around is \<open>i64\<close> below\<close>

text \<open>
  The outcome of the \<open>n\<close>-th allocation (\<^verbatim>\<open>malloc\<close>, \<^verbatim>\<open>calloc\<close>, \<^verbatim>\<open>strdup\<close>) a call makes:
  \<open>True\<close> when it succeeds. Every operation that allocates takes one, so that its out-of-memory
  branches are branches of the model.
\<close>

type_synonym alloc = "nat \<Rightarrow> bool"

abbreviation mem_ok :: alloc where
  "mem_ok \<equiv> \<lambda>_. True"

text \<open>The error numbers the sources return; \<open>Eother\<close> is any other nonzero \<^verbatim>\<open>int\<close>.\<close>

datatype errno =
    ENOENT | EIO | ENXIO | ENOMEM | EBUSY | EEXIST | EINVAL | ERANGE | EOPNOTSUPP | ENOBUFS
  | Eother int

text \<open>An \<^verbatim>\<open>int\<close> return value: 0 on success, an error number otherwise.\<close>

fun errno_code :: "errno \<Rightarrow> int" where
  "errno_code ENOENT = 2"
| "errno_code EIO = 5"
| "errno_code ENXIO = 6"
| "errno_code ENOMEM = 12"
| "errno_code EBUSY = 16"
| "errno_code EEXIST = 17"
| "errno_code EINVAL = 22"
| "errno_code ERANGE = 34"
| "errno_code EOPNOTSUPP = 95"
| "errno_code ENOBUFS = 105"
| "errno_code (Eother n) = n"

text \<open>An error number proper: it is not 0 when it is returned as an \<^verbatim>\<open>int\<close>.\<close>

definition errno_ok :: "errno \<Rightarrow> bool" where
  "errno_ok e \<longleftrightarrow> signed_take_bit 31 (errno_code e) \<noteq> 0"

lemma errno_ok_named [simp]:
  "errno_ok ENOENT" "errno_ok EIO" "errno_ok ENXIO" "errno_ok ENOMEM" "errno_ok EBUSY" "errno_ok EEXIST"
  "errno_ok EINVAL" "errno_ok ERANGE" "errno_ok EOPNOTSUPP" "errno_ok ENOBUFS"
  by (simp_all add: errno_ok_def signed_take_bit_int_eq_self)

definition errno_of :: "int \<Rightarrow> errno" where
  "errno_of n =
     (if n = 2 then ENOENT else if n = 5 then EIO else if n = 6 then ENXIO
      else if n = 12 then ENOMEM else if n = 16 then EBUSY else if n = 17 then EEXIST
      else if n = 22 then EINVAL else if n = 34 then ERANGE else if n = 95 then EOPNOTSUPP
      else if n = 105 then ENOBUFS else Eother n)"

lemma errno_code_of [simp]: "errno_code (errno_of n) = n"
  by (simp add: errno_of_def)

lemma errno_code_named [simp]: "errno_of 2 = ENOENT" "errno_of 5 = EIO" "errno_of 12 = ENOMEM"
  by (simp_all add: errno_of_def)

text \<open>
  The outcome of code that C gives no meaning on some inputs: \<open>UB\<close> for an out-of-bounds access, a
  NULL dereference, a failed \<^verbatim>\<open>assert\<close> or a shift by the width or more.
\<close>

datatype 'a c_out = UB | Ret 'a

fun c_bind :: "'a c_out \<Rightarrow> ('a \<Rightarrow> 'b c_out) \<Rightarrow> 'b c_out" where
  "c_bind UB f = UB"
| "c_bind (Ret a) f = f a"

lemma c_bind_Ret [simp]: "c_bind r f = Ret b \<longleftrightarrow> (\<exists>a. r = Ret a \<and> f a = Ret b)"
  by (cases r) auto

lemma c_bind_assoc: "c_bind (c_bind r f) g = c_bind r (\<lambda>a. c_bind (f a) g)"
  by (cases r) auto

section \<open>Signed 64-bit arithmetic and time stamps\<close>

text \<open>Two's complement reduction of an \<open>int\<close> to \<^verbatim>\<open>int64_t\<close>.\<close>

definition i64 :: "int \<Rightarrow> int" where
  "i64 x = signed_take_bit 63 x"

abbreviation INT64_MAX :: int where "INT64_MAX \<equiv> 9223372036854775807"
abbreviation INT64_MIN :: int where "INT64_MIN \<equiv> - 9223372036854775808"

definition in_i64 :: "int \<Rightarrow> bool" where
  "in_i64 x \<longleftrightarrow> INT64_MIN \<le> x \<and> x \<le> INT64_MAX"

lemma i64_id [simp]: "in_i64 x \<Longrightarrow> i64 x = x"
  by (simp add: in_i64_def i64_def signed_take_bit_int_eq_self_iff)

lemma i64_range [simp]: "in_i64 (i64 x)"
  using signed_take_bit_int_greater_eq_minus_exp [of 63 x] signed_take_bit_int_less_exp [of 63 x]
  by (simp add: in_i64_def i64_def)

lemma in_i64_I: "INT64_MIN \<le> x \<Longrightarrow> x \<le> INT64_MAX \<Longrightarrow> in_i64 x"
  by (simp add: in_i64_def)

text \<open>C division and remainder truncate towards zero.\<close>

definition c_div :: "int \<Rightarrow> int \<Rightarrow> int" where
  "c_div a b = sgn a * sgn b * (\<bar>a\<bar> div \<bar>b\<bar>)"

definition c_mod :: "int \<Rightarrow> int \<Rightarrow> int" where
  "c_mod a b = a - b * c_div a b"

lemma c_div_nonneg [simp]: "0 \<le> a \<Longrightarrow> 0 < b \<Longrightarrow> c_div a b = a div b"
  by (cases "a = 0") (auto simp: c_div_def sgn_if)

lemma c_mod_nonneg [simp]: "0 \<le> a \<Longrightarrow> 0 < b \<Longrightarrow> c_mod a b = a mod b"
  by (simp add: c_mod_def minus_mult_div_eq_mod)

definition timestamp_from_ms :: "int \<Rightarrow> timestamp" where
  "timestamp_from_ms ms = i64 (ms * 1000000)"

definition timestamp_from_s :: "int \<Rightarrow> timestamp" where
  "timestamp_from_s s = i64 (s * 1000000000)"

definition timestamp_to_ms :: "timestamp \<Rightarrow> int" where
  "timestamp_to_ms t = c_div t 1000000"

record timespec =
  tv_sec :: int
  tv_nsec :: int

definition timestamp2spec :: "timestamp \<Rightarrow> timespec" where
  "timestamp2spec t = \<lparr>tv_sec = c_div t 1000000000, tv_nsec = c_mod t 1000000000\<rparr>"

text \<open>\<^verbatim>\<open>timestamp(monotonic)\<close> is \<open>ts.tv_sec * 1000000000L + ts.tv_nsec\<close> of the clock it reads.\<close>

definition timestamp_of :: "timespec \<Rightarrow> timestamp" where
  "timestamp_of ts = i64 (tv_sec ts * 1000000000 + tv_nsec ts)"

text \<open>
  \<^verbatim>\<open>feature(monotonic, ms)\<close>: \<open>now\<close> is what the clock reads; \<open>ms\<close> is an \<^verbatim>\<open>unsigned int\<close>.
\<close>

definition feature :: "timestamp \<Rightarrow> int \<Rightarrow> timestamp" where
  "feature now ms = i64 (now + (ms mod 2 ^ 32) * 1000000)"

lemma timestamp2spec_inverse:
  "0 \<le> t \<Longrightarrow> in_i64 t \<Longrightarrow> timestamp_of (timestamp2spec t) = t"
  by (simp add: timestamp_of_def timestamp2spec_def)

section \<open>Strings\<close>

text \<open>
  \<^verbatim>\<open>strcmp\<close>: the sign of the first difference, characters read as \<^verbatim>\<open>unsigned char\<close>; the end of
  a string (its NUL) is smaller than every character.
\<close>

fun strcmp :: "string \<Rightarrow> string \<Rightarrow> int" where
  "strcmp [] [] = 0"
| "strcmp [] (b # bs) = -1"
| "strcmp (a # as) [] = 1"
| "strcmp (a # as) (b # bs) =
     (if a = b then strcmp as bs else int (of_char a) - int (of_char b))"

lemma char_less_code: "(a :: char) < b \<longleftrightarrow> (of_char a :: nat) < of_char b"
  by (simp add: less_char_def)

lemma char_code_inj [simp]: "(of_char a :: nat) = of_char b \<longleftrightarrow> a = b"
  by simp

lemma strcmp_eq [simp]: "strcmp s t = 0 \<longleftrightarrow> s = t"
  by (induction s t rule: strcmp.induct) auto

lemma strcmp_less [simp]: "strcmp s t < 0 \<longleftrightarrow> s < t"
  by (induction s t rule: strcmp.induct) (auto simp: char_less_code)

lemma strcmp_greater [simp]: "0 < strcmp s t \<longleftrightarrow> t < s"
  by (metis less_linear order_less_imp_not_less strcmp_eq strcmp_less)

section \<open>Three-way comparison as an interface\<close>

text \<open>
  The tree macros take a comparison of two elements, \<open>cmp a b = probe (key a) b\<close> (a lookup passes a
  shadow element that holds only the key). What they rely on: it compares the keys in a linear order.
\<close>

locale three_way =
  fixes probe :: "'k::linorder \<Rightarrow> 'a \<Rightarrow> int" and key :: "'a \<Rightarrow> 'k"
  assumes probe_less: "probe k x < 0 \<longleftrightarrow> k < key x"
    and probe_greater: "0 < probe k x \<longleftrightarrow> key x < k"

lemma option_eqI: "(\<And>x. a = Some x \<longleftrightarrow> b = Some x) \<Longrightarrow> a = b"
  by (metis not_None_eq)

lemma find_sorted_keys:
  "sorted_wrt (<) (map key xs) \<Longrightarrow>
     List.find (\<lambda>y. key y = (k :: 'k::linorder)) xs = Some x \<longleftrightarrow> x \<in> set xs \<and> key x = k"
  by (induction xs) auto

text \<open>
  An ordered collection of elements with unique keys, as its clients use it: \<open>elems\<close> lists the
  elements in key order, \<open>ins\<close> returns the element already there or adds the new one, \<open>upd\<close>
  changes the other fields of an element in place, \<open>sweep\<close> removes all elements that satisfy a
  predicate.
\<close>

locale keyed_tree =
  fixes key :: "'a \<Rightarrow> 'k::linorder" and elems :: "'t \<Rightarrow> 'a list" and inv :: "'t \<Rightarrow> bool"
    and empty :: "'t" and find :: "'k \<Rightarrow> 't \<Rightarrow> 'a option" and ins :: "'a \<Rightarrow> 't \<Rightarrow> 'a option \<times> 't"
    and del :: "'k \<Rightarrow> 't \<Rightarrow> 't" and upd :: "'k \<Rightarrow> ('a \<Rightarrow> 'a) \<Rightarrow> 't \<Rightarrow> 't"
    and sweep :: "('a \<Rightarrow> bool) \<Rightarrow> 't \<Rightarrow> 't"
  assumes inv_empty: "inv empty" and elems_empty: "elems empty = []"
    and elems_sorted: "inv t \<Longrightarrow> sorted_wrt (<) (map key (elems t))"
    and find_elems: "inv t \<Longrightarrow> find k t = List.find (\<lambda>y. key y = k) (elems t)"
    and ins_old: "inv t \<Longrightarrow> find (key x) t = Some y \<Longrightarrow> ins x t = (Some y, t)"
    and ins_new: "inv t \<Longrightarrow> find (key x) t = None \<Longrightarrow>
      fst (ins x t) = None \<and> inv (snd (ins x t)) \<and>
      elems (snd (ins x t)) =
        filter (\<lambda>y. key y < key x) (elems t) @ x # filter (\<lambda>y. key x < key y) (elems t)"
    and del_elems: "inv t \<Longrightarrow> find k t \<noteq> None \<Longrightarrow>
      inv (del k t) \<and> elems (del k t) = filter (\<lambda>y. key y \<noteq> k) (elems t)"
    and upd_elems: "inv t \<Longrightarrow> (\<And>y. key (f y) = key y) \<Longrightarrow>
      inv (upd k f t) \<and> elems (upd k f t) = map (\<lambda>y. if key y = k then f y else y) (elems t)"
    and sweep_elems: "inv t \<Longrightarrow>
      inv (sweep P t) \<and> elems (sweep P t) = filter (\<lambda>y. \<not> P y) (elems t)"
begin

lemma find_Some: "inv t \<Longrightarrow> find k t = Some x \<longleftrightarrow> x \<in> set (elems t) \<and> key x = k"
  by (simp add: find_elems find_sorted_keys elems_sorted)

lemma find_None: "inv t \<Longrightarrow> find k t = None \<longleftrightarrow> (\<forall>x \<in> set (elems t). key x \<noteq> k)"
  by (simp add: find_elems find_None_iff) blast

lemma find_key: "inv t \<Longrightarrow> find k t = Some x \<Longrightarrow> key x = k"
  by (simp add: find_Some)

lemma find_empty: "find k empty = None"
  by (simp add: find_None inv_empty elems_empty)

lemma find_eqI:
  "inv t \<Longrightarrow> inv t' \<Longrightarrow> (\<And>x. key x = k \<Longrightarrow> x \<in> set (elems t') \<longleftrightarrow> x \<in> set (elems t)) \<Longrightarrow>
     find k t' = find k t"
  by (rule option_eqI) (auto simp: find_Some)

lemma inv_ins: "inv t \<Longrightarrow> inv (snd (ins x t))"
  by (cases "find (key x) t") (auto simp: ins_old ins_new)

lemma fst_ins: "inv t \<Longrightarrow> fst (ins x t) = find (key x) t"
  by (cases "find (key x) t") (auto simp: ins_old ins_new)

lemma find_ins_new:
  assumes "inv t" "find (key x) t = None"
  shows "find k (snd (ins x t)) = (if k = key x then Some x else find k t)"
proof (cases "k = key x")
  case True
  with ins_new [OF assms] show ?thesis by (simp add: find_Some)
next
  case False
  then have "find k (snd (ins x t)) = find k t"
    using ins_new [OF assms] assms(1)
    by (intro find_eqI) (auto simp: not_less_iff_gr_or_eq)
  with False show ?thesis by simp
qed

lemma find_del: "inv t \<Longrightarrow> find k t \<noteq> None \<Longrightarrow>
    find j (del k t) = (if j = k then None else find j t)"
  using del_elems [of t k] by (auto simp: find_None intro!: find_eqI)

lemma find_upd:
  assumes "inv t" "\<And>y. key (f y) = key y"
  shows "find j (upd k f t) = (if j = k then map_option f (find j t) else find j t)"
  using upd_elems [of t f k] assms
  by (intro option_eqI) (auto simp: find_Some split: if_splits)

lemma find_sweep:
  assumes "inv t"
  shows "find k (sweep P t) =
     (case find k t of None \<Rightarrow> None | Some x \<Rightarrow> if P x then None else Some x)"
proof (rule option_eqI)
  fix x
  have "(case find k t of None \<Rightarrow> None | Some x \<Rightarrow> if P x then None else Some x) = Some x \<longleftrightarrow>
      find k t = Some x \<and> \<not> P x"
    by (auto split: option.split)
  then show "find k (sweep P t) = Some x \<longleftrightarrow>
      (case find k t of None \<Rightarrow> None | Some x \<Rightarrow> if P x then None else Some x) = Some x"
    using sweep_elems [of t P] assms by (auto simp: find_Some)
qed

lemmas inv_ops = inv_empty inv_ins upd_elems [THEN conjunct1] sweep_elems [THEN conjunct1]

end

section \<open>The little-endian wire format\<close>

fun le_bytes :: "nat \<Rightarrow> nat \<Rightarrow> byte list" where
  "le_bytes 0 n = []"
| "le_bytes (Suc k) n = of_nat (n mod 256) # le_bytes k (n div 256)"

fun le_nat :: "byte list \<Rightarrow> nat" where
  "le_nat [] = 0"
| "le_nat (b # bs) = unat b + 256 * le_nat bs"

lemma length_le_bytes [simp]: "length (le_bytes k n) = k"
  by (induction k arbitrary: n) auto

lemma unat_byte_of_nat [simp]: "unat (of_nat (n mod 256) :: byte) = n mod 256"
  by (simp add: unat_of_nat)

lemma le_nat_bytes [simp]: "le_nat (le_bytes k n) = n mod 256 ^ k"
proof (induction k arbitrary: n)
  case (Suc k)
  have "n mod (256 * 256 ^ k) = n mod 256 + 256 * (n div 256 mod 256 ^ k)"
    by (rule mod_mult2_eq [THEN trans]) simp
  then show ?case using Suc by simp
qed simp

lemma unat_byte_less: "unat (b :: byte) < 256"
proof -
  have "unat b < 2 ^ LENGTH(8)" by (rule unsigned_less)
  then show ?thesis by simp
qed

lemma le_nat_bound: "le_nat bs < 256 ^ length bs"
proof (induction bs)
  case (Cons b bs)
  with unat_byte_less [of b] show ?case by simp
qed simp

lemma le_bytes_nat [simp]: "le_bytes (length bs) (le_nat bs) = bs"
proof (induction bs)
  case (Cons b bs)
  with unat_byte_less [of b] show ?case by simp
qed simp

end
