(* ===== verification/RB_Tree.thy ===== *)
theory RB_Tree
  imports Propd_Prelude
begin

text \<open>
  The rank-balanced tree of \<^verbatim>\<open>lib/infra/tree.h\<close>, on which the cache and the namespace of named
  mutexes are built. A node holds its two colour bits (which the macros keep in the low bits of the
  parent pointer): a set bit means that the edge to that child is long (rank difference 2). The
  parent pointers are a zipper: a position is a list of frames from the parent up to the root, so
  that the \<^verbatim>\<open>do\<close>/\<^verbatim>\<open>while\<close> loops of \<^verbatim>\<open>RB_INSERT_COLOR\<close> and \<^verbatim>\<open>RB_REMOVE_COLOR\<close>, which climb
  the parent pointers, are recursions over that list. A step of the macros that would dereference
  NULL or read the uninitialised \<^verbatim>\<open>child\<close> is the value \<open>None\<close>; the lemmas show that no call on a
  balanced tree gets there. The augmentation hooks are the macros' default, which does nothing.
\<close>

section \<open>Nodes, directions, positions\<close>

datatype 'a rb = Null | Node (bitL: bool) (bitR: bool) (lft: "'a rb") (elem_of: 'a) (rgt: "'a rb")

datatype dir = RB_L | RB_R

text \<open>\<open>dir ^ _RB_LR\<close>\<close>

fun opp :: "dir \<Rightarrow> dir" where
  "opp RB_L = RB_R"
| "opp RB_R = RB_L"

text \<open>
  A node seen from a direction \<open>d\<close>: the bit of the edge towards \<open>d\<close>, the bit of the other edge,
  the child towards \<open>d\<close>, the element, the other child.
\<close>

fun mk :: "dir \<Rightarrow> bool \<Rightarrow> bool \<Rightarrow> 'a rb \<Rightarrow> 'a \<Rightarrow> 'a rb \<Rightarrow> 'a rb" where
  "mk RB_L bd bo s x t = Node bd bo s x t"
| "mk RB_R bd bo s x t = Node bo bd t x s"

fun view :: "dir \<Rightarrow> 'a rb \<Rightarrow> (bool \<times> bool \<times> 'a rb \<times> 'a \<times> 'a rb) option" where
  "view d Null = None"
| "view RB_L (Node bl br l x r) = Some (bl, br, l, x, r)"
| "view RB_R (Node bl br l x r) = Some (br, bl, r, x, l)"

text \<open>
  One step of a position: the direction of the hole below a node, the bit of the edge to the hole,
  the bit of the sibling's edge, the node's element and the sibling.
\<close>

datatype 'a frame = Frame dir bool bool 'a "'a rb"

fun plug :: "'a frame list \<Rightarrow> 'a rb \<Rightarrow> 'a rb" where
  "plug [] t = t"
| "plug (Frame d bd bo p s # fs) t = plug fs (mk d bd bo t p s)"

fun inorder :: "'a rb \<Rightarrow> 'a list" where
  "inorder Null = []"
| "inorder (Node bl br l x r) = inorder l @ x # inorder r"

section \<open>Search, insertion, removal\<close>

text \<open>\<open>c\<close> is the comparison of the searched element with a node, \<open>cmp(elm, tmp)\<close>.\<close>

fun RB_FIND :: "('a \<Rightarrow> int) \<Rightarrow> 'a rb \<Rightarrow> 'a option" where
  "RB_FIND c Null = None"
| "RB_FIND c (Node bl br l x r) =
     (if c x < 0 then RB_FIND c l else if 0 < c x then RB_FIND c r else Some x)"

text \<open>
  The descent of \<^verbatim>\<open>RB_INSERT\<close>, which records the parents; it ends at the node with an equal key
  or at the empty place where the element belongs.
\<close>

fun locate :: "('a \<Rightarrow> int) \<Rightarrow> 'a rb \<Rightarrow> 'a frame list \<Rightarrow> 'a frame list \<times> 'a rb" where
  "locate c Null fs = (fs, Null)"
| "locate c (Node bl br l x r) fs =
     (if c x < 0 then locate c l (Frame RB_L bl br x r # fs)
      else if 0 < c x then locate c r (Frame RB_R br bl x l # fs)
      else (fs, Node bl br l x r))"

text \<open>
  Climb after the subtree \<open>elm\<close> grew by one rank. \<open>child\<close> is the direction in which the C
  variable \<^verbatim>\<open>child\<close> hangs below \<^verbatim>\<open>elm\<close>, \<open>None\<close> while it is uninitialised.
\<close>

fun RB_INSERT_COLOR :: "'a frame list \<Rightarrow> 'a rb \<Rightarrow> dir option \<Rightarrow> 'a rb option" where
  "RB_INSERT_COLOR [] elm child = Some elm"
| "RB_INSERT_COLOR (Frame d bd bo p sib # gs) elm child =
     (if bd then \<comment> \<open>shorten the parent-elm edge to rebalance\<close>
        Some (plug gs (mk d False bo elm p sib))
      else if \<not> bo then \<comment> \<open>the other edge changes length, retry from parent\<close>
        RB_INSERT_COLOR gs (mk d False True elm p sib) (Some d)
      else case view d elm of
          None \<Rightarrow> None
        | Some (ed, es, w, e, y) \<Rightarrow>
            if ed then \<comment> \<open>rotate \<open>child\<close> above \<open>elm\<close> first\<close>
              if child \<noteq> Some (opp d) then None
              else (case view d y of
                  None \<Rightarrow> None
                | Some (cd, cs, cx, c, cy) \<Rightarrow>
                    let elm' = (if cd then mk d (\<not> ed) (\<not> es) w e cx else mk d (\<not> ed) es w e cx);
                        parent' = mk d cs False cy p sib
                    in Some (plug gs (mk d False False elm' c parent')))
            else \<comment> \<open>rotate \<open>elm\<close> above \<open>parent\<close>\<close>
              Some (plug gs (mk d False False w e (mk d False False y p sib))))"

definition RB_INSERT_FINISH :: "'a frame list \<Rightarrow> 'a \<Rightarrow> 'a rb option" where
  "RB_INSERT_FINISH fs x =
     (let elm = Node False False Null x Null
      in if fs = [] then Some elm else RB_INSERT_COLOR fs elm None)"

text \<open>
  \<^verbatim>\<open>RB_INSERT\<close> returns the element already there (and leaves the tree alone), or NULL.
\<close>

definition RB_INSERT :: "('a \<Rightarrow> 'a \<Rightarrow> int) \<Rightarrow> 'a \<Rightarrow> 'a rb \<Rightarrow> ('a option \<times> 'a rb) option" where
  "RB_INSERT cmp x t =
     (case locate (cmp x) t [] of
        (fs, Null) \<Rightarrow> map_option (\<lambda>t'. (None, t')) (RB_INSERT_FINISH fs x)
      | (fs, Node bl br l y r) \<Rightarrow> Some (Some y, t))"

text \<open>Climb after the subtree \<open>elm\<close> shrank by one rank.\<close>

fun REMOVE_COLOR_loop :: "'a frame list \<Rightarrow> 'a rb \<Rightarrow> 'a rb option" where
  "REMOVE_COLOR_loop [] elm = Some elm"
| "REMOVE_COLOR_loop (Frame d bd bo p sib # gs) elm =
     (if \<not> bd then \<comment> \<open>lengthen the parent-elm edge to rebalance\<close>
        Some (plug gs (mk d True bo elm p sib))
      else if bo then \<comment> \<open>shorten the other edge, retry from parent\<close>
        REMOVE_COLOR_loop gs (mk d True False elm p sib)
      else case view d sib of
          None \<Rightarrow> None
        | Some (sd, ss, x, s, z) \<Rightarrow>
            if sd \<and> ss then \<comment> \<open>shorten the edges descending from sib, retry\<close>
              REMOVE_COLOR_loop gs (mk d True False elm p (mk d False False x s z))
            else if ss then \<comment> \<open>rotate at sib, then at parent\<close>
              (case view d x of
                 None \<Rightarrow> None
               | Some (ed, es, ex, e, ey) \<Rightarrow>
                   let parent' = (if ed then mk d False True elm p ex else mk d False False elm p ex);
                       sib' = (if es then mk d (\<not> sd) False ey s z else mk d sd False ey s z)
                   in Some (plug gs (mk d True True parent' e sib')))
            else if sd then \<comment> \<open>demote parent, rotate\<close>
              Some (plug gs (mk d sd True (mk d False False elm p x) s z))
            else
              Some (plug gs (mk d sd True (mk d True False elm p x) s z)))"

definition RB_REMOVE_COLOR :: "'a frame list \<Rightarrow> 'a rb \<Rightarrow> 'a rb option" where
  "RB_REMOVE_COLOR fs elm =
     (case fs of
        [] \<Rightarrow> Some elm
      | Frame d bd bo p sib # gs \<Rightarrow>
          if elm = Null \<and> sib = Null
          then REMOVE_COLOR_loop gs (mk d False False Null p Null) \<comment> \<open>demote the rank-2 leaf\<close>
          else REMOVE_COLOR_loop fs elm)"

text \<open>\<open>_RB_UP(child) = parent\<close> stores a bare pointer: the child's bits are cleared.\<close>

fun clear_bits :: "'a rb \<Rightarrow> 'a rb" where
  "clear_bits Null = Null"
| "clear_bits (Node bl br l x r) = Node False False l x r"

text \<open>The walk to the leftmost node of the right subtree: its position, element, right child.\<close>

fun min_path :: "'a rb \<Rightarrow> 'a frame list \<Rightarrow> ('a frame list \<times> 'a \<times> 'a rb) option" where
  "min_path Null fs = None"
| "min_path (Node bl br l x r) fs =
     (if l = Null then Some (fs, x, r) else min_path l (Frame RB_L bl br x r # fs))"

text \<open>
  \<^verbatim>\<open>RB_REMOVE\<close> of the node \<^verbatim>\<open>out\<close> at position \<open>fs\<close>. With two children, the successor \<^verbatim>\<open>in\<close>
  takes the place and the bits of \<^verbatim>\<open>out\<close>.
\<close>

definition REMOVE_at :: "'a frame list \<Rightarrow> 'a rb \<Rightarrow> 'a rb option" where
  "REMOVE_at fs out =
     (case out of
        Null \<Rightarrow> None
      | Node bl br l x r \<Rightarrow>
          if r = Null \<or> l = Null then
            let child = clear_bits (if r = Null then l else r)
            in if fs = [] then Some child else RB_REMOVE_COLOR fs child
          else (case min_path r [] of
              None \<Rightarrow> None
            | Some (gs, m, c) \<Rightarrow>
                RB_REMOVE_COLOR (gs @ Frame RB_R br bl m l # fs) (clear_bits c)))"

definition RB_REMOVE :: "('a \<Rightarrow> int) \<Rightarrow> 'a rb \<Rightarrow> 'a rb option" where
  "RB_REMOVE c t = (case locate c t [] of (fs, out) \<Rightarrow> REMOVE_at fs out)"

section \<open>Traversal\<close>

text \<open>\<^verbatim>\<open>RB_MINMAX\<close>: the leftmost element for a negative \<^verbatim>\<open>val\<close>, else the rightmost.\<close>

fun RB_MINMAX :: "'a rb \<Rightarrow> int \<Rightarrow> 'a option" where
  "RB_MINMAX Null val = None"
| "RB_MINMAX (Node bl br l x r) val =
     (let tmp = (if val < 0 then l else r)
      in if tmp = Null then Some x else RB_MINMAX tmp val)"

fun climb_right :: "'a frame list \<Rightarrow> 'a option" where
  "climb_right [] = None"
| "climb_right (Frame RB_R bd bo p s # fs) = climb_right fs"
| "climb_right (Frame RB_L bd bo p s # fs) = Some p"

definition NEXT_at :: "'a frame list \<Rightarrow> 'a rb \<Rightarrow> 'a option" where
  "NEXT_at fs t = (if rgt t \<noteq> Null then RB_MINMAX (rgt t) (-1) else climb_right fs)"

text \<open>\<^verbatim>\<open>RB_NEXT\<close> of the node that \<open>c\<close> finds.\<close>

definition RB_NEXT :: "('a \<Rightarrow> int) \<Rightarrow> 'a rb \<Rightarrow> 'a option" where
  "RB_NEXT c t = (case locate c t [] of (fs, t') \<Rightarrow> if t' = Null then None else NEXT_at fs t')"

text \<open>
  \<^verbatim>\<open>RB_FOREACH_SAFE\<close> with a body that may remove the visited node: the successor is computed
  before the body runs. \<open>None\<close> when the fuel runs out or the body fails.
\<close>

fun FOREACH_SAFE_from ::
  "nat \<Rightarrow> ('a \<Rightarrow> 'a \<Rightarrow> int) \<Rightarrow> ('a \<Rightarrow> 'a rb \<Rightarrow> 'a rb option) \<Rightarrow> 'a option \<Rightarrow> 'a rb \<Rightarrow> 'a rb option" where
  "FOREACH_SAFE_from n cmp body None t = Some t"
| "FOREACH_SAFE_from 0 cmp body (Some x) t = None"
| "FOREACH_SAFE_from (Suc n) cmp body (Some x) t =
     (let y = RB_NEXT (cmp x) t
      in case body x t of None \<Rightarrow> None | Some t' \<Rightarrow> FOREACH_SAFE_from n cmp body y t')"

definition RB_FOREACH_SAFE ::
  "('a \<Rightarrow> 'a \<Rightarrow> int) \<Rightarrow> ('a \<Rightarrow> 'a rb \<Rightarrow> 'a rb option) \<Rightarrow> 'a rb \<Rightarrow> 'a rb option" where
  "RB_FOREACH_SAFE cmp body t =
     FOREACH_SAFE_from (length (inorder t)) cmp body (RB_MINMAX t (-1)) t"

text \<open>
  The in-place update of the fields of a found element, other than its key, through the pointer
  \<^verbatim>\<open>RB_FIND\<close> or \<^verbatim>\<open>RB_INSERT\<close> returned: the shape of the tree does not change.
\<close>

fun rb_modify :: "('a \<Rightarrow> int) \<Rightarrow> ('a \<Rightarrow> 'a) \<Rightarrow> 'a rb \<Rightarrow> 'a rb" where
  "rb_modify c f Null = Null"
| "rb_modify c f (Node bl br l x r) =
     (if c x < 0 then Node bl br (rb_modify c f l) x r
      else if 0 < c x then Node bl br l x (rb_modify c f r)
      else Node bl br l (f x) r)"

section \<open>In-order contents\<close>

fun lctx :: "'a frame list \<Rightarrow> 'a list" where
  "lctx [] = []"
| "lctx (Frame RB_L bd bo p s # fs) = lctx fs"
| "lctx (Frame RB_R bd bo p s # fs) = lctx fs @ inorder s @ [p]"

fun rctx :: "'a frame list \<Rightarrow> 'a list" where
  "rctx [] = []"
| "rctx (Frame RB_L bd bo p s # fs) = p # inorder s @ rctx fs"
| "rctx (Frame RB_R bd bo p s # fs) = rctx fs"

lemma inorder_plug [rb_facts]: "inorder (plug fs t) = lctx fs @ inorder t @ rctx fs"
proof (induction fs arbitrary: t)
  case (Cons f fs)
  then show ?case by (cases f; cases "case f of Frame d _ _ _ _ \<Rightarrow> d") auto
qed simp

lemma ctx_append [simp]:
  "lctx (fs @ gs) = lctx gs @ lctx fs" "rctx (fs @ gs) = rctx fs @ rctx gs"
  by (induction fs rule: lctx.induct) auto

lemma view_mk [simp]: "view d (mk d bd bo s x t) = Some (bd, bo, s, x, t)"
  by (cases d) auto

lemma view_Some: "view d t = Some (bd, bo, s, x, u) \<longleftrightarrow> t = mk d bd bo s x u"
  by (cases d; cases t) auto

lemma view_None [simp]: "view d t = None \<longleftrightarrow> t = Null"
  by (cases d; cases t) auto

lemma mk_neq_Null [simp]: "mk d bd bo s x t \<noteq> Null" "Null \<noteq> mk d bd bo s x t"
  by (cases d; simp)+

lemma mk_inject [simp]:
  "mk d bd bo s x t = mk d bd' bo' s' x' t' \<longleftrightarrow> bd = bd' \<and> bo = bo' \<and> s = s' \<and> x = x' \<and> t = t'"
  by (cases d) auto

lemma inorder_clear_bits [simp]: "inorder (clear_bits t) = inorder t"
  by (cases t) auto

section \<open>Ranks\<close>

text \<open>The rank difference a colour bit stands for.\<close>

fun gap :: "bool \<Rightarrow> nat" where
  "gap False = 1"
| "gap True = 2"

lemma gap_bounds [simp]: "0 < gap b" "gap b \<le> 2" "Suc 0 \<le> gap b"
  by (cases b; simp)+

text \<open>
  \<open>ranked n t\<close>: the bits of \<open>t\<close> give every node a consistent rank, \<open>n\<close> at the root; the rank of
  NULL is 0 and the rank of a leaf is 1. This is the balance criterion of the header's comment.
\<close>

fun ranked :: "nat \<Rightarrow> 'a rb \<Rightarrow> bool" where
  "ranked n Null \<longleftrightarrow> n = 0"
| "ranked n (Node bl br l x r) \<longleftrightarrow>
     gap bl \<le> n \<and> gap br \<le> n \<and> ranked (n - gap bl) l \<and> ranked (n - gap br) r \<and>
     (l = Null \<and> r = Null \<longrightarrow> n = 1)"

definition balanced :: "'a rb \<Rightarrow> bool" where
  "balanced t \<longleftrightarrow> (\<exists>n. ranked n t)"

lemma ranked_mk [simp]:
  "ranked n (mk d bd bo s x t) \<longleftrightarrow>
     gap bd \<le> n \<and> gap bo \<le> n \<and> ranked (n - gap bd) s \<and> ranked (n - gap bo) t \<and>
     (s = Null \<and> t = Null \<longrightarrow> n = 1)"
  by (cases d) auto

lemma ranked_0 [simp]: "ranked 0 t \<longleftrightarrow> t = Null"
  using gap_bounds(1) by (cases t) (auto simp: leD)

lemma ranked_pos: "ranked n t \<Longrightarrow> t \<noteq> Null \<Longrightarrow> 0 < n"
  by (cases n) auto

lemma ranked_Suc_mk: "ranked (Suc n) t \<Longrightarrow> \<exists>bd bo s x u. t = mk d bd bo s x u"
  by (cases d; cases t) auto

text \<open>\<open>fits n fs\<close>: a subtree of rank \<open>n\<close> in the hole makes the whole tree balanced.\<close>

fun fits :: "nat \<Rightarrow> 'a frame list \<Rightarrow> bool" where
  "fits n [] \<longleftrightarrow> True"
| "fits n (Frame d bd bo p s # fs) \<longleftrightarrow>
     gap bo \<le> n + gap bd \<and> ranked (n + gap bd - gap bo) s \<and>
     (n = 0 \<and> s = Null \<longrightarrow> \<not> bd) \<and> fits (n + gap bd) fs"

lemma balanced_plug: "fits n fs \<Longrightarrow> ranked n t \<Longrightarrow> balanced (plug fs t)"
proof (induction fs arbitrary: n t)
  case (Cons f fs)
  obtain d bd bo p s where f: "f = Frame d bd bo p s" by (cases f)
  have "ranked (n + gap bd) (mk d bd bo t p s)"
    using Cons.prems by (cases "t = Null") (auto simp: f)
  with Cons.IH [OF _ this] Cons.prems(1) show ?case by (simp add: f)
qed (auto simp: balanced_def)

section \<open>Insertion keeps the balance and the order\<close>

text \<open>
  What \<^verbatim>\<open>elm\<close> looks like while the insertion climbs: the new leaf, or a node just promoted, whose
  edge towards \<^verbatim>\<open>child\<close> is short and whose other edge is long.
\<close>

definition grown :: "'a rb \<Rightarrow> dir option \<Rightarrow> bool" where
  "grown t child \<longleftrightarrow>
     (\<exists>x. t = Node False False Null x Null \<and> child = None) \<or>
     (\<exists>d l x r. t = mk d False True l x r \<and> child = Some d)"

lemma grown_cases:
  assumes "grown t child"
  obtains (leaf) x where "t = mk d False False Null x Null" "child = None"
    | (same) l x r where "t = mk d False True l x r" "child = Some d"
    | (other) l x r where "t = mk d True False l x r" "child = Some (opp d)"
proof -
  consider x where "t = Node False False Null x Null" "child = None"
    | e l x r where "t = mk e False True l x r" "child = Some e"
    using assms by (auto simp: grown_def)
  then show thesis
  proof cases
    case 1
    then show thesis using leaf [of x] by (cases d) auto
  next
    case 2
    then show thesis using same [of l x r] other [of r x l] by (cases d; cases e) auto
  qed
qed

lemma RB_INSERT_COLOR_spec:
  assumes "fits n fs" "ranked (Suc n) t" "grown t child"
  shows "\<exists>t'. RB_INSERT_COLOR fs t child = Some t' \<and> balanced t' \<and>
           inorder t' = lctx fs @ inorder t @ rctx fs"
  using assms
proof (induction fs arbitrary: n t child)
  case Nil
  then show ?case by (auto simp: balanced_def)
next
  case (Cons f gs)
  obtain d bd bo p s where f: "f = Frame d bd bo p s" by (cases f)
  note prems = Cons.prems [unfolded f]
  consider (short) "bd" | (promote) "\<not> bd" "\<not> bo" | (rotate) "\<not> bd" "bo" by blast
  then show ?case
  proof cases
    case short
    then have "ranked (n + 2) (mk d False bo t p s)" using prems by auto
    with short prems show ?thesis
      by (cases d) (auto simp: f inorder_plug intro: balanced_plug)
  next
    case promote
    then have "ranked (Suc (Suc n)) (mk d False True t p s)" "fits (Suc n) gs"
      using prems by auto
    moreover have "grown (mk d False True t p s) (Some d)" by (auto simp: grown_def)
    ultimately show ?thesis using Cons.IH promote by (cases d) (fastforce simp: f)+
  next
    case rotate
    with prems have n: "0 < n" "ranked (n - 1) s" "fits (Suc n) gs"
      by auto
    from prems(3) show ?thesis
    proof (cases rule: grown_cases [where d = d])
      case leaf
      with n prems show ?thesis by auto
    next
      case (same l x r)
      have "ranked (Suc n) (mk d False False l x (mk d False False r p s))"
        using same n prems by auto
      with rotate same n show ?thesis
        by (cases d) (auto simp: f inorder_plug intro!: balanced_plug)
    next
      case (other l x y)
      then have y: "ranked n y" "ranked (n - 1) l" using prems by auto
      then obtain cd cs cx c cy where c: "y = mk d cd cs cx c cy"
        using n(1) ranked_Suc_mk [of "n - 1" y d] by auto
      let ?t = "mk d False False (mk d False cd l x cx) c (mk d cs False cy p s)"
      have "ranked (Suc n) ?t" using n y by (cases cd; cases cs) (auto simp: c)
      with rotate other n show ?thesis
        by (cases d; cases cd) (auto simp: f c inorder_plug intro!: balanced_plug)
    qed
  qed
qed

lemma RB_INSERT_FINISH_spec:
  assumes "fits 0 fs"
  shows "\<exists>t'. RB_INSERT_FINISH fs x = Some t' \<and> balanced t' \<and> inorder t' = lctx fs @ x # rctx fs"
proof (cases "fs = []")
  case True
  have "ranked 1 (Node False False Null x Null)" by simp
  then show ?thesis using True by (auto simp: RB_INSERT_FINISH_def balanced_def)
next
  case False
  have "ranked (Suc 0) (Node False False Null x Null)" "grown (Node False False Null x Null) None"
    by (auto simp: grown_def)
  from RB_INSERT_COLOR_spec [OF assms this] False show ?thesis
    by (simp add: RB_INSERT_FINISH_def)
qed

section \<open>Removal keeps the balance and the order\<close>

lemma REMOVE_COLOR_loop_spec:
  assumes "fits (Suc n) fs" "ranked n t"
    and "\<And>d bd bo p s gs. fs = Frame d bd bo p s # gs \<Longrightarrow> t = Null \<Longrightarrow> s \<noteq> Null"
  shows "\<exists>t'. REMOVE_COLOR_loop fs t = Some t' \<and> balanced t' \<and>
           inorder t' = lctx fs @ inorder t @ rctx fs"
  using assms
proof (induction fs arbitrary: n t)
  case Nil
  then show ?case by (auto simp: balanced_def)
next
  case (Cons f gs)
  obtain d bd bo p s where f: "f = Frame d bd bo p s" by (cases f)
  note prems = Cons.prems [unfolded f]
  have ts: "\<not> (t = Null \<and> s = Null)" using prems(3) by blast
  consider (short) "\<not> bd" | (shrink) "bd" "bo" | (sib) "bd" "\<not> bo" by blast
  then show ?case
  proof cases
    case short
    then have "ranked (n + 2) (mk d True bo t p s)" "fits (n + 2) gs" using prems ts by auto
    with short show ?thesis
      by (cases d) (auto simp: f inorder_plug intro!: balanced_plug)
  next
    case shrink
    then have "ranked (n + 2) (mk d True False t p s)" "fits (Suc (n + 2)) gs" using prems ts by auto
    from Cons.IH [OF this(2,1)] shrink show ?thesis by (cases d) (auto simp: f)
  next
    case sib
    then have s: "ranked (n + 2) s" "fits (n + 3) gs" using prems by (auto simp: numeral_eq_Suc)
    then obtain sd ss x e z where e: "s = mk d sd ss x e z"
      using ranked_Suc_mk [of "Suc n" s d] by auto
    consider (both) "sd" "ss" | (double) "\<not> sd" "ss" | (single) "\<not> ss" by blast
    then show ?thesis
    proof cases
      case both
      then have "ranked (n + 2) (mk d True False t p (mk d False False x e z))"
        "fits (Suc (n + 2)) gs"
        using s prems ts by (auto simp: e numeral_eq_Suc)
      from Cons.IH [OF this(2,1)] both sib show ?thesis by (cases d) (auto simp: f e)
    next
      case double
      then have "ranked (n + 1) x" "ranked n z" using s by (auto simp: e)
      moreover from this obtain xd xs u c v where c: "x = mk d xd xs u c v"
        using ranked_Suc_mk [of n x d] by auto
      ultimately have "ranked (n + 3) (mk d True True (mk d False xd t p u) c (mk d xs False v e z))"
        using prems(2) by (cases xd; cases xs) (auto simp: numeral_eq_Suc)
      with double sib s show ?thesis
        by (cases d; cases xd; cases xs) (auto simp: f e c inorder_plug intro!: balanced_plug)
    next
      case single
      then have "ranked (n + 3) (mk d sd True (mk d (\<not> sd) False t p x) e z)"
        using s prems(2) by (cases sd) (auto simp: e numeral_eq_Suc)
      with single sib s show ?thesis
        by (cases d; cases sd) (auto simp: f e inorder_plug intro!: balanced_plug)
    qed
  qed
qed

lemma RB_REMOVE_COLOR_spec:
  assumes "fits (Suc n) fs" "ranked n t"
  shows "\<exists>t'. RB_REMOVE_COLOR fs t = Some t' \<and> balanced t' \<and>
           inorder t' = lctx fs @ inorder t @ rctx fs"
proof (cases fs)
  case Nil
  with assms show ?thesis by (auto simp: RB_REMOVE_COLOR_def balanced_def)
next
  case (Cons f gs)
  obtain d bd bo p s where f: "f = Frame d bd bo p s" by (cases f)
  show ?thesis
  proof (cases "t = Null \<and> s = Null")
    case True
    then have "fits (Suc 1) gs" "ranked 1 (mk d False False Null p Null)"
      using assms by (cases bd; cases bo; auto simp: Cons f numeral_eq_Suc)+
    from REMOVE_COLOR_loop_spec [OF this] True show ?thesis
      by (cases d) (auto simp: RB_REMOVE_COLOR_def Cons f)
  next
    case False
    then show ?thesis
      using REMOVE_COLOR_loop_spec [OF assms] by (auto simp: RB_REMOVE_COLOR_def Cons f)
  qed
qed

lemma one_child_rank:
  assumes "ranked n (Node bl br l x r)" "r = Null \<or> l = Null"
  shows "\<exists>m. n = Suc m \<and> ranked m (clear_bits (if r = Null then l else r))"
proof -
  have leaf: "ranked m (clear_bits t)" if "ranked m t" "m \<le> 1" for m and t :: "'a rb"
    using that by (cases t; cases "bitL t"; cases "bitR t") auto
  show ?thesis using assms
    by (cases bl; cases br; cases "l = Null"; cases "r = Null")
      (auto intro!: leaf simp: le_Suc_eq numeral_eq_Suc dest: ranked_pos)
qed

lemma min_path_append:
  "min_path t (gs @ fs) = map_option (\<lambda>(hs, m, c). (hs @ fs, m, c)) (min_path t gs)"
proof (induction t gs rule: min_path.induct)
  case (2 bl br l x r gs)
  then show ?case by (cases "l = Null") (simp_all flip: append_Cons)
qed simp

lemma min_path_inorder:
  "min_path t gs = Some (hs, m, c) \<Longrightarrow>
     lctx hs = lctx gs \<and> m # inorder c @ rctx hs = inorder t @ rctx gs"
  by (induction t gs rule: min_path.induct) (auto split: if_splits)

lemma min_path_ranked:
  assumes "ranked k t" "t \<noteq> Null" "fits k fs"
  shows "\<exists>hs m c j. min_path t fs = Some (hs, m, c) \<and> fits (Suc j) hs \<and> ranked j (clear_bits c)"
  using assms
proof (induction t arbitrary: k fs)
  case (Node bl br l x r)
  show ?case
  proof (cases "l = Null")
    case True
    with Node.prems(1,3) one_child_rank [of k bl br l x r] show ?thesis by auto
  next
    case False
    then have "fits (k - gap bl) (Frame RB_L bl br x r # fs)" "ranked (k - gap bl) l"
      using Node.prems by (auto dest: ranked_pos)
    from Node.IH(1) [OF this(2) False this(1)] False show ?thesis by simp
  qed
qed simp

lemma REMOVE_at_spec:
  assumes "fits n fs" "ranked n (Node bl br l x r)"
  shows "\<exists>t'. REMOVE_at fs (Node bl br l x r) = Some t' \<and> balanced t' \<and>
           inorder t' = lctx fs @ inorder l @ inorder r @ rctx fs"
proof (cases "r = Null \<or> l = Null")
  case True
  from one_child_rank [OF assms(2) True] obtain m where
    m: "n = Suc m" "ranked m (clear_bits (if r = Null then l else r))" by auto
  have c: "inorder (clear_bits (if r = Null then l else r)) = inorder l @ inorder r"
    using True by auto
  have "fits (Suc m) fs" using assms(1) m(1) by simp
  from RB_REMOVE_COLOR_spec [OF this m(2)] True m(2) c show ?thesis
    by (cases "fs = []") (auto simp: REMOVE_at_def Let_def balanced_def simp del: inorder_clear_bits)
next
  case False
  let ?fs = "\<lambda>m. Frame RB_R br bl m l # fs"
  have fit: "fits (n - gap br) (?fs m)" for m
    using assms False by (auto dest: ranked_pos)
  have r: "ranked (n - gap br) r" "r \<noteq> Null" using assms False by auto
  from min_path_ranked [OF this, of "[]"] obtain gs m c where
    gs: "min_path r [] = Some (gs, m, c)" by auto
  from min_path_ranked [OF r fit [of m]] min_path_append [of r "[]" "?fs m"] gs obtain j where
    j: "fits (Suc j) (gs @ ?fs m)" "ranked j (clear_bits c)" by auto
  from RB_REMOVE_COLOR_spec [OF j] min_path_inorder [OF gs] gs False show ?thesis
    by (auto simp: REMOVE_at_def)
qed

section \<open>Order: what the operations do to the in-order list\<close>

text \<open>The invariant of a tree in use: balanced, and strictly sorted by key.\<close>

definition rb_inv :: "('a \<Rightarrow> 'k::linorder) \<Rightarrow> 'a rb \<Rightarrow> bool" where
  "rb_inv key t \<longleftrightarrow> balanced t \<and> sorted_wrt (<) (map key (inorder t))"

text \<open>The first element of a list.\<close>

fun first :: "'a list \<Rightarrow> 'a option" where
  "first [] = None"
| "first (x # xs) = Some x"

lemma first_append [simp]: "first (xs @ ys) = (if xs = [] then first ys else first xs)"
  by (cases xs) auto

lemma inorder_Null_iff [simp]: "inorder t = [] \<longleftrightarrow> t = Null"
  by (cases t) auto

lemma RB_MIN_first [rb_facts]: "RB_MINMAX t (-1) = first (inorder t)"
  by (induction t) auto

lemma climb_right_first: "climb_right fs = first (rctx fs)"
  by (induction fs rule: climb_right.induct) auto

lemma NEXT_at_first: "NEXT_at fs (Node bl br l x r) = first (inorder r @ rctx fs)"
  by (simp add: NEXT_at_def climb_right_first RB_MIN_first)

lemma locate_plug: "locate c t fs = (gs, u) \<Longrightarrow> plug gs u = plug fs t"
  by (induction c t fs arbitrary: gs u rule: locate.induct) (auto split: if_splits)

lemma locate_ranked:
  assumes "locate c t fs = (gs, u)" "ranked n t" "fits n fs"
  shows "\<exists>m. ranked m u \<and> fits m gs"
  using assms
proof (induction t arbitrary: fs n)
  case (Node bl br l x r)
  have l: "ranked (n - gap bl) l" "fits (n - gap bl) (Frame RB_L bl br x r # fs)"
    and r: "ranked (n - gap br) r" "fits (n - gap br) (Frame RB_R br bl x l # fs)"
    using Node.prems by (auto dest: ranked_pos)
  consider "c x < 0" | "0 < c x" "\<not> c x < 0" | "c x = 0" by fastforce
  then show ?case
  proof cases
    case 1
    then show ?thesis using Node.IH(1) [OF _ l] Node.prems(1) by simp
  next
    case 2
    then show ?thesis using Node.IH(2) [OF _ r] Node.prems(1) by simp
  next
    case 3
    then show ?thesis using Node.prems by (intro exI [of _ n]) simp
  qed
qed auto

lemma unique_key_split:
  fixes key :: "'a \<Rightarrow> 'k::linorder"
  assumes "sorted_wrt (<) (map key (as @ x # bs))" "as @ x # bs = cs @ y # ds" "key y = key x"
  shows "cs = as \<and> y # ds = x # bs"
  using assms
proof (induction as arbitrary: cs)
  case Nil
  then show ?case by (cases cs) (auto simp: sorted_wrt_append)
next
  case (Cons a as)
  show ?case
  proof (cases cs)
    case Nil
    with Cons.prems show ?thesis by (auto simp: sorted_wrt_append)
  next
    case (Cons c cs')
    have "sorted_wrt (<) (map key (as @ x # bs))" using Cons.prems(1) by simp
    moreover have "as @ x # bs = cs' @ y # ds" using Cons.prems(2) by (simp add: Cons)
    ultimately have "cs' = as \<and> y # ds = x # bs" using Cons.IH Cons.prems(3) by blast
    with Cons.prems(2) show ?thesis by (simp add: Cons)
  qed
qed

context three_way
begin

abbreviation cmp :: "'a \<Rightarrow> 'a \<Rightarrow> int" where
  "cmp a b \<equiv> probe (key a) b"

lemmas probe_simps = probe_less probe_greater

lemma RB_FIND_Some:
  "sorted_wrt (<) (map key (inorder t)) \<Longrightarrow>
     RB_FIND (probe k) t = Some x \<longleftrightarrow> x \<in> set (inorder t) \<and> key x = k"
proof (induction t)
  case (Node bl br l y r)
  consider (LT) "k < key y" | (GT) "key y < k" | (EQ) "key y = k" by fastforce
  then show ?case
    using Node by cases (auto simp: probe_simps sorted_wrt_append)
qed simp

lemma RB_FIND_find:
  "sorted_wrt (<) (map key (inorder t)) \<Longrightarrow>
     RB_FIND (probe k) t = List.find (\<lambda>y. key y = k) (inorder t)"
  by (rule option_eqI) (simp add: RB_FIND_Some find_sorted_keys)

definition around :: "'k \<Rightarrow> 'a frame list \<Rightarrow> bool" where
  "around k fs \<longleftrightarrow> (\<forall>y \<in> set (lctx fs). key y < k) \<and> (\<forall>y \<in> set (rctx fs). k < key y)"

lemma locate_order:
  assumes "locate (probe k) t fs = (gs, u)" "sorted_wrt (<) (map key (inorder t))" "around k fs"
  shows "around k gs \<and> (u \<noteq> Null \<longrightarrow> key (elem_of u) = k)"
  using assms
proof (induction t arbitrary: fs)
  case (Node bl br l x r)
  have s: "sorted_wrt (<) (map key (inorder l))" "sorted_wrt (<) (map key (inorder r))"
    "\<forall>y \<in> set (inorder l). key y < key x" "\<forall>y \<in> set (inorder r). key x < key y"
    using Node.prems(2) by (auto simp: sorted_wrt_append)
  consider (LT) "k < key x" | (GT) "key x < k" | (EQ) "key x = k" by fastforce
  then show ?case
  proof cases
    case LT
    with s Node.prems(3) have "around k (Frame RB_L bl br x r # fs)"
      by (auto simp: around_def)
    with LT Node.prems(1) Node.IH(1) s(1) show ?thesis by (simp add: probe_simps)
  next
    case GT
    with s Node.prems(3) have "around k (Frame RB_R br bl x l # fs)"
      by (auto simp: around_def)
    moreover from GT Node.prems(1) have "locate (probe k) r (Frame RB_R br bl x l # fs) = (gs, u)"
      using probe_less [of k x] probe_greater [of k x] by simp
    ultimately show ?thesis using Node.IH(2) s(2) by blast
  next
    case EQ
    with Node.prems show ?thesis by (auto simp: probe_simps)
  qed
qed auto

lemma key_split:
  assumes "\<forall>y \<in> set xs. key y < k" "\<forall>y \<in> set ys. k < key y"
  shows "filter (\<lambda>y. key y < k) (xs @ ys) = xs" "filter (\<lambda>y. k < key y) (xs @ ys) = ys"
    "filter (\<lambda>y. key y \<noteq> k) (xs @ ys) = xs @ ys"
proof -
  show "filter (\<lambda>y. key y < k) (xs @ ys) = xs" "filter (\<lambda>y. k < key y) (xs @ ys) = ys"
    using assms by (auto simp: filter_id_conv filter_empty_conv)
  show "filter (\<lambda>y. key y \<noteq> k) (xs @ ys) = xs @ ys"
    using assms by (intro filter_True) auto
qed

lemma sorted_filter_keys:
  "sorted_wrt (<) (map key xs) \<Longrightarrow> sorted_wrt (<) (map key (filter P xs))"
  by (induction xs) auto

lemma locate_inorder:
  assumes "rb_inv key t" "locate (probe k) t [] = (fs, u)"
  shows "inorder t = lctx fs @ inorder u @ rctx fs" "around k fs"
    "u \<noteq> Null \<Longrightarrow> key (elem_of u) = k" "\<exists>m. ranked m u \<and> fits m fs"
proof -
  have s: "sorted_wrt (<) (map key (inorder t))" using assms(1) by (simp add: rb_inv_def)
  show "inorder t = lctx fs @ inorder u @ rctx fs"
    using locate_plug [OF assms(2)] inorder_plug [of fs u] by simp
  show "around k fs" "u \<noteq> Null \<Longrightarrow> key (elem_of u) = k"
    using locate_order [OF assms(2) s] by (simp_all add: around_def)
  show "\<exists>m. ranked m u \<and> fits m fs"
    using locate_ranked [OF assms(2)] assms(1) by (auto simp: rb_inv_def balanced_def)
qed

lemma RB_INSERT_old:
  assumes "rb_inv key t" "RB_FIND (probe (key x)) t = Some y"
  shows "RB_INSERT cmp x t = Some (Some y, t)"
proof -
  obtain fs u where loc: "locate (probe (key x)) t [] = (fs, u)" by fastforce
  note l = locate_inorder [OF assms(1) loc]
  have "y \<in> set (inorder t)" "key y = key x"
    using assms by (simp_all add: rb_inv_def RB_FIND_Some)
  with l(1,2) have "u \<noteq> Null" by (auto simp: around_def)
  then have "RB_FIND (probe (key x)) t = Some (elem_of u)"
    using assms(1) l(1,3) by (cases u) (simp_all add: rb_inv_def RB_FIND_Some)
  with assms(2) loc \<open>u \<noteq> Null\<close> show ?thesis by (cases u) (simp_all add: RB_INSERT_def)
qed

lemma RB_INSERT_new:
  assumes "rb_inv key t" "RB_FIND (probe (key x)) t = None"
  shows "\<exists>t'. RB_INSERT cmp x t = Some (None, t') \<and> rb_inv key t' \<and>
    inorder t' = filter (\<lambda>y. key y < key x) (inorder t) @ x # filter (\<lambda>y. key x < key y) (inorder t)"
proof -
  obtain fs u where loc: "locate (probe (key x)) t [] = (fs, u)" by fastforce
  note l = locate_inorder [OF assms(1) loc]
  have s: "sorted_wrt (<) (map key (inorder t))" using assms(1) by (simp add: rb_inv_def)
  have u: "u = Null"
    using l(1,3) RB_FIND_Some [OF s, of "key x" "elem_of u"] assms(2) by (cases u) auto
  with l have f: "fits 0 fs" and i: "inorder t = lctx fs @ rctx fs" by auto
  note RB_INSERT_FINISH_spec [OF f, of x]
  moreover have "sorted_wrt (<) (map key (lctx fs @ x # rctx fs))"
    using s l(2) by (auto simp: i around_def sorted_wrt_append)
  ultimately show ?thesis
    using loc l(2) key_split [of "lctx fs" "key x" "rctx fs"]
    by (auto simp: RB_INSERT_def u i rb_inv_def around_def)
qed

lemma RB_REMOVE_spec:
  assumes "rb_inv key t" "RB_FIND (probe k) t \<noteq> None"
  shows "\<exists>t'. RB_REMOVE (probe k) t = Some t' \<and> rb_inv key t' \<and>
    inorder t' = filter (\<lambda>y. key y \<noteq> k) (inorder t)"
proof -
  obtain fs u where loc: "locate (probe k) t [] = (fs, u)" by fastforce
  note l = locate_inorder [OF assms(1) loc]
  have s: "sorted_wrt (<) (map key (inorder t))" using assms(1) by (simp add: rb_inv_def)
  from assms(2) obtain y where "y \<in> set (inorder t)" "key y = k"
    using RB_FIND_Some [OF s] by auto
  with l(1,2) have "u \<noteq> Null" by (auto simp: around_def)
  then obtain bl br ul x ur where u: "u = Node bl br ul x ur" by (cases u) auto
  from l(4) REMOVE_at_spec obtain t' where t': "REMOVE_at fs u = Some t'" "balanced t'"
    "inorder t' = lctx fs @ inorder ul @ inorder ur @ rctx fs"
    unfolding u by metis
  let ?a = "lctx fs @ inorder ul" and ?b = "inorder ur @ rctx fs"
  have i: "inorder t = ?a @ x # ?b" and x: "key x = k" using l(1,3) by (simp_all add: u)
  with s have "\<forall>y \<in> set ?a. key y < k" "\<forall>y \<in> set ?b. k < key y"
    by (auto simp: sorted_wrt_append)
  from key_split(3) [OF this] have "inorder t' = filter (\<lambda>y. key y \<noteq> k) (inorder t)"
    using x by (simp add: t'(3) i)
  then show ?thesis
    using t'(1,2) loc sorted_filter_keys [OF s] by (simp add: RB_REMOVE_def rb_inv_def)
qed

text \<open>Where \<^verbatim>\<open>locate\<close> finds an element, and what is around it.\<close>

lemma locate_elem:
  assumes "rb_inv key t" "inorder t = as @ x # bs"
  obtains fs m bl br l r where "locate (cmp x) t [] = (fs, Node bl br l x r)"
    "as = lctx fs @ inorder l" "bs = inorder r @ rctx fs" "fits m fs" "ranked m (Node bl br l x r)"
proof -
  obtain fs u where loc: "locate (cmp x) t [] = (fs, u)" by fastforce
  note l = locate_inorder [OF assms(1) loc]
  have s: "sorted_wrt (<) (map key (inorder t))" using assms(1) by (simp add: rb_inv_def)
  have "x \<in> set (inorder t)" using assms(2) by simp
  with l(1,2) have "u \<noteq> Null" by (auto simp: around_def)
  then obtain bl br ul y ur where u: "u = Node bl br ul y ur" by (cases u) auto
  have y: "key y = key x" using l(3) by (simp add: u)
  have "inorder t = (lctx fs @ inorder ul) @ y # (inorder ur @ rctx fs)" using l(1) by (simp add: u)
  then have "lctx fs @ inorder ul = as" "y # (inorder ur @ rctx fs) = x # bs"
    using s y assms(2) unique_key_split [of key as x bs "lctx fs @ inorder ul" y] by simp_all
  with that loc l(4) show thesis unfolding u by blast
qed

lemma RB_NEXT_first:
  assumes "rb_inv key t" "inorder t = as @ x # bs"
  shows "RB_NEXT (cmp x) t = first bs"
  using assms by (rule locate_elem) (simp add: RB_NEXT_def NEXT_at_first)

text \<open>The body of the loops of \<^verbatim>\<open>cache.c\<close>: remove the visited node when it satisfies \<open>P\<close>.\<close>

abbreviation sweep_body :: "('a \<Rightarrow> bool) \<Rightarrow> 'a \<Rightarrow> 'a rb \<Rightarrow> 'a rb option" where
  "sweep_body P x t \<equiv> (if P x then RB_REMOVE (cmp x) t else Some t)"

lemma sweep_one:
  assumes "rb_inv key t" "inorder t = as @ x # cs"
  shows "\<exists>t1. sweep_body P x t = Some t1 \<and> rb_inv key t1 \<and> inorder t1 = as @ (if P x then [] else [x]) @ cs"
proof (cases "P x")
  case True
  have s: "sorted_wrt (<) (map key (inorder t))" using assms(1) by (simp add: rb_inv_def)
  have f: "RB_FIND (cmp x) t \<noteq> None" using RB_FIND_Some [OF s, of "key x" x] assms(2) by auto
  have "filter (\<lambda>y. key y \<noteq> key x) (inorder t) = as @ cs"
    using s key_split(3) [of as "key x" cs] by (simp add: assms(2) sorted_wrt_append)
  with RB_REMOVE_spec [OF assms(1) f] True show ?thesis by auto
qed (use assms in simp)

lemma FOREACH_SAFE_spec:
  assumes "rb_inv key t" "inorder t = as @ bs" "length bs \<le> n"
  shows "\<exists>t'. FOREACH_SAFE_from n cmp (sweep_body P) (first bs) t = Some t' \<and> rb_inv key t' \<and>
    inorder t' = as @ filter (\<lambda>y. \<not> P y) bs"
  using assms
proof (induction n arbitrary: t as bs)
  case (Suc n)
  show ?case
  proof (cases bs)
    case Nil
    with Suc.prems show ?thesis by auto
  next
    case (Cons x cs)
    with Suc.prems(2) have t: "inorder t = as @ x # cs" by simp
    have nx: "RB_NEXT (cmp x) t = first cs" by (rule RB_NEXT_first [OF Suc.prems(1) t])
    from sweep_one [OF Suc.prems(1) t, of P] obtain t1 where t1: "sweep_body P x t = Some t1" "rb_inv key t1"
      "inorder t1 = (as @ (if P x then [] else [x])) @ cs" by auto
    from Suc.IH [OF t1(2,3)] Suc.prems(3) t1(1) nx show ?thesis
      by (auto simp: Cons)
  qed
qed auto

lemma RB_FOREACH_SAFE_spec:
  assumes "rb_inv key t"
  shows "\<exists>t'. RB_FOREACH_SAFE cmp (sweep_body P) t = Some t' \<and> rb_inv key t' \<and>
    inorder t' = filter (\<lambda>y. \<not> P y) (inorder t)"
  using FOREACH_SAFE_spec [OF assms, of "[]" "inorder t"]
  by (simp add: RB_FOREACH_SAFE_def RB_MIN_first)

lemma inorder_rb_modify:
  "sorted_wrt (<) (map key (inorder t)) \<Longrightarrow>
     inorder (rb_modify (probe k) f t) = map (\<lambda>y. if key y = k then f y else y) (inorder t)"
proof (induction t)
  case (Node bl br l x r)
  have s: "sorted_wrt (<) (map key (inorder l))" "sorted_wrt (<) (map key (inorder r))"
    "\<forall>y \<in> set (inorder l). key y < key x" "\<forall>y \<in> set (inorder r). key x < key y"
    using Node.prems by (auto simp: sorted_wrt_append)
  consider (LT) "k < key x" | (GT) "key x < k" | (EQ) "key x = k" by fastforce
  then show ?case
    using Node.IH s by cases (fastforce simp: probe_simps intro!: map_idI [symmetric])+
qed simp

lemma ranked_rb_modify [simp]: "ranked n (rb_modify c f t) \<longleftrightarrow> ranked n t"
proof (induction t arbitrary: n)
  case (Node bl br l x r)
  have "rb_modify c f u = Null \<longleftrightarrow> u = Null" for u by (cases u) auto
  with Node show ?case by auto
qed simp

end

text \<open>
  The macros as their clients call them. On a tree that satisfies the invariant the \<open>None\<close> cases
  do not arise (\<open>three_way.RB_INSERT_new\<close>, \<open>three_way.RB_REMOVE_spec\<close>,
  \<open>three_way.RB_FOREACH_SAFE_spec\<close>).
\<close>

definition rb_ins :: "('k \<Rightarrow> 'a \<Rightarrow> int) \<Rightarrow> ('a \<Rightarrow> 'k) \<Rightarrow> 'a \<Rightarrow> 'a rb \<Rightarrow> 'a option \<times> 'a rb" where
  "rb_ins probe key x t =
     (case RB_INSERT (\<lambda>a. probe (key a)) x t of Some r \<Rightarrow> r | None \<Rightarrow> (None, t))"

definition rb_del :: "('k \<Rightarrow> 'a \<Rightarrow> int) \<Rightarrow> 'k \<Rightarrow> 'a rb \<Rightarrow> 'a rb" where
  "rb_del probe k t = (case RB_REMOVE (probe k) t of Some t' \<Rightarrow> t' | None \<Rightarrow> t)"

definition rb_sweep ::
  "('k \<Rightarrow> 'a \<Rightarrow> int) \<Rightarrow> ('a \<Rightarrow> 'k) \<Rightarrow> ('a \<Rightarrow> bool) \<Rightarrow> 'a rb \<Rightarrow> 'a rb" where
  "rb_sweep probe key P t =
     (case RB_FOREACH_SAFE (\<lambda>a. probe (key a))
             (\<lambda>x t. if P x then RB_REMOVE (probe (key x)) t else Some t) t
      of Some t' \<Rightarrow> t' | None \<Rightarrow> t)"

sublocale three_way \<subseteq> keyed_tree key inorder "rb_inv key" Null "\<lambda>k. RB_FIND (probe k)"
  "rb_ins probe key" "rb_del probe" "\<lambda>k. rb_modify (probe k)" "rb_sweep probe key"
proof
  show "rb_inv key Null" by (auto simp: rb_inv_def balanced_def)
  show "inorder Null = []" by simp
next
  fix t assume "rb_inv key t"
  then show "sorted_wrt (<) (map key (inorder t))" by (simp add: rb_inv_def)
next
  fix t k assume "rb_inv key t"
  then show "RB_FIND (probe k) t = List.find (\<lambda>y. key y = k) (inorder t)"
    by (simp add: rb_inv_def RB_FIND_find)
next
  fix t x y assume "rb_inv key t" "RB_FIND (probe (key x)) t = Some y"
  then show "rb_ins probe key x t = (Some y, t)" by (simp add: rb_ins_def RB_INSERT_old)
next
  fix t x assume "rb_inv key t" "RB_FIND (probe (key x)) t = None"
  from RB_INSERT_new [OF this] show "fst (rb_ins probe key x t) = None \<and>
    rb_inv key (snd (rb_ins probe key x t)) \<and>
    inorder (snd (rb_ins probe key x t)) =
      filter (\<lambda>y. key y < key x) (inorder t) @ x # filter (\<lambda>y. key x < key y) (inorder t)"
    by (auto simp: rb_ins_def)
next
  fix t k assume "rb_inv key t" "RB_FIND (probe k) t \<noteq> None"
  from RB_REMOVE_spec [OF this] show "rb_inv key (rb_del probe k t) \<and>
    inorder (rb_del probe k t) = filter (\<lambda>y. key y \<noteq> k) (inorder t)"
    by (auto simp: rb_del_def)
next
  fix t k and f :: "'a \<Rightarrow> 'a" assume t: "rb_inv key t" and f: "\<And>y. key (f y) = key y"
  from t have s: "sorted_wrt (<) (map key (inorder t))" by (simp add: rb_inv_def)
  have "map (key \<circ> (\<lambda>y. if key y = k then f y else y)) (inorder t) = map key (inorder t)"
    using f by (intro map_cong) auto
  with t s show "rb_inv key (rb_modify (probe k) f t) \<and>
    inorder (rb_modify (probe k) f t) = map (\<lambda>y. if key y = k then f y else y) (inorder t)"
    by (simp add: rb_inv_def balanced_def inorder_rb_modify del: map_eq_conv)
next
  fix t P assume "rb_inv key t"
  from RB_FOREACH_SAFE_spec [OF this, of P] show "rb_inv key (rb_sweep probe key P t) \<and>
    inorder (rb_sweep probe key P t) = filter (\<lambda>y. \<not> P y) (inorder t)"
    by (auto simp: rb_sweep_def)
qed

section \<open>Height\<close>

fun height :: "'a rb \<Rightarrow> nat" where
  "height Null = 0"
| "height (Node bl br l x r) = Suc (max (height l) (height r))"

lemma height_le_rank: "ranked n t \<Longrightarrow> height t \<le> n"
proof (induction t arbitrary: n)
  case (Node bl br l x r)
  then have "height l \<le> n - gap bl" "height r \<le> n - gap br" "gap bl \<le> n" "gap br \<le> n"
    by auto
  moreover have "0 < gap bl" "0 < gap br" by (rule gap_bounds)+
  ultimately show ?case unfolding height.simps by arith
qed simp

lemma rank_size: "ranked n t \<Longrightarrow> 2 ^ n \<le> (length (inorder t) + 1)\<^sup>2"
proof (induction t arbitrary: n)
  case (Node bl br l x r)
  let ?a = "length (inorder l) + 1" and ?b = "length (inorder r) + 1"
  have half: "2 ^ (n - 2) \<le> c\<^sup>2" if "2 ^ (n - gap b) \<le> c\<^sup>2" for b and c :: nat
  proof -
    have "(2 :: nat) ^ (n - 2) \<le> 2 ^ (n - gap b)" by (cases b) (auto intro!: power_increasing)
    with that show ?thesis by linarith
  qed
  have ab: "2 ^ (n - 2) \<le> ?a\<^sup>2" "2 ^ (n - 2) \<le> ?b\<^sup>2"
    using half Node by auto
  show ?case
  proof (cases "n \<le> 1")
    case True
    then have "(2 :: nat) ^ n \<le> 2 ^ 1" by (intro power_increasing) auto
    moreover have "(2 :: nat)\<^sup>2 \<le> (?a + ?b)\<^sup>2" by (intro power_mono) auto
    ultimately show ?thesis by simp
  next
    case False
    have two: "2 * (min ?a ?b)\<^sup>2 + 2 * (min ?a ?b)\<^sup>2 \<le> (?a + ?b)\<^sup>2"
    proof -
      have "(2 * min ?a ?b)\<^sup>2 \<le> (?a + ?b)\<^sup>2" by (intro power_mono) auto
      then show ?thesis by (simp add: power2_eq_square)
    qed
    have "2 ^ (n - 2) \<le> (min ?a ?b)\<^sup>2" using ab by (simp add: min_def)
    with two have "4 * 2 ^ (n - 2) \<le> (?a + ?b)\<^sup>2" by linarith
    moreover have "(2 :: nat) ^ n = 4 * 2 ^ (n - 2)"
      using False by (metis numeral_Bit0 power2_eq_square power_add le_add_diff_inverse not_less_eq_eq
          numeral_2_eq_2 One_nat_def mult_2 mult_2_right)
    ultimately show ?thesis by simp
  qed
qed simp

text \<open>The comparisons that \<^verbatim>\<open>RB_FIND\<close> makes.\<close>

fun find_steps :: "('a \<Rightarrow> int) \<Rightarrow> 'a rb \<Rightarrow> nat" where
  "find_steps c Null = 0"
| "find_steps c (Node bl br l x r) =
     Suc (if c x < 0 then find_steps c l else if 0 < c x then find_steps c r else 0)"

lemma find_steps_height: "find_steps c t \<le> height t"
  by (induction t) auto

text \<open>A client's calls, one after the other: it removes an element by its key if there is one.\<close>

datatype ('a, 'k) rb_op = RB_Ins 'a | RB_Del 'k

fun rb_run :: "('k \<Rightarrow> 'a \<Rightarrow> int) \<Rightarrow> ('a \<Rightarrow> 'k) \<Rightarrow> ('a, 'k) rb_op list \<Rightarrow> 'a rb \<Rightarrow> 'a rb option" where
  "rb_run probe key [] t = Some t"
| "rb_run probe key (RB_Ins x # ops) t =
     (case RB_INSERT (\<lambda>a. probe (key a)) x t of None \<Rightarrow> None | Some (old, t') \<Rightarrow> rb_run probe key ops t')"
| "rb_run probe key (RB_Del k # ops) t =
     (if RB_FIND (probe k) t = None then rb_run probe key ops t
      else case RB_REMOVE (probe k) t of None \<Rightarrow> None | Some t' \<Rightarrow> rb_run probe key ops t')"

lemma balanced_height:
  assumes "balanced t"
  shows "2 ^ height t \<le> (length (inorder t) + 1)\<^sup>2"
proof -
  from assms obtain n where "ranked n t" by (auto simp: balanced_def)
  with height_le_rank rank_size have "height t \<le> n" "2 ^ n \<le> (length (inorder t) + 1)\<^sup>2" by blast+
  moreover have "(2 :: nat) ^ height t \<le> 2 ^ n" using \<open>height t \<le> n\<close> by (rule power_increasing) simp
  ultimately show ?thesis by linarith
qed

context three_way
begin

lemma rb_run_inv: "rb_inv key t \<Longrightarrow> \<exists>t'. rb_run probe key ops t = Some t' \<and> rb_inv key t'"
proof (induction ops arbitrary: t)
  case (Cons op ops)
  show ?case
  proof (cases op)
    case (RB_Ins x)
    have "\<exists>old t1. RB_INSERT (\<lambda>a. probe (key a)) x t = Some (old, t1) \<and> rb_inv key t1"
      using RB_INSERT_new [OF Cons.prems, of x] RB_INSERT_old [OF Cons.prems, of x] Cons.prems
      by (cases "RB_FIND (probe (key x)) t") auto
    then obtain old t1 where "RB_INSERT (\<lambda>a. probe (key a)) x t = Some (old, t1)" "rb_inv key t1" by blast
    with Cons.IH [of t1] RB_Ins show ?thesis by simp
  next
    case (RB_Del k)
    show ?thesis
    proof (cases "RB_FIND (probe k) t = None")
      case True
      with Cons.IH [OF Cons.prems] RB_Del show ?thesis by simp
    next
      case False
      from RB_REMOVE_spec [OF Cons.prems False] obtain t1 where "RB_REMOVE (probe k) t = Some t1" "rb_inv key t1" by blast
      with Cons.IH [of t1] RB_Del False show ?thesis by auto
    qed
  qed
qed simp

end

section \<open>Properties\<close>

text \<open>
  C9: On a balanced tree sorted by key, \<^verbatim>\<open>RB_INSERT\<close> never dereferences NULL nor reads the
  uninitialised \<^verbatim>\<open>child\<close>. If an element with the same key is there, it is returned and the tree
  is unchanged; otherwise NULL is returned and the new tree is again balanced and sorted, its
  in-order list the old one with the new element at its place.
\<close>

theorem RB_INSERT_correct:
  assumes "three_way probe key" "rb_inv key t"
  shows "case RB_FIND (probe (key x)) t of
      Some y \<Rightarrow> RB_INSERT (\<lambda>a. probe (key a)) x t = Some (Some y, t)
    | None \<Rightarrow> (\<exists>t'. RB_INSERT (\<lambda>a. probe (key a)) x t = Some (None, t') \<and> rb_inv key t' \<and>
        inorder t' =
          filter (\<lambda>y. key y < key x) (inorder t) @ x # filter (\<lambda>y. key x < key y) (inorder t))"
  using three_way.RB_INSERT_new [OF assms] three_way.RB_INSERT_old [OF assms]
  by (auto split: option.split)

lemma three_way_strcmp: "three_way strcmp (\<lambda>s. s)"
  by unfold_locales auto

lemma rb_inv_example: "rb_inv (\<lambda>s. s) (Node False True (Node False False Null ''a'' Null) ''b'' Null)"
proof -
  have "ranked 2 (Node False True (Node False False Null ''a'' Null) ''b'' Null)" by simp
  then have "balanced (Node False True (Node False False Null ''a'' Null) ''b'' Null)"
    unfolding balanced_def by blast
  then show ?thesis by (simp add: rb_inv_def)
qed

theorem RB_INSERT_correct_witness:
  "\<exists>t'. RB_INSERT (\<lambda>a. strcmp a) ''ab'' (Node False True (Node False False Null ''a'' Null) ''b'' Null)
       = Some (None, t') \<and> inorder t' = [''a'', ''ab'', ''b'']"
  using RB_INSERT_correct [OF three_way_strcmp rb_inv_example, of "''ab''"] by auto

text \<open>
  C10: \<^verbatim>\<open>RB_REMOVE\<close> of an element of a balanced, sorted tree never dereferences NULL; the result is
  balanced and sorted, and its in-order list is the old one without that element.
\<close>

theorem RB_REMOVE_correct:
  assumes "three_way probe key" "rb_inv key t" "RB_FIND (probe k) t \<noteq> None"
  shows "\<exists>t'. RB_REMOVE (probe k) t = Some t' \<and> rb_inv key t' \<and>
    inorder t' = filter (\<lambda>y. key y \<noteq> k) (inorder t)"
  by (rule three_way.RB_REMOVE_spec [OF assms])

theorem RB_REMOVE_correct_witness:
  "\<exists>t'. RB_REMOVE (strcmp ''b'') (Node False True (Node False False Null ''a'' Null) ''b'' Null) = Some t' \<and>
     rb_inv (\<lambda>s. s) t' \<and> inorder t' = [''a'']"
  using RB_REMOVE_correct [OF three_way_strcmp rb_inv_example, of "''b''"] by simp

text \<open>
  C27: \<^verbatim>\<open>RB_FOREACH_SAFE\<close> whose body removes the visited element when it satisfies \<open>P\<close> (the loops of
  the cache cleaner and of \<^verbatim>\<open>cache_destroy\<close>) terminates within one step per element, fails nowhere,
  and removes exactly the elements that satisfy \<open>P\<close>.
\<close>

theorem RB_FOREACH_SAFE_correct:
  assumes "three_way probe key" "rb_inv key t"
  shows "\<exists>t'. RB_FOREACH_SAFE (\<lambda>a. probe (key a))
      (\<lambda>x t. if P x then RB_REMOVE (probe (key x)) t else Some t) t = Some t' \<and>
    rb_inv key t' \<and> inorder t' = filter (\<lambda>y. \<not> P y) (inorder t)"
  by (rule three_way.RB_FOREACH_SAFE_spec [OF assms])

theorem RB_FOREACH_SAFE_correct_witness:
  "\<exists>t'. RB_FOREACH_SAFE (\<lambda>a. strcmp a)
      (\<lambda>x t. if x = ''a'' then RB_REMOVE (strcmp x) t else Some t)
      (Node False True (Node False False Null ''a'' Null) ''b'' Null) = Some t' \<and>
    inorder t' = [''b'']"
  using RB_FOREACH_SAFE_correct [OF three_way_strcmp rb_inv_example, of "\<lambda>x. x = ''a''"] by auto

text \<open>
  C40: The height bound that the header of \<^verbatim>\<open>tree.h\<close> states, for the trees the operations build. Whatever
  sequence of \<^verbatim>\<open>RB_INSERT\<close> and of \<^verbatim>\<open>RB_REMOVE\<close> of what \<^verbatim>\<open>RB_FIND\<close> finds is applied to the empty tree, it
  succeeds, and in the resulting tree of \<open>n\<close> elements the height, and with it the number of comparisons
  that \<^verbatim>\<open>RB_FIND\<close> makes for any key, is at most \<open>2 lg (n + 1)\<close>, in the form \<open>2 ^ height \<le> (n + 1)\<^sup>2\<close>.
\<close>

theorem RB_height_bound:
  assumes "three_way probe key"
  shows "\<exists>t. rb_run probe key ops Null = Some t \<and> sorted_wrt (<) (map key (inorder t)) \<and>
    2 ^ height t \<le> (length (inorder t) + 1)\<^sup>2 \<and> 2 ^ find_steps (probe k) t \<le> (length (inorder t) + 1)\<^sup>2"
proof -
  have "rb_inv key Null" by (auto simp: rb_inv_def balanced_def)
  from three_way.rb_run_inv [OF assms this] obtain t where t: "rb_run probe key ops Null = Some t" "rb_inv key t" by blast
  then have height: "2 ^ height t \<le> (length (inorder t) + 1)\<^sup>2" by (intro balanced_height) (simp add: rb_inv_def)
  have "(2 :: nat) ^ find_steps (probe k) t \<le> 2 ^ height t" by (intro power_increasing find_steps_height) simp
  with height have "2 ^ find_steps (probe k) t \<le> (length (inorder t) + 1)\<^sup>2" by linarith
  with height t show ?thesis unfolding rb_inv_def by blast
qed

theorem RB_height_bound_witness:
  "\<exists>t. rb_run strcmp (\<lambda>s. s) [RB_Ins ''a'', RB_Ins ''b'', RB_Ins ''c'', RB_Del ''a''] Null = Some t \<and> inorder t = [''b'', ''c''] \<and>
     2 ^ find_steps (strcmp ''c'') t \<le> (3 :: nat)\<^sup>2"
proof -
  let ?ops = "[RB_Ins ''a'', RB_Ins ''b'', RB_Ins ''c'', RB_Del ''a'']"
  have "map_option inorder (rb_run strcmp (\<lambda>s. s) ?ops Null) = Some [''b'', ''c'']" by code_simp
  with RB_height_bound [OF three_way_strcmp, of ?ops "''c''"] show ?thesis by (auto simp: power2_eq_square simp del: rb_run.simps)
qed

end
