(* ===== verification/RB_Order.thy ===== *)
theory RB_Order
  imports RB_Tree
begin

text \<open>
  The rest of what \<^verbatim>\<open>RB_GENERATE\<close> of \<^verbatim>\<open>lib/infra/tree.h\<close> makes for a tree: predecessor, search for the
  next key, insertion beside an element, reinsertion of an element whose key has changed, the
  traversals, and the diagnostic \<^verbatim>\<open>RB_RANK\<close>. Positions are paths as in \<open>RB_Tree\<close>; where the C code is
  given a pointer to an element, the definitions are given a comparison that finds it, or the position
  where the key of the element no longer says where it is.
\<close>

section \<open>Operations\<close>

text \<open>\<^verbatim>\<open>RB_NFIND\<close>: \<open>res\<close> is the last element that was passed on its left.\<close>

fun NFIND_from :: "('a \<Rightarrow> int) \<Rightarrow> 'a rb \<Rightarrow> 'a option \<Rightarrow> 'a option" where
  "NFIND_from c Null res = res"
| "NFIND_from c (Node bl br l x r) res =
     (if c x < 0 then NFIND_from c l (Some x) else if 0 < c x then NFIND_from c r res else Some x)"

definition RB_NFIND :: "('a \<Rightarrow> int) \<Rightarrow> 'a rb \<Rightarrow> 'a option" where
  "RB_NFIND c t = NFIND_from c t None"

fun climb_left :: "'a frame list \<Rightarrow> 'a option" where
  "climb_left [] = None"
| "climb_left (Frame RB_L bd bo p s # fs) = climb_left fs"
| "climb_left (Frame RB_R bd bo p s # fs) = Some p"

definition PREV_at :: "'a frame list \<Rightarrow> 'a rb \<Rightarrow> 'a option" where
  "PREV_at fs t = (if lft t \<noteq> Null then RB_MINMAX (lft t) 1 else climb_left fs)"

definition RB_PREV :: "('a \<Rightarrow> int) \<Rightarrow> 'a rb \<Rightarrow> 'a option" where
  "RB_PREV c t = (case locate c t [] of (fs, t') \<Rightarrow> if t' = Null then None else PREV_at fs t')"

text \<open>The descents of \<^verbatim>\<open>RB_INSERT_NEXT\<close> and \<^verbatim>\<open>RB_INSERT_PREV\<close> to an empty place.\<close>

fun down_left :: "'a rb \<Rightarrow> 'a frame list \<Rightarrow> 'a frame list" where
  "down_left Null fs = fs"
| "down_left (Node bl br l x r) fs = down_left l (Frame RB_L bl br x r # fs)"

fun down_right :: "'a rb \<Rightarrow> 'a frame list \<Rightarrow> 'a frame list" where
  "down_right Null fs = fs"
| "down_right (Node bl br l x r) fs = down_right r (Frame RB_R br bl x l # fs)"

text \<open>
  Both return what \<^verbatim>\<open>RB_INSERT_FINISH\<close> returns, which is NULL; their order checks are compiled into
  kernels only. \<open>c\<close> finds the element beside which the new one is put.
\<close>

definition RB_INSERT_NEXT :: "('a \<Rightarrow> int) \<Rightarrow> 'a \<Rightarrow> 'a rb \<Rightarrow> 'a rb option" where
  "RB_INSERT_NEXT c next t =
     (case locate c t [] of
        (fs, Null) \<Rightarrow> None
      | (fs, Node bl br l x r) \<Rightarrow> RB_INSERT_FINISH (down_left r (Frame RB_R br bl x l # fs)) next)"

definition RB_INSERT_PREV :: "('a \<Rightarrow> int) \<Rightarrow> 'a \<Rightarrow> 'a rb \<Rightarrow> 'a rb option" where
  "RB_INSERT_PREV c prev t =
     (case locate c t [] of
        (fs, Null) \<Rightarrow> None
      | (fs, Node bl br l x r) \<Rightarrow> RB_INSERT_FINISH (down_right l (Frame RB_L bl br x r # fs)) prev)"

text \<open>\<^verbatim>\<open>RB_REINSERT\<close> of the element at a position, whose key may have been changed in place.\<close>

definition RB_REINSERT :: "('a \<Rightarrow> 'a \<Rightarrow> int) \<Rightarrow> 'a frame list \<Rightarrow> 'a rb \<Rightarrow> ('a option \<times> 'a rb) option" where
  "RB_REINSERT cmp fs t =
     (case t of
        Null \<Rightarrow> None
      | Node bl br l elm r \<Rightarrow>
          if (case PREV_at fs t of None \<Rightarrow> False | Some cmpelm \<Rightarrow> 0 \<le> cmp cmpelm elm) \<or>
             (case NEXT_at fs t of None \<Rightarrow> False | Some cmpelm \<Rightarrow> 0 \<le> cmp elm cmpelm)
          then (case REMOVE_at fs t of None \<Rightarrow> None | Some t' \<Rightarrow> RB_INSERT cmp elm t')
          else Some (None, plug fs t))"

text \<open>
  \<^verbatim>\<open>RB_FOREACH\<close> and \<^verbatim>\<open>RB_FOREACH_REVERSE\<close> with a body that leaves the tree alone and works on a state of
  its own; \<open>None\<close> when the fuel runs out.
\<close>

fun FOREACH_from :: "nat \<Rightarrow> ('a \<Rightarrow> 'a option) \<Rightarrow> ('a \<Rightarrow> 's \<Rightarrow> 's) \<Rightarrow> 'a option \<Rightarrow> 's \<Rightarrow> 's option" where
  "FOREACH_from n succ body None s = Some s"
| "FOREACH_from 0 succ body (Some x) s = None"
| "FOREACH_from (Suc n) succ body (Some x) s = FOREACH_from n succ body (succ x) (body x s)"

definition RB_FOREACH :: "('a \<Rightarrow> 'a \<Rightarrow> int) \<Rightarrow> ('a \<Rightarrow> 's \<Rightarrow> 's) \<Rightarrow> 'a rb \<Rightarrow> 's \<Rightarrow> 's option" where
  "RB_FOREACH cmp body t s =
     FOREACH_from (length (inorder t)) (\<lambda>x. RB_NEXT (cmp x) t) body (RB_MINMAX t (-1)) s"

definition RB_FOREACH_REVERSE :: "('a \<Rightarrow> 'a \<Rightarrow> int) \<Rightarrow> ('a \<Rightarrow> 's \<Rightarrow> 's) \<Rightarrow> 'a rb \<Rightarrow> 's \<Rightarrow> 's option" where
  "RB_FOREACH_REVERSE cmp body t s =
     FOREACH_from (length (inorder t)) (\<lambda>x. RB_PREV (cmp x) t) body (RB_MINMAX t 1) s"

text \<open>\<^verbatim>\<open>RB_RANK\<close>, without augmentation.\<close>

fun RB_RANK :: "'a rb \<Rightarrow> int" where
  "RB_RANK Null = 0"
| "RB_RANK (Node bl br l x r) =
     (let left_rank = (if bl then 2 else 1) + RB_RANK l;
          right_rank = (if br then 2 else 1) + RB_RANK r
      in if left_rank \<noteq> right_rank \<or> left_rank = 2 \<and> l = Null \<and> r = Null then - 1 else left_rank)"

section \<open>Neighbours\<close>

lemma RB_MAX_last: "RB_MINMAX t 1 = first (rev (inorder t))"
  by (induction t) auto

lemma climb_left_last: "climb_left fs = first (rev (lctx fs))"
  by (induction fs rule: climb_left.induct) auto

lemma PREV_at_last: "PREV_at fs (Node bl br l x r) = first (rev (lctx fs @ inorder l))"
  by (simp add: PREV_at_def climb_left_last RB_MAX_last)

lemma down_left_fits:
  "ranked n t \<Longrightarrow> fits n fs \<Longrightarrow> fits 0 (down_left t fs)"
proof (induction t arbitrary: n fs)
  case (Node bl br l x r)
  have "ranked (n - gap bl) l" "fits (n - gap bl) (Frame RB_L bl br x r # fs)"
    using Node.prems by (auto dest: ranked_pos)
  from Node.IH(1) [OF this] show ?case by simp
qed auto

lemma down_right_fits:
  "ranked n t \<Longrightarrow> fits n fs \<Longrightarrow> fits 0 (down_right t fs)"
proof (induction t arbitrary: n fs)
  case (Node bl br l x r)
  have "ranked (n - gap br) r" "fits (n - gap br) (Frame RB_R br bl x l # fs)"
    using Node.prems by (auto dest: ranked_pos)
  from Node.IH(2) [OF this] show ?case by simp
qed auto

lemma down_ctx:
  "lctx (down_left t fs) = lctx fs" "rctx (down_left t fs) = inorder t @ rctx fs"
  "lctx (down_right t fs) = lctx fs @ inorder t" "rctx (down_right t fs) = rctx fs"
  by (induction t arbitrary: fs) auto

lemma child_fits:
  assumes "fits n fs" "ranked n (Node bl br l x r)"
  shows "fits (n - gap br) (Frame RB_R br bl x l # fs)" "fits (n - gap bl) (Frame RB_L bl br x r # fs)"
  using assms by (auto dest: ranked_pos)

lemma FOREACH_from_fold:
  assumes "\<forall>as x bs. xs = as @ x # bs \<longrightarrow> succ x = first bs" "xs = as @ bs" "length bs \<le> n"
  shows "FOREACH_from n succ body (first bs) s = Some (fold body bs s)"
  using assms(2,3)
proof (induction n arbitrary: as bs s)
  case (Suc n)
  show ?case
  proof (cases bs)
    case (Cons x cs)
    with assms(1) [rule_format, of as x cs] Suc.prems Suc.IH [of "as @ [x]" cs] show ?thesis by simp
  qed simp
qed simp

text \<open>The diagnostic gives the rank of a balanced tree, but does not notice that a subtree is not one.\<close>

lemma RB_RANK_ranked: "ranked n t \<Longrightarrow> RB_RANK t = int n"
proof (induction t arbitrary: n)
  case (Node bl br l x r)
  have l: "RB_RANK l = int (n - gap bl)" "gap bl \<le> n" and r: "RB_RANK r = int (n - gap br)" "gap br \<le> n"
    using Node.IH(1) [of "n - gap bl"] Node.IH(2) [of "n - gap br"] Node.prems by auto
  have "(if b then 2 else 1) = int (gap b)" for b by (cases b) auto
  with l r Node.prems show ?case by (auto simp: of_nat_diff)
qed simp

section \<open>With keys\<close>

lemma find_append: "List.find P (xs @ ys) = (case List.find P xs of None \<Rightarrow> List.find P ys | Some y \<Rightarrow> Some y)"
  by (induction xs) auto

lemma last_less:
  fixes key :: "'a \<Rightarrow> 'k::linorder"
  assumes "sorted_wrt (<) (map key xs)" "\<And>y. first (rev xs) = Some y \<Longrightarrow> key y < k"
  shows "\<forall>y \<in> set xs. key y < k"
proof (cases xs rule: rev_cases)
  case (snoc ys y)
  with assms(2) [of y] have "key y < k" by simp
  with assms(1) snoc show ?thesis by (auto simp: sorted_wrt_append)
qed simp

lemma first_greater:
  fixes key :: "'a \<Rightarrow> 'k::linorder"
  assumes "sorted_wrt (<) (map key xs)" "\<And>y. first xs = Some y \<Longrightarrow> k < key y"
  shows "\<forall>y \<in> set xs. k < key y"
proof (cases xs)
  case (Cons y ys)
  with assms(2) [of y] have "k < key y" by simp
  with assms(1) Cons show ?thesis by auto
qed simp

context three_way
begin

lemma RB_NFIND_find:
  assumes "sorted_wrt (<) (map key (inorder t))"
  shows "RB_NFIND (probe k) t = List.find (\<lambda>y. k \<le> key y) (inorder t)"
proof -
  have "NFIND_from (probe k) t res = (case List.find (\<lambda>y. k \<le> key y) (inorder t) of None \<Rightarrow> res | Some y \<Rightarrow> Some y)" for res
    using assms
  proof (induction t arbitrary: res)
    case (Node bl br l x r)
    have s: "sorted_wrt (<) (map key (inorder l))" "sorted_wrt (<) (map key (inorder r))" "\<forall>y \<in> set (inorder l). key y < key x"
      using Node.prems by (auto simp: sorted_wrt_append)
    consider (LT) "k < key x" | (GT) "key x < k" | (EQ) "key x = k" by fastforce
    then show ?case
    proof cases
      case LT
      with Node.IH(1) [OF s(1)] show ?thesis by (auto simp: probe_simps find_append split: option.split)
    next
      case GT
      with s(3) have "List.find (\<lambda>y. k \<le> key y) (inorder l) = None" by (fastforce simp: find_None_iff)
      with GT Node.IH(2) [OF s(2)] probe_less [of k x] probe_greater [of k x] show ?thesis by (auto simp: find_append)
    next
      case EQ
      with s(3) have "List.find (\<lambda>y. k \<le> key y) (inorder l) = None" by (fastforce simp: find_None_iff)
      with EQ show ?thesis by (simp add: probe_simps find_append)
    qed
  qed simp
  then show ?thesis by (simp add: RB_NFIND_def split: option.split)
qed

lemma RB_PREV_last:
  assumes "rb_inv key t" "inorder t = as @ x # bs"
  shows "RB_PREV (cmp x) t = first (rev as)"
  using assms by (rule locate_elem) (simp add: RB_PREV_def PREV_at_last)

lemma RB_INSERT_NEXT_spec:
  assumes "rb_inv key t" "inorder t = as @ x # bs"
  shows "\<exists>t'. RB_INSERT_NEXT (cmp x) y t = Some t' \<and> balanced t' \<and> inorder t' = as @ x # y # bs"
  using assms
proof (rule locate_elem)
  fix fs m bl br l r
  assume loc: "locate (cmp x) t [] = (fs, Node bl br l x r)" and ctx: "as = lctx fs @ inorder l" "bs = inorder r @ rctx fs"
    and fit: "fits m fs" "ranked m (Node bl br l x r)"
  have "fits 0 (down_left r (Frame RB_R br bl x l # fs))"
    using down_left_fits [OF _ child_fits(1) [OF fit]] fit(2) by simp
  from RB_INSERT_FINISH_spec [OF this, of y] show ?thesis by (simp add: RB_INSERT_NEXT_def loc ctx down_ctx)
qed

lemma RB_INSERT_PREV_spec:
  assumes "rb_inv key t" "inorder t = as @ x # bs"
  shows "\<exists>t'. RB_INSERT_PREV (cmp x) y t = Some t' \<and> balanced t' \<and> inorder t' = as @ y # x # bs"
  using assms
proof (rule locate_elem)
  fix fs m bl br l r
  assume loc: "locate (cmp x) t [] = (fs, Node bl br l x r)" and ctx: "as = lctx fs @ inorder l" "bs = inorder r @ rctx fs"
    and fit: "fits m fs" "ranked m (Node bl br l x r)"
  have "fits 0 (down_right l (Frame RB_L bl br x r # fs))"
    using down_right_fits [OF _ child_fits(2) [OF fit]] fit(2) by simp
  from RB_INSERT_FINISH_spec [OF this, of y] show ?thesis by (simp add: RB_INSERT_PREV_def loc ctx down_ctx)
qed

lemma RB_FOREACH_fold:
  assumes "rb_inv key t"
  shows "RB_FOREACH cmp body t s = Some (fold body (inorder t) s)"
    "RB_FOREACH_REVERSE cmp body t s = Some (fold body (rev (inorder t)) s)"
proof -
  have "\<forall>as x bs. inorder t = as @ x # bs \<longrightarrow> RB_NEXT (cmp x) t = first bs" using RB_NEXT_first [OF assms] by blast
  from FOREACH_from_fold [of "inorder t" "\<lambda>x. RB_NEXT (cmp x) t" "[]" "inorder t" _ body s, OF this]
  show "RB_FOREACH cmp body t s = Some (fold body (inorder t) s)"
    by (simp add: RB_FOREACH_def RB_MIN_first)
  have "RB_PREV (cmp x) t = first bs" if "rev (inorder t) = as @ x # bs" for as x bs
  proof -
    from that have "inorder t = rev bs @ x # rev as" by (metis append.assoc append_Cons append_Nil rev.simps(2) rev_append rev_rev_ident)
    from RB_PREV_last [OF assms this] show ?thesis by simp
  qed
  then have "\<forall>as x bs. rev (inorder t) = as @ x # bs \<longrightarrow> RB_PREV (cmp x) t = first bs" by blast
  from FOREACH_from_fold [of "rev (inorder t)" "\<lambda>x. RB_PREV (cmp x) t" "[]" "rev (inorder t)" _ body s, OF this]
  show "RB_FOREACH_REVERSE cmp body t s = Some (fold body (rev (inorder t)) s)"
    by (simp add: RB_FOREACH_REVERSE_def RB_MAX_last)
qed

lemma RB_REINSERT_moved:
  assumes inv: "rb_inv key t"
  shows "\<exists>res t'. RB_INSERT cmp x t = Some (res, t') \<and> rb_inv key t' \<and>
    res = List.find (\<lambda>y. key y = key x) (inorder t) \<and>
    inorder t' = (if res = None then filter (\<lambda>y. key y < key x) (inorder t) @ x # filter (\<lambda>y. key x < key y) (inorder t) else inorder t)"
proof -
  have find: "RB_FIND (probe (key x)) t = List.find (\<lambda>y. key y = key x) (inorder t)"
    using inv by (simp add: rb_inv_def RB_FIND_find)
  show ?thesis
    using RB_INSERT_new [OF inv, of x] RB_INSERT_old [OF inv, of x] inv find
    by (cases "RB_FIND (probe (key x)) t") auto
qed

lemma RB_REINSERT_spec:
  assumes fit: "fits n fs" and rank: "ranked n (Node bl br l x r)"
    and s: "sorted_wrt (<) (map key (as @ bs))" and ctx: "as = lctx fs @ inorder l" "bs = inorder r @ rctx fs"
  shows "\<exists>res t'. RB_REINSERT cmp fs (Node bl br l x r) = Some (res, t') \<and> rb_inv key t' \<and>
    res = List.find (\<lambda>y. key y = key x) (as @ bs) \<and>
    inorder t' = (if res = None then filter (\<lambda>y. key y < key x) (as @ bs) @ x # filter (\<lambda>y. key x < key y) (as @ bs) else as @ bs)"
proof -
  let ?t = "Node bl br l x r"
  have prev: "PREV_at fs ?t = first (rev as)" and nxt: "NEXT_at fs ?t = first bs"
    by (simp_all only: PREV_at_last NEXT_at_first ctx)
  show ?thesis
  proof (cases "(case first (rev as) of None \<Rightarrow> False | Some y \<Rightarrow> 0 \<le> cmp y x) \<or> (case first bs of None \<Rightarrow> False | Some y \<Rightarrow> 0 \<le> cmp x y)")
    case True
    from REMOVE_at_spec [OF fit rank] obtain t1 where t1: "REMOVE_at fs ?t = Some t1" "balanced t1" "inorder t1 = as @ bs"
      by (auto simp: ctx)
    with s have "rb_inv key t1" by (simp add: rb_inv_def)
    moreover have "RB_REINSERT cmp fs ?t = RB_INSERT cmp x t1" using True t1(1) by (simp add: RB_REINSERT_def prev nxt)
    ultimately show ?thesis using RB_REINSERT_moved [of t1 x] by (simp only: t1(3))
  next
    case False
    have before: "\<forall>y \<in> set as. key y < key x"
    proof (rule last_less)
      show "sorted_wrt (<) (map key as)" using s by (simp add: sorted_wrt_append)
      show "key y < key x" if "first (rev as) = Some y" for y using False that by (auto simp: probe_simps not_le)
    qed
    have after: "\<forall>y \<in> set bs. key x < key y"
    proof (rule first_greater)
      show "sorted_wrt (<) (map key bs)" using s by (simp add: sorted_wrt_append)
      show "key x < key y" if "first bs = Some y" for y using False that by (auto simp: probe_simps not_le)
    qed
    have "List.find (\<lambda>y. key y = key x) (as @ bs) = None" using before after by (auto simp: find_None_iff)
    moreover have "inorder (plug fs ?t) = as @ x # bs" by (simp add: inorder_plug ctx)
    moreover have "rb_inv key (plug fs ?t)"
      using balanced_plug [OF fit rank] s before after \<open>inorder (plug fs ?t) = as @ x # bs\<close>
      by (auto simp: rb_inv_def sorted_wrt_append)
    ultimately show ?thesis using False key_split [OF before after] by (simp add: RB_REINSERT_def prev nxt)
  qed
qed

end

section \<open>Properties\<close>

text \<open>
  \<^verbatim>\<open>RB_NFIND\<close> finds the first element that is not below the key, and the traversals visit every
  element once, in order and in reverse order, within as many turns as there are elements.
\<close>

theorem RB_traversal_correct:
  assumes "three_way probe key" "rb_inv key t"
  shows "RB_NFIND (probe k) t = List.find (\<lambda>y. k \<le> key y) (inorder t) \<and>
    RB_FOREACH (\<lambda>a. probe (key a)) body t s = Some (fold body (inorder t) s) \<and>
    RB_FOREACH_REVERSE (\<lambda>a. probe (key a)) body t s = Some (fold body (rev (inorder t)) s)"
  using three_way.RB_NFIND_find [OF assms(1)] three_way.RB_FOREACH_fold [OF assms, of body s] assms(2) by (simp add: rb_inv_def)

theorem RB_traversal_correct_witness:
  "RB_NFIND (strcmp ''aa'') (Node False True (Node False False Null ''a'' Null) ''b'' Null) = Some ''b'' \<and>
   RB_FOREACH_REVERSE (\<lambda>a. strcmp a) (#) (Node False True (Node False False Null ''a'' Null) ''b'' Null) [] = Some [''a'', ''b'']"
  using RB_traversal_correct [OF three_way_strcmp rb_inv_example, of "''aa''" "(#)" "[]"] by simp

text \<open>
  \<^verbatim>\<open>RB_INSERT_NEXT\<close> and \<^verbatim>\<open>RB_INSERT_PREV\<close> put the new element right behind or right before the given
  one and keep the tree balanced; they never dereference NULL. That the place suits the key of the
  new element is up to the caller.
\<close>

theorem RB_INSERT_beside_correct:
  assumes "three_way probe key" "rb_inv key t" "inorder t = as @ x # bs"
  shows "(\<exists>t'. RB_INSERT_NEXT (probe (key x)) y t = Some t' \<and> balanced t' \<and> inorder t' = as @ x # y # bs) \<and>
    (\<exists>t'. RB_INSERT_PREV (probe (key x)) y t = Some t' \<and> balanced t' \<and> inorder t' = as @ y # x # bs)"
  using three_way.RB_INSERT_NEXT_spec [OF assms] three_way.RB_INSERT_PREV_spec [OF assms] by blast

theorem RB_INSERT_beside_correct_witness:
  "\<exists>t'. RB_INSERT_NEXT (strcmp ''a'') ''ab'' (Node False True (Node False False Null ''a'' Null) ''b'' Null) = Some t' \<and>
     inorder t' = [''a'', ''ab'', ''b'']"
  using RB_INSERT_beside_correct [OF three_way_strcmp rb_inv_example, of "[]" "''a''" "[''b'']" "''ab''"] by auto

text \<open>
  \<^verbatim>\<open>RB_REINSERT\<close> of an element whose key was changed in place, in a tree that is sorted but for it,
  makes the tree sorted again, with the element at the place of its new key. If another element has
  that key already, it is returned, and the element is no longer in the tree.
\<close>

theorem RB_REINSERT_correct:
  assumes "three_way probe key" "fits n fs" "ranked n (Node bl br l x r)"
    and "sorted_wrt (<) (map key ((lctx fs @ inorder l) @ (inorder r @ rctx fs)))"
  shows "\<exists>res t'. RB_REINSERT (\<lambda>a. probe (key a)) fs (Node bl br l x r) = Some (res, t') \<and> rb_inv key t' \<and>
    (let others = (lctx fs @ inorder l) @ (inorder r @ rctx fs) in
      res = List.find (\<lambda>y. key y = key x) others \<and>
      inorder t' = (if res = None then filter (\<lambda>y. key y < key x) others @ x # filter (\<lambda>y. key x < key y) others else others))"
  using three_way.RB_REINSERT_spec [OF assms refl refl] unfolding Let_def .

theorem RB_REINSERT_correct_witness:
  "\<exists>t'. RB_REINSERT (\<lambda>a. strcmp a) [Frame RB_L False True ''b'' Null] (Node False False Null ''c'' Null) = Some (None, t') \<and>
     inorder t' = [''b'', ''c'']"
  using RB_REINSERT_correct [OF three_way_strcmp, of 1 "[Frame RB_L False True ''b'' Null]" False False Null "''c''" Null] by (auto simp: Let_def)

text \<open>
  \<^verbatim>\<open>RB_RANK\<close> gives the rank of a balanced tree. It does not give \<open>-1\<close> for every other tree: the \<open>-1\<close> of
  a subtree counts as its rank.
\<close>

theorem RB_RANK_incomplete:
  "(\<forall>n (t :: 'a rb). ranked n t \<longrightarrow> RB_RANK t = int n) \<and>
   (\<exists>t :: 'a rb. 0 \<le> RB_RANK t \<and> \<not> balanced t)"
proof (intro conjI allI impI)
  fix n and t :: "'a rb"
  assume "ranked n t"
  then show "RB_RANK t = int n" by (rule RB_RANK_ranked)
next
  define bad :: "'a rb" where "bad = Node True True Null undefined Null"
  define t :: "'a rb" where "t = Node True False bad undefined Null"
  have "RB_RANK t = 1" by (simp add: t_def bad_def)
  moreover have "\<not> balanced t" by (auto simp: balanced_def t_def bad_def)
  ultimately show "\<exists>t :: 'a rb. 0 \<le> RB_RANK t \<and> \<not> balanced t" by (intro exI [of _ t]) simp
qed

end
