(* ===== verification/RB_Sweep.thy ===== *)
theory RB_Sweep
  imports RB_Order
begin

text \<open>
  The loops of \<^verbatim>\<open>lib/infra/tree.h\<close> that allow the visited element to be removed, besides \<^verbatim>\<open>RB_FOREACH_SAFE\<close>:
  from a given element on, and backwards. The program uses none of them.
\<close>

section \<open>Loops\<close>

text \<open>Each computes the neighbour before the body runs. \<open>y\<close> is the element to begin with.\<close>

definition RB_FOREACH_FROM ::
  "('a \<Rightarrow> 'a \<Rightarrow> int) \<Rightarrow> ('a \<Rightarrow> 'a rb \<Rightarrow> 'a rb option) \<Rightarrow> 'a option \<Rightarrow> 'a rb \<Rightarrow> 'a rb option" where
  "RB_FOREACH_FROM cmp body y t = FOREACH_SAFE_from (length (inorder t)) cmp body y t"

fun REVERSE_SAFE_from ::
  "nat \<Rightarrow> ('a \<Rightarrow> 'a \<Rightarrow> int) \<Rightarrow> ('a \<Rightarrow> 'a rb \<Rightarrow> 'a rb option) \<Rightarrow> 'a option \<Rightarrow> 'a rb \<Rightarrow> 'a rb option" where
  "REVERSE_SAFE_from n cmp body None t = Some t"
| "REVERSE_SAFE_from 0 cmp body (Some x) t = None"
| "REVERSE_SAFE_from (Suc n) cmp body (Some x) t =
     (let y = RB_PREV (cmp x) t
      in case body x t of None \<Rightarrow> None | Some t' \<Rightarrow> REVERSE_SAFE_from n cmp body y t')"

definition RB_FOREACH_REVERSE_FROM ::
  "('a \<Rightarrow> 'a \<Rightarrow> int) \<Rightarrow> ('a \<Rightarrow> 'a rb \<Rightarrow> 'a rb option) \<Rightarrow> 'a option \<Rightarrow> 'a rb \<Rightarrow> 'a rb option" where
  "RB_FOREACH_REVERSE_FROM cmp body y t = REVERSE_SAFE_from (length (inorder t)) cmp body y t"

definition RB_FOREACH_REVERSE_SAFE ::
  "('a \<Rightarrow> 'a \<Rightarrow> int) \<Rightarrow> ('a \<Rightarrow> 'a rb \<Rightarrow> 'a rb option) \<Rightarrow> 'a rb \<Rightarrow> 'a rb option" where
  "RB_FOREACH_REVERSE_SAFE cmp body t = REVERSE_SAFE_from (length (inorder t)) cmp body (RB_MINMAX t 1) t"

section \<open>What they remove\<close>

context three_way
begin

lemma REVERSE_SAFE_spec:
  assumes "rb_inv key t" "inorder t = rev bs @ cs" "length bs \<le> n"
  shows "\<exists>t'. REVERSE_SAFE_from n cmp (sweep_body P) (first bs) t = Some t' \<and> rb_inv key t' \<and>
    inorder t' = rev (filter (\<lambda>y. \<not> P y) bs) @ cs"
  using assms
proof (induction n arbitrary: t bs cs)
  case (Suc n)
  show ?case
  proof (cases bs)
    case Nil
    with Suc.prems show ?thesis by auto
  next
    case (Cons x ds)
    with Suc.prems(2) have t: "inorder t = rev ds @ x # cs" by simp
    have nx: "RB_PREV (cmp x) t = first ds" using RB_PREV_last [OF Suc.prems(1) t] by simp
    from sweep_one [OF Suc.prems(1) t, of P] obtain t1 where t1: "sweep_body P x t = Some t1" "rb_inv key t1"
      "inorder t1 = rev ds @ (if P x then [] else [x]) @ cs" by auto
    from Suc.IH [OF t1(2,3)] Suc.prems(3) t1(1) nx show ?thesis by (auto simp: Cons)
  qed
qed auto

lemma sweep_from_spec:
  assumes "rb_inv key t" "inorder t = as @ x # bs"
  shows "\<exists>t'. RB_FOREACH_FROM cmp (sweep_body P) (Some x) t = Some t' \<and> rb_inv key t' \<and> inorder t' = as @ filter (\<lambda>y. \<not> P y) (x # bs)"
    "\<exists>t'. RB_FOREACH_REVERSE_FROM cmp (sweep_body P) (Some x) t = Some t' \<and> rb_inv key t' \<and> inorder t' = filter (\<lambda>y. \<not> P y) (as @ [x]) @ bs"
proof -
  from FOREACH_SAFE_spec [OF assms, of "length (inorder t)" P] assms(2)
  show "\<exists>t'. RB_FOREACH_FROM cmp (sweep_body P) (Some x) t = Some t' \<and> rb_inv key t' \<and> inorder t' = as @ filter (\<lambda>y. \<not> P y) (x # bs)"
    by (simp add: RB_FOREACH_FROM_def del: FOREACH_SAFE_from.simps)
  have "inorder t = rev (x # rev as) @ bs" using assms(2) by simp
  from REVERSE_SAFE_spec [OF assms(1) this, of "length (inorder t)" P] assms(2)
  show "\<exists>t'. RB_FOREACH_REVERSE_FROM cmp (sweep_body P) (Some x) t = Some t' \<and> rb_inv key t' \<and> inorder t' = filter (\<lambda>y. \<not> P y) (as @ [x]) @ bs"
    by (simp add: RB_FOREACH_REVERSE_FROM_def rev_filter del: REVERSE_SAFE_from.simps split: if_splits)
qed

lemma sweep_reverse_spec:
  assumes "rb_inv key t"
  shows "\<exists>t'. RB_FOREACH_REVERSE_SAFE cmp (sweep_body P) t = Some t' \<and> rb_inv key t' \<and> inorder t' = filter (\<lambda>y. \<not> P y) (inorder t)"
  using REVERSE_SAFE_spec [OF assms, of "rev (inorder t)" "[]" "length (inorder t)" P]
  by (simp add: RB_FOREACH_REVERSE_SAFE_def RB_MAX_last rev_filter)

end

section \<open>Properties\<close>

text \<open>
  The removing loops end, never fail, keep the tree balanced and sorted, and remove exactly the elements
  asked for: from the given one on, up to it, and of the whole tree.
\<close>

theorem RB_sweeps_correct:
  assumes "three_way probe key" "rb_inv key t" "inorder t = as @ x # bs"
  shows "(\<exists>t'. RB_FOREACH_FROM (\<lambda>a. probe (key a)) (\<lambda>y t. if P y then RB_REMOVE (probe (key y)) t else Some t) (Some x) t = Some t' \<and> rb_inv key t' \<and>
      inorder t' = as @ filter (\<lambda>y. \<not> P y) (x # bs)) \<and>
    (\<exists>t'. RB_FOREACH_REVERSE_FROM (\<lambda>a. probe (key a)) (\<lambda>y t. if P y then RB_REMOVE (probe (key y)) t else Some t) (Some x) t = Some t' \<and> rb_inv key t' \<and>
      inorder t' = filter (\<lambda>y. \<not> P y) (as @ [x]) @ bs) \<and>
    (\<exists>t'. RB_FOREACH_REVERSE_SAFE (\<lambda>a. probe (key a)) (\<lambda>y t. if P y then RB_REMOVE (probe (key y)) t else Some t) t = Some t' \<and> rb_inv key t' \<and>
      inorder t' = filter (\<lambda>y. \<not> P y) (inorder t))"
  using three_way.sweep_from_spec [OF assms(1-3), of P] three_way.sweep_reverse_spec [OF assms(1,2), of P] by blast

end
