(* ===== verification/Misc.thy ===== *)
theory Misc
  imports Propd_Prelude
begin

unbundle bit_operations_syntax

text \<open>
  The string and hexadecimal helpers of \<^verbatim>\<open>lib/misc.c\<close>. An array of C strings is the list of its
  cells, \<open>None\<close> being a NULL pointer; reading past the last cell is \<open>UB\<close>.
\<close>

section \<open>Prefix patterns\<close>

text \<open>
  Two pointers advance together; at the first difference the pattern matches if it has a \<^verbatim>\<open>*\<close> there.
\<close>

fun prefix_match :: "string \<Rightarrow> string \<Rightarrow> bool" where
  "prefix_match [] [] = True"
| "prefix_match [] (c2 # s) = False"
| "prefix_match (c1 # p) [] = (c1 = CHR ''*'')"
| "prefix_match (c1 # p) (c2 # s) = (if c1 = c2 then prefix_match p s else c1 = CHR ''*'')"

section \<open>Random names\<close>

definition alnum_char :: "nat \<Rightarrow> char" where
  "alnum_char ci =
     (if ci \<ge> 26 * 2 then char_of (48 + ci - 26 * 2)
      else if ci \<ge> 26 then char_of (97 + ci - 26)
      else char_of (65 + ci))"

text \<open>\<open>rand_r\<close> is the C library's generator: a value and the next seed.\<close>

fun random_alnum :: "(nat \<Rightarrow> nat \<times> nat) \<Rightarrow> nat \<Rightarrow> nat \<Rightarrow> string" where
  "random_alnum rand_r seed 0 = []"
| "random_alnum rand_r seed (Suc n) =
     (let (v, seed') = rand_r seed
      in alnum_char (v mod (26 * 2 + 10)) # random_alnum rand_r seed' n)"

section \<open>Arrays of strings\<close>

text \<open>\<open>while (array[num]) num++\<close>\<close>

fun count_cells :: "string option list \<Rightarrow> nat c_out" where
  "count_cells [] = UB"
| "count_cells (None # cs) = Ret 0"
| "count_cells (Some s # cs) = c_bind (count_cells cs) (\<lambda>n. Ret (Suc n))"

text \<open>
  The copying loop: \<open>i\<close> is the index of the next allocation, \<open>num\<close> the cells left to copy. A cell
  that holds NULL is passed to \<^verbatim>\<open>strdup\<close>. \<open>Ret None\<close> is a NULL result.
\<close>

fun dup_cells :: "alloc \<Rightarrow> nat \<Rightarrow> nat \<Rightarrow> string option list \<Rightarrow> string list option c_out" where
  "dup_cells mem i 0 cs = Ret (Some [])"
| "dup_cells mem i (Suc num) [] = UB"
| "dup_cells mem i (Suc num) (None # cs) = UB"
| "dup_cells mem i (Suc num) (Some s # cs) =
     (if mem i then c_bind (dup_cells mem (Suc i) num cs) (\<lambda>r. Ret (map_option (Cons s) r))
      else Ret None)"

definition arraydup_cstring ::
  "alloc \<Rightarrow> string option list option \<Rightarrow> nat \<Rightarrow> string list option c_out" where
  "arraydup_cstring mem array num =
     c_bind
       (case array of
          None \<Rightarrow> Ret 0
        | Some cs \<Rightarrow> if num = 0 then count_cells cs else Ret num)
       (\<lambda>num'. if \<not> mem 0 then Ret None
               else dup_cells mem 1 num' (case array of None \<Rightarrow> [] | Some cs \<Rightarrow> cs))"

text \<open>The two passes of \<^verbatim>\<open>arrayparse_cstring\<close>: count the fields, then cut at the commas.\<close>

fun count_commas :: "string \<Rightarrow> nat" where
  "count_commas [] = 0"
| "count_commas (c # s) = (if c = CHR '','' then Suc (count_commas s) else count_commas s)"

fun cut_fields :: "string \<Rightarrow> string \<Rightarrow> string list" where
  "cut_fields w1 [] = [w1]"
| "cut_fields w1 (c # s) =
     (if c = CHR '','' then w1 # cut_fields [] s else cut_fields (w1 @ [c]) s)"

definition arrayparse_cstring :: "alloc \<Rightarrow> string \<Rightarrow> string list option c_out" where
  "arrayparse_cstring mem s =
     (if \<not> mem 0 then Ret None
      else
        let num = count_commas s + (if s \<noteq> [] then 1 else 0);
            array = (if s \<noteq> [] then map Some (cut_fields [] s) else [])
        in if \<not> mem 1 then Ret None
           else arraydup_cstring (\<lambda>i. mem (i + 2)) (Some array) num)"

text \<open>
  \<^verbatim>\<open>arrayfmt_cstring\<close> into a buffer of \<open>len\<close> bytes. \<open>out\<close> is what the loop has written,
  \<open>length out\<close> its \<^verbatim>\<open>pos\<close>. On truncation the last three characters before the NUL are dots.
\<close>

fun fmt_cells :: "nat \<Rightarrow> string \<Rightarrow> string list \<Rightarrow> string c_out" where
  "fmt_cells len out [] = (if out = [] then UB else Ret (butlast out))"
| "fmt_cells len out (s # ss) =
     (let out' = out @ s @ '',''
      in if length s + 1 \<ge> len - length out then Ret (take (len - 4) out' @ ''...'')
         else fmt_cells len out' ss)"

definition arrayfmt_cstring :: "nat \<Rightarrow> string list \<Rightarrow> string c_out" where
  "arrayfmt_cstring len array = (if len > 3 then fmt_cells len [] array else UB)"

section \<open>Hexadecimal\<close>

definition dec2hexchar :: "byte \<Rightarrow> bool \<Rightarrow> byte" where
  "dec2hexchar dec upper = (if 10 \<le> dec then dec - 10 + (if upper then 65 else 97) else dec + 48)"

definition hexchar2dec :: "byte \<Rightarrow> byte" where
  "hexchar2dec c =
     (if 48 \<le> c \<and> c \<le> 57 then c - 48
      else if 65 \<le> c \<and> c \<le> 70 then 10 + (c - 65)
      else 10 + (c - 97))"

definition ishexchar :: "byte \<Rightarrow> bool" where
  "ishexchar c \<longleftrightarrow> (48 \<le> c \<and> c \<le> 57) \<or> (65 \<le> c \<and> c \<le> 70) \<or> (97 \<le> c \<and> c \<le> 102)"

abbreviation chr_of :: "byte \<Rightarrow> char" where "chr_of b \<equiv> char_of (unat b)"

definition hexbyte :: "bool \<Rightarrow> byte \<Rightarrow> string" where
  "hexbyte upper b =
     [chr_of (dec2hexchar (drop_bit 4 b) upper), chr_of (dec2hexchar (b AND 15) upper)]"

definition hexbytes :: "bool \<Rightarrow> byte list \<Rightarrow> string" where
  "hexbytes upper bs = concat (map (hexbyte upper) bs)"

text \<open>\<^verbatim>\<open>hexmem\<close> into a buffer of \<open>b\<close> bytes; a NULL memory is the empty list.\<close>

definition hexmem :: "nat \<Rightarrow> byte list \<Rightarrow> bool \<Rightarrow> string c_out" where
  "hexmem b memory upper =
     (let m = length memory; b' = b - 1; c = b' div 2
      in if b = 0 then UB
         else if m = 0 then Ret []
         else if c \<ge> m then Ret (hexbytes upper memory)
         else if c < 3 then Ret (replicate b' (CHR ''.''))
         else
           let d = m - c + 1; left = (m - d) div 2; right = (m + d) div 2
           in Ret (hexbytes upper (take left memory) @ ''..'' @ hexbytes upper (drop right memory)))"

fun hex_pairs :: "nat \<Rightarrow> nat \<Rightarrow> string \<Rightarrow> byte list option" where
  "hex_pairs len i [] = Some []"
| "hex_pairs len i (c # s) =
     (if \<not> ishexchar (of_char c) then Some []
      else if i = len then None
      else case s of
          [] \<Rightarrow> None
        | e # s' \<Rightarrow>
            if \<not> ishexchar (of_char e) then None
            else map_option
                   (Cons (push_bit 4 (hexchar2dec (of_char c)) OR hexchar2dec (of_char e)))
                   (hex_pairs len (Suc i) s'))"

fun skip_0x :: "string \<Rightarrow> string" where
  "skip_0x (a # b # s) =
     (if a = CHR ''0'' \<and> (b = CHR ''x'' \<or> b = CHR ''X'') then s else a # b # s)"
| "skip_0x s = s"

text \<open>\<^verbatim>\<open>hex2mem\<close> into a memory of \<open>len\<close> bytes; \<open>None\<close> is a NULL result.\<close>

definition hex2mem :: "nat \<Rightarrow> string \<Rightarrow> byte list option" where
  "hex2mem len str = hex_pairs len 0 (skip_0x str)"

section \<open>Lemmas\<close>

fun comma_join :: "string list \<Rightarrow> string" where
  "comma_join [] = []"
| "comma_join [f] = f"
| "comma_join (f # g # fs) = f @ '','' @ comma_join (g # fs)"

lemma comma_join_Cons: "fs \<noteq> [] \<Longrightarrow> comma_join (f # fs) = f @ '','' @ comma_join fs"
  by (cases fs) auto

lemma cut_fields_neq [simp]: "cut_fields w s \<noteq> []"
  by (induction w s rule: cut_fields.induct) auto

lemma cut_fields_join: "comma_join (cut_fields w s) = w @ s"
  by (induction w s rule: cut_fields.induct) (auto simp: comma_join_Cons)

lemma cut_fields_no_comma:
  "CHR '','' \<notin> set w \<Longrightarrow> f \<in> set (cut_fields w s) \<Longrightarrow> CHR '','' \<notin> set f"
  by (induction w s rule: cut_fields.induct) (auto split: if_splits)

lemma length_cut_fields [simp]: "length (cut_fields w s) = Suc (count_commas s)"
  by (induction w s rule: cut_fields.induct) auto

lemma cut_fields_append:
  "CHR '','' \<notin> set u \<Longrightarrow> cut_fields w (u @ s) = cut_fields (w @ u) s"
  by (induction u arbitrary: w) auto

lemma cut_fields_comma_join:
  "fs \<noteq> [] \<Longrightarrow> \<forall>f \<in> set fs. CHR '','' \<notin> set f \<Longrightarrow> cut_fields [] (comma_join fs) = fs"
proof (induction fs rule: comma_join.induct)
  case (2 f)
  then show ?case using cut_fields_append [of f "[]" "[]"] by simp
next
  case (3 f g fs)
  then show ?case by (simp add: cut_fields_append)
qed simp

lemma dup_cells_all:
  "length fs \<le> num \<Longrightarrow> num \<le> length fs \<Longrightarrow> (\<And>j. mem j) \<Longrightarrow>
     dup_cells mem i num (map Some fs) = Ret (Some fs)"
  by (induction fs arbitrary: i num) (auto simp: Suc_le_eq gr0_conv_Suc elim!: less_natE)

text \<open>A copy of a NULL-terminated array is the array, if there is memory.\<close>

lemma arraydup_list:
  "\<exists>r. arraydup_cstring mem (map_option (\<lambda>ss. map Some ss @ [None]) array) 0 = Ret r \<and>
     (r = None \<or> r = Some (case array of None \<Rightarrow> [] | Some ss \<Rightarrow> ss))"
proof -
  have count: "count_cells (map Some ss @ [None]) = Ret (length ss)" for ss by (induction ss) auto
  have dup: "\<exists>r. dup_cells mem i (length ss) (map Some ss @ [None]) = Ret r \<and> (r = None \<or> r = Some ss)" for i ss
  proof (induction ss arbitrary: i)
    case (Cons s ss)
    obtain r where "dup_cells mem (Suc i) (length ss) (map Some ss @ [None]) = Ret r" "r = None \<or> r = Some ss"
      using Cons.IH by blast
    then show ?case by (cases "mem i") auto
  qed simp
  show ?thesis
    using dup [of 1] by (cases array) (auto simp: arraydup_cstring_def count)
qed

lemma arrayparse_fields:
  "s \<noteq> [] \<Longrightarrow> arrayparse_cstring mem_ok s = Ret (Some (cut_fields [] s))"
  by (simp add: arrayparse_cstring_def arraydup_cstring_def dup_cells_all)

lemma fmt_cells_fits:
  assumes "fs \<noteq> []" "length out + length (comma_join fs) + 1 < len"
  shows "fmt_cells len out fs = Ret (out @ comma_join fs)"
  using assms
proof (induction fs arbitrary: out rule: comma_join.induct)
  case (2 f)
  then show ?case by (auto simp: Let_def butlast_append)
next
  case (3 f g fs)
  have "fmt_cells len (out @ f @ '','') (g # fs) = Ret ((out @ f @ '','') @ comma_join (g # fs))"
    using "3.prems" by (intro "3.IH") auto
  moreover have "\<not> length f + 1 \<ge> len - length out" using "3.prems" by simp
  ultimately show ?case by (subst fmt_cells.simps) (simp only: Let_def if_False append_assoc comma_join.simps)
qed simp

lemma fmt_cells_bound: "length out < len \<Longrightarrow> 3 < len \<Longrightarrow> fmt_cells len out fs = Ret r \<Longrightarrow> length r < len"
  by (induction len out fs rule: fmt_cells.induct) (auto simp: Let_def split: if_splits)

lemma length_hexbytes [simp]: "length (hexbytes upper bs) = 2 * length bs"
  by (induction bs) (auto simp: hexbytes_def hexbyte_def)

lemma hexbytes_simps [simp]:
  "hexbytes upper [] = []" "hexbytes upper (b # bs) = hexbyte upper b @ hexbytes upper bs"
  by (simp_all add: hexbytes_def)

lemma of_char_chr_of [simp]: "(of_char (chr_of b) :: byte) = b"
proof -
  have "(of_char (chr_of b) :: nat) = unat b"
    using unat_byte_less [of b] by simp
  moreover have "(of_char (chr_of b) :: byte) = of_nat (of_char (chr_of b))"
    by (simp only: of_nat_of_char)
  ultimately have "(of_char (chr_of b) :: byte) = of_nat (unat b)" by (simp only:)
  then show ?thesis by simp
qed

lemma nibble_cases:
  assumes "(n :: byte) < 16"
  obtains k :: nat where "k < 16" "n = of_nat k"
  using assms that [of "unat n"] by (simp add: word_less_nat_alt)

lemma hexchar_nibble:
  assumes "(n :: byte) < 16"
  shows "hexchar2dec (dec2hexchar n upper) = n \<and> ishexchar (dec2hexchar n upper) \<and>
    dec2hexchar n upper \<noteq> 120 \<and> dec2hexchar n upper \<noteq> 88"
proof -
  from assms obtain k where k: "k < 16" and n: "n = of_nat k" by (rule nibble_cases)
  have "k \<in> {0, 1, 2, 3, 4, 5, 6, 7, 8, 9, 10, 11, 12, 13, 14, 15}" using k by (simp, arith)
  then show ?thesis
    unfolding n by (elim insertE emptyE) (simp_all add: hexchar2dec_def dec2hexchar_def ishexchar_def word_le_nat_alt)
qed

lemma nibbles_less [simp]: "drop_bit 4 (b :: byte) < 16" "b AND 15 < (16 :: byte)"
proof -
  have "unat (drop_bit 4 b) = drop_bit 4 (unat b)" by (rule unat_drop_bit_eq)
  then have "unat (drop_bit 4 b) < 16"
    using unat_byte_less [of b] unfolding drop_bit_eq_div by simp
  then show "drop_bit 4 b < 16" by (simp add: word_less_nat_alt)
  have "unat (b AND 15) \<le> unat (15 :: byte)"
    by (rule word_and_le1 [THEN word_le_nat_alt [THEN iffD1]])
  then show "b AND 15 < (16 :: byte)" by (simp add: word_less_nat_alt)
qed

lemma nibbles_join: "push_bit 4 (drop_bit 4 b) OR (b AND 15) = (b :: byte)"
proof -
  have m: "(15 :: byte) = mask 4" by (simp add: mask_eq_exp_minus_1)
  show ?thesis
    unfolding m by (rule bit_word_eqI) (auto simp: bit_push_bit_iff bit_drop_bit_eq bit_or_iff bit_and_iff bit_mask_iff)
qed

lemma hex_pairs_hexbytes:
  "length bs + i \<le> len \<Longrightarrow> hex_pairs len i (hexbytes upper bs) = Some bs"
proof (induction bs arbitrary: i)
  case (Cons b bs)
  then show ?case
    using hexchar_nibble [OF nibbles_less(1) [of b], of upper]
      hexchar_nibble [OF nibbles_less(2) [of b], of upper]
    by (simp add: hexbyte_def nibbles_join)
qed simp

lemma of_char_x: "of_char (CHR ''x'') = (120 :: byte)" "of_char (CHR ''X'') = (88 :: byte)"
  by simp_all

lemma skip_0x_hexbytes [simp]: "skip_0x (hexbytes upper bs) = hexbytes upper bs"
proof (cases bs)
  case (Cons b cs)
  have "chr_of (dec2hexchar (b AND 15) upper) \<noteq> CHR ''x''" "chr_of (dec2hexchar (b AND 15) upper) \<noteq> CHR ''X''"
    using hexchar_nibble [OF nibbles_less(2) [of b], of upper]
      of_char_chr_of [of "dec2hexchar (b AND 15) upper"] of_char_x by metis+
  then show ?thesis by (simp add: Cons hexbyte_def)
qed simp

lemma hex2mem_hexbytes: "length bs \<le> len \<Longrightarrow> hex2mem len (hexbytes upper bs) = Some bs"
  by (simp add: hex2mem_def hex_pairs_hexbytes)

section \<open>Properties\<close>

lemma prefix_match_refl [simp]: "prefix_match s s"
  by (induction s) auto

lemma prefix_match_star [simp]: "t = [] \<or> hd t \<noteq> CHR ''*'' \<Longrightarrow> prefix_match (q @ CHR ''*'' # r) (q @ t)"
  by (induction q) (cases t; auto)+

lemma prefix_match_cases:
  "prefix_match p s \<Longrightarrow>
     p = s \<or> (\<exists>q r t. p = q @ CHR ''*'' # r \<and> s = q @ t \<and> (t = [] \<or> hd t \<noteq> CHR ''*''))"
proof (induction p s rule: prefix_match.induct)
  case (3 c1 p)
  then have "c1 # p = [] @ CHR ''*'' # p" by simp
  then show ?case by blast
next
  case (4 c1 p c2 s)
  show ?case
  proof (cases "c1 = c2")
    case True
    with 4 consider "p = s" | q r t where "p = q @ CHR ''*'' # r" "s = q @ t" "t = [] \<or> hd t \<noteq> CHR ''*''"
      by auto
    then show ?thesis
    proof cases
      case (2 q r t)
      with True have "c1 # p = (c1 # q) @ CHR ''*'' # r \<and> c2 # s = (c1 # q) @ t" by simp
      with 2(3) show ?thesis by blast
    qed (use True in simp)
  next
    case False
    with 4 have "c1 = CHR ''*''" by simp
    with False have "c1 # p = [] @ CHR ''*'' # p \<and> c2 # s = [] @ (c2 # s) \<and> hd (c2 # s) \<noteq> CHR ''*''"
      by auto
    then show ?thesis by blast
  qed
qed auto

text \<open>
  \<^verbatim>\<open>prefix_match\<close> accepts exactly the equal string and, for each star of the pattern, the
  strings that extend what stands before that star, unless they go on with a star themselves;
  what follows the star in the pattern is ignored.
\<close>

theorem prefix_match_correct:
  "prefix_match p s \<longleftrightarrow>
     p = s \<or> (\<exists>q r t. p = q @ CHR ''*'' # r \<and> s = q @ t \<and> (t = [] \<or> hd t \<noteq> CHR ''*''))"
  using prefix_match_cases by (metis prefix_match_refl prefix_match_star)

theorem prefix_match_correct_witness: "prefix_match (''a.'' @ CHR ''*'' # []) (''a.'' @ ''bc'')"
  using prefix_match_correct [of "''a.*''" "''a.bc''"] by simp

lemma dup_cells_Some:
  "dup_cells mem i num (map Some fs) = Ret (Some r) \<Longrightarrow> r = take num fs"
  by (induction fs arbitrary: i num r; case_tac num) (auto split: if_splits)

text \<open>
  Parsing a nonempty list of names never goes wrong, and when its allocations succeed it gives
  comma-free fields whose comma-separated concatenation is the parsed string, one more than the
  string has commas; printing them again into a large enough buffer gives the string back.
\<close>

theorem arrayparse_correct:
  assumes "s \<noteq> []"
  shows "\<exists>fs. arrayparse_cstring mem_ok s = Ret (Some fs) \<and> comma_join fs = s \<and>
      (\<forall>f \<in> set fs. CHR '','' \<notin> set f) \<and> length fs = Suc (count_commas s) \<and>
      (\<forall>len. 3 < len \<longrightarrow> length s + 1 < len \<longrightarrow> arrayfmt_cstring len fs = Ret s)"
proof -
  let ?fs = "cut_fields [] s"
  have "\<forall>f \<in> set ?fs. CHR '','' \<notin> set f" using cut_fields_no_comma [of "[]" _ s] by simp
  moreover have join: "comma_join ?fs = s" using cut_fields_join [of "[]" s] by simp
  moreover have "arrayfmt_cstring len ?fs = Ret s" if "3 < len" "length s + 1 < len" for len
    using that fmt_cells_fits [of ?fs "[]" len] join by (simp add: arrayfmt_cstring_def)
  ultimately show ?thesis
    using assms by (intro exI [of _ ?fs]) (simp add: arrayparse_fields)
qed

theorem arrayparse_correct_witness:
  "arrayparse_cstring mem_ok ''a,b'' = Ret (Some [''a'', ''b'']) \<and>
   arrayfmt_cstring 8 [''a'', ''b''] = Ret ''a,b''"
  using arrayparse_correct [of "''a,b''"]
  by (auto simp: arrayparse_fields)

lemma hexmem_long:
  assumes "c = (b - 1) div 2" "c < length bs" "3 \<le> c"
  shows "\<exists>l r. l + r + 1 = c \<and> l \<le> r \<and> r \<le> Suc l \<and>
    hexmem b bs upper = Ret (hexbytes upper (take l bs) @ ''..'' @ hexbytes upper (drop (length bs - r) bs))"
proof -
  define m where "m = length bs"
  define d where "d = m - c + 1"
  have m: "c < m" "d = m - c + 1" using assms by (simp_all add: m_def d_def)
  have l: "(m - d) div 2 = (c - 1) div 2" using m by simp
  have r: "m - (m + d) div 2 = (c - 1) - (c - 1) div 2" using m by simp
  have rm: "(m + d) div 2 \<le> m" using m assms(3) by simp
  have "hexmem b bs upper = Ret (hexbytes upper (take ((m - d) div 2) bs) @ ''..'' @
      hexbytes upper (drop ((m + d) div 2) bs))"
    using assms m by (auto simp: hexmem_def Let_def m_def d_def)
  moreover have "(m + d) div 2 = length bs - (m - (m + d) div 2)" using rm by (simp add: m_def)
  ultimately show ?thesis
    using assms(3) unfolding l r by (intro exI [of _ "(c - 1) div 2"] exI [of _ "(c - 1) - (c - 1) div 2"]) auto
qed

lemma hexmem_total: "0 < b \<Longrightarrow> \<exists>t. hexmem b bs upper = Ret t"
  by (simp add: hexmem_def Let_def)

lemma hexmem_bound:
  assumes "hexmem b bs upper = Ret t"
  shows "length t < b"
proof (cases "3 \<le> (b - 1) div 2 \<and> (b - 1) div 2 < length bs")
  case True
  then obtain l r where "l + r + 1 = (b - 1) div 2"
    "hexmem b bs upper = Ret (hexbytes upper (take l bs) @ ''..'' @ hexbytes upper (drop (length bs - r) bs))"
    using hexmem_long by blast
  with assms True show ?thesis by auto
next
  case False
  with assms show ?thesis by (auto simp: hexmem_def Let_def split: if_splits)
qed

text \<open>
  \<^verbatim>\<open>hexmem\<close> never writes past its buffer of \<open>b\<close> bytes (the text and its NUL fit); when the
  text of the whole memory fits, \<^verbatim>\<open>hex2mem\<close> reads the memory back from it, with or without a
  leading \<^verbatim>\<open>0x\<close>; when it does not and the buffer has room for three bytes, the text is a prefix
  and a suffix of the memory in hexadecimal around two dots and fills the even part of the buffer.
\<close>

theorem hexmem_correct:
  assumes "0 < b"
  shows "\<exists>txt. hexmem b bs upper = Ret txt \<and> length txt < b \<and>
    (2 * length bs < b \<longrightarrow>
       (\<forall>len. length bs \<le> len \<longrightarrow>
          hex2mem len txt = Some bs \<and> hex2mem len (''0x'' @ txt) = Some bs)) \<and>
    (b \<le> 2 * length bs \<longrightarrow> 7 \<le> b \<longrightarrow>
       length txt = 2 * ((b - 1) div 2) \<and>
       (\<exists>l r. l + r < length bs \<and>
          txt = hexbytes upper (take l bs) @ ''..'' @ hexbytes upper (drop (length bs - r) bs)))"
proof -
  consider (fits) "2 * length bs < b" | (dots) "b \<le> 2 * length bs" "b < 7"
    | (long) "b \<le> 2 * length bs" "7 \<le> b" by linarith
  then show ?thesis
  proof cases
    case fits
    then have "length bs \<le> (b - 1) div 2" by simp
    then have "hexmem b bs upper = Ret (hexbytes upper bs)"
      using assms by (cases bs) (auto simp: hexmem_def Let_def)
    with fits show ?thesis
      by (auto simp: hex2mem_hexbytes hex2mem_def hex_pairs_hexbytes)
  next
    case dots
    then have "(b - 1) div 2 < length bs" "(b - 1) div 2 < 3" "bs \<noteq> []" using assms by auto
    then have "hexmem b bs upper = Ret (replicate (b - 1) (CHR ''.''))"
      using assms by (auto simp: hexmem_def Let_def)
    with dots assms show ?thesis by auto
  next
    case long
    define c where "c = (b - 1) div 2"
    have c: "c < length bs" "3 \<le> c" "2 * c < b" using long assms by (auto simp: c_def)
    from hexmem_long [OF c_def c(1,2), of upper] obtain l r where
      lr: "l + r + 1 = c" "hexmem b bs upper =
        Ret (hexbytes upper (take l bs) @ ''..'' @ hexbytes upper (drop (length bs - r) bs))"
      by blast
    define tx where "tx = hexbytes upper (take l bs) @ ''..'' @ hexbytes upper (drop (length bs - r) bs)"
    have "length tx = 2 * c" "l + r < length bs" "hexmem b bs upper = Ret tx"
      using c lr by (simp_all add: tx_def)
    moreover from this have "\<exists>l r. l + r < length bs \<and>
        tx = hexbytes upper (take l bs) @ ''..'' @ hexbytes upper (drop (length bs - r) bs)"
      unfolding tx_def by blast
    moreover have "\<not> 2 * length bs < b" using long by simp
    ultimately show ?thesis
      unfolding c_def [symmetric] using c(3) by (intro exI [of _ tx]) simp
  qed
qed

theorem hexmem_correct_witness:
  "hexmem 16 [18, 52, 171] False = Ret ''1234ab'' \<and>
   hex2mem 3 ''1234ab'' = Some [18, 52, 171] \<and> hex2mem 3 ''0x1234ab'' = Some [18, 52, 171]"
proof -
  have "hexmem 16 [18, 52, 171] False = Ret ''1234ab''" by code_simp
  with hexmem_correct [of 16 "[18, 52, 171]" False] show ?thesis by auto
qed

end
