(* ===== verification/Value.thy ===== *)
theory Value
  imports Misc
begin

unbundle bit_operations_syntax

text \<open>
  Property values, \<^verbatim>\<open>lib/value.h\<close> and \<^verbatim>\<open>lib/value.c\<close>: the packed struct with its type byte, its
  32-bit length and its bytes, the constructors, the readers, and the parser and the printer of the
  textual form. Integers are the bit patterns the struct holds (\<open>32 word\<close>, \<open>64 word\<close>, little endian);
  \<^verbatim>\<open>float\<close> and \<^verbatim>\<open>double\<close> are their bit patterns too, with the C library's conversions as arguments.
\<close>

section \<open>The struct\<close>

abbreviation (input) value_undef :: byte where "value_undef \<equiv> 0"
abbreviation (input) value_data_t :: byte where "value_data_t \<equiv> 1"
abbreviation (input) value_cstring_t :: byte where "value_cstring_t \<equiv> 2"
abbreviation (input) value_i32_t :: byte where "value_i32_t \<equiv> 3"
abbreviation (input) value_u32_t :: byte where "value_u32_t \<equiv> 4"
abbreviation (input) value_i64_t :: byte where "value_i64_t \<equiv> 5"
abbreviation (input) value_u64_t :: byte where "value_u64_t \<equiv> 6"
abbreviation (input) value_float_t :: byte where "value_float_t \<equiv> 7"
abbreviation (input) value_double_t :: byte where "value_double_t \<equiv> 8"

record value_t =
  vtype :: byte
  vlength :: "32 word"
  vdata :: "byte list"

text \<open>The flexible array member holds \<open>length\<close> bytes.\<close>

definition value_ok :: "value_t \<Rightarrow> bool" where
  "value_ok v \<longleftrightarrow> unat (vlength v) = length (vdata v)"

text \<open>\<open>ok\<close> is the outcome of the \<^verbatim>\<open>malloc\<close>; \<open>length\<close> bytes are copied from \<open>data\<close>.\<close>

definition value_alloc :: "bool \<Rightarrow> byte \<Rightarrow> 32 word \<Rightarrow> byte list \<Rightarrow> value_t option" where
  "value_alloc ok ty len data =
     (if ok then Some \<lparr>vtype = ty, vlength = len, vdata = take (unat len) data\<rparr> else None)"

definition value_data :: "bool \<Rightarrow> nat \<Rightarrow> byte list \<Rightarrow> value_t option" where
  "value_data ok len data = value_alloc ok value_data_t (of_nat len) data"

text \<open>A C string is copied with its NUL.\<close>

definition cstring_bytes :: "string \<Rightarrow> byte list" where
  "cstring_bytes s = map of_char s @ [0]"

definition value_cstring :: "bool \<Rightarrow> string \<Rightarrow> value_t option" where
  "value_cstring ok s = value_alloc ok value_cstring_t (of_nat (length s + 1)) (cstring_bytes s)"

definition value_i32 :: "bool \<Rightarrow> 32 word \<Rightarrow> value_t option" where
  "value_i32 ok n = value_alloc ok value_i32_t 4 (le_bytes 4 (unat n))"

definition value_u32 :: "bool \<Rightarrow> 32 word \<Rightarrow> value_t option" where
  "value_u32 ok n = value_alloc ok value_u32_t 4 (le_bytes 4 (unat n))"

definition value_i64 :: "bool \<Rightarrow> 64 word \<Rightarrow> value_t option" where
  "value_i64 ok n = value_alloc ok value_i64_t 8 (le_bytes 8 (unat n))"

definition value_u64 :: "bool \<Rightarrow> 64 word \<Rightarrow> value_t option" where
  "value_u64 ok n = value_alloc ok value_u64_t 8 (le_bytes 8 (unat n))"

definition value_float :: "bool \<Rightarrow> 32 word \<Rightarrow> value_t option" where
  "value_float ok n = value_alloc ok value_float_t 4 (le_bytes 4 (unat n))"

definition value_double :: "bool \<Rightarrow> 64 word \<Rightarrow> value_t option" where
  "value_double ok n = value_alloc ok value_double_t 8 (le_bytes 8 (unat n))"

definition value_dup :: "bool \<Rightarrow> value_t \<Rightarrow> value_t option" where
  "value_dup ok v = value_alloc ok (vtype v) (vlength v) (vdata v)"

text \<open>
  The readers: the \<^verbatim>\<open>assert\<close> on the type, and a \<^verbatim>\<open>memcpy\<close> of \<open>length\<close> bytes into a variable of
  \<open>sz\<close> bytes, which must fill it and not overflow it.
\<close>

definition value_to :: "byte \<Rightarrow> nat \<Rightarrow> value_t \<Rightarrow> nat c_out" where
  "value_to ty sz v =
     (if vtype v = ty \<and> unat (vlength v) = sz \<and> sz \<le> length (vdata v)
      then Ret (le_nat (take sz (vdata v))) else UB)"

definition value_to_i32 :: "value_t \<Rightarrow> 32 word c_out" where
  "value_to_i32 v = c_bind (value_to value_i32_t 4 v) (\<lambda>n. Ret (of_nat n))"

definition value_to_u32 :: "value_t \<Rightarrow> 32 word c_out" where
  "value_to_u32 v = c_bind (value_to value_u32_t 4 v) (\<lambda>n. Ret (of_nat n))"

definition value_to_i64 :: "value_t \<Rightarrow> 64 word c_out" where
  "value_to_i64 v = c_bind (value_to value_i64_t 8 v) (\<lambda>n. Ret (of_nat n))"

definition value_to_u64 :: "value_t \<Rightarrow> 64 word c_out" where
  "value_to_u64 v = c_bind (value_to value_u64_t 8 v) (\<lambda>n. Ret (of_nat n))"

definition value_to_float :: "value_t \<Rightarrow> 32 word c_out" where
  "value_to_float v = c_bind (value_to value_float_t 4 v) (\<lambda>n. Ret (of_nat n))"

definition value_to_double :: "value_t \<Rightarrow> 64 word c_out" where
  "value_to_double v = c_bind (value_to value_double_t 8 v) (\<lambda>n. Ret (of_nat n))"

section \<open>Integer conversions of the C library\<close>

definition c_isspace :: "char \<Rightarrow> bool" where
  "c_isspace c \<longleftrightarrow> (of_char c :: nat) \<in> {9, 10, 11, 12, 13, 32}"

text \<open>The value of a digit in a base of at most 36; not a digit is 36.\<close>

definition digit_val :: "char \<Rightarrow> nat" where
  "digit_val c =
     (let n = of_char c
      in if 48 \<le> n \<and> n \<le> 57 then n - 48
         else if 65 \<le> n \<and> n \<le> 90 then n - 55
         else if 97 \<le> n \<and> n \<le> 122 then n - 87
         else 36)"

definition digits_val :: "nat \<Rightarrow> string \<Rightarrow> nat" where
  "digits_val base ds = foldl (\<lambda>n c. n * base + digit_val c) 0 ds"

text \<open>
  The scan of \<^verbatim>\<open>strtol(s, &endptr, 0)\<close>: white space, a sign, the base from the prefix, the longest
  run of digits. \<open>None\<close> is no conversion (\<open>endptr == s\<close>).
\<close>

definition strto_base :: "string \<Rightarrow> nat \<times> string" where
  "strto_base s =
     (case s of
        a # b # c # s' \<Rightarrow>
          if a = CHR ''0'' \<and> (b = CHR ''x'' \<or> b = CHR ''X'') \<and> digit_val c < 16 then (16, c # s')
          else if a = CHR ''0'' then (8, s) else (10, s)
      | a # s' \<Rightarrow> if a = CHR ''0'' then (8, s) else (10, s)
      | [] \<Rightarrow> (10, s))"

definition strto_sign :: "string \<Rightarrow> bool \<times> string" where
  "strto_sign s =
     (case s of
        [] \<Rightarrow> (False, [])
      | c # s' \<Rightarrow> if c = CHR ''-'' then (True, s') else if c = CHR ''+'' then (False, s') else (False, s))"

definition strto_scan :: "string \<Rightarrow> (bool \<times> nat) option" where
  "strto_scan s =
     (let (neg, s1) = strto_sign (dropWhile c_isspace s);
          (base, s2) = strto_base s1;
          ds = takeWhile (\<lambda>c. digit_val c < base) s2
      in if ds = [] then None else Some (neg, digits_val base ds))"

text \<open>The result and whether the call sets \<^verbatim>\<open>errno\<close> to \<open>ERANGE\<close>.\<close>

definition strtol :: "string \<Rightarrow> (int \<times> bool) option" where
  "strtol s = map_option
     (\<lambda>(neg, n).
        let x = if neg then - int n else int n
        in if INT64_MAX < x then (INT64_MAX, True)
           else if x < INT64_MIN then (INT64_MIN, True)
           else (x, False))
     (strto_scan s)"

abbreviation ULONG_MAX :: int where "ULONG_MAX \<equiv> 18446744073709551615"

definition strtoul :: "string \<Rightarrow> (int \<times> bool) option" where
  "strtoul s = map_option
     (\<lambda>(neg, n).
        if ULONG_MAX < int n then (ULONG_MAX, True)
        else ((if neg then - int n else int n) mod 2 ^ 64, False))
     (strto_scan s)"

section \<open>Parsing\<close>

fun after_colon :: "string \<Rightarrow> string option" where
  "after_colon [] = None"
| "after_colon (c # s) = (if c = CHR '':'' then Some s else after_colon s)"

text \<open>The type and the text of the value.\<close>

definition value_split :: "string \<Rightarrow> byte \<times> string" where
  "value_split str =
     (case after_colon str of
        None \<Rightarrow> (value_cstring_t, str)
      | Some val \<Rightarrow>
          if prefix_match ''i32:*'' str then (value_i32_t, val)
          else if prefix_match ''u32:*'' str then (value_u32_t, val)
          else if prefix_match ''i64:*'' str then (value_i64_t, val)
          else if prefix_match ''u64:*'' str then (value_u64_t, val)
          else if prefix_match ''float:*'' str then (value_float_t, val)
          else if prefix_match ''double:*'' str then (value_double_t, val)
          else if prefix_match ''data:*'' str then (value_data_t, val)
          else if prefix_match ''cstring:*'' str then (value_cstring_t, val)
          else (value_cstring_t, str))"

text \<open>A constructor's NULL is \<open>ENOMEM\<close>.\<close>

definition or_nomem :: "'a option \<Rightarrow> errno + 'a" where
  "or_nomem r = (case r of None \<Rightarrow> Inl ENOMEM | Some v \<Rightarrow> Inr v)"

text \<open>
  \<open>stale\<close> says that \<^verbatim>\<open>errno\<close> is \<open>ERANGE\<close> when the parser is called: it reads \<^verbatim>\<open>errno\<close> without
  resetting it. \<open>strtof\<close> and \<open>strtod\<close> give the bit pattern and whether they set \<open>ERANGE\<close>, or
  \<open>None\<close> for no conversion.
\<close>

definition value_parse ::
  "(string \<Rightarrow> (32 word \<times> bool) option) \<Rightarrow> (string \<Rightarrow> (64 word \<times> bool) option) \<Rightarrow>
   bool \<Rightarrow> alloc \<Rightarrow> string \<Rightarrow> errno + value_t" where
  "value_parse strtof strtod stale mem str =
     (let (ty, val) = value_split str
      in if ty = value_i32_t \<or> ty = value_i64_t then
           (case strtol val of
              None \<Rightarrow> Inl EINVAL
            | Some (number, rng) \<Rightarrow>
                if (stale \<or> rng) \<and> (number = INT64_MAX \<or> number = INT64_MIN) then Inl EINVAL
                else if ty = value_i32_t \<and> (number < -2147483648 \<or> 2147483647 < number) then Inl EINVAL
                else if ty = value_i32_t then or_nomem (value_i32 (mem 0) (of_int number))
                else or_nomem (value_i64 (mem 0) (of_int number)))
         else if ty = value_u32_t \<or> ty = value_u64_t then
           (case strtoul val of
              None \<Rightarrow> Inl EINVAL
            | Some (number, rng) \<Rightarrow>
                if (stale \<or> rng) \<and> number = ULONG_MAX then Inl EINVAL
                else if ty = value_u32_t \<and> 4294967295 < number then Inl EINVAL
                else if ty = value_u32_t then or_nomem (value_u32 (mem 0) (of_int number))
                else or_nomem (value_u64 (mem 0) (of_int number)))
         else if ty = value_float_t then
           (case strtof val of
              None \<Rightarrow> Inl EINVAL
            | Some (number, rng) \<Rightarrow>
                if stale \<or> rng then Inl EINVAL else or_nomem (value_float (mem 0) number))
         else if ty = value_double_t then
           (case strtod val of
              None \<Rightarrow> Inl EINVAL
            | Some (number, rng) \<Rightarrow>
                if stale \<or> rng then Inl EINVAL else or_nomem (value_double (mem 0) number))
         else if ty = value_data_t then
           (if \<not> mem 0 then Inl ENOMEM
            else case hex2mem (length val div 2) val of
                None \<Rightarrow> Inl EINVAL
              | Some data \<Rightarrow> or_nomem (value_data (mem 1) (length data) data))
         else or_nomem (value_cstring (mem 0) val))"

section \<open>Printing\<close>

text \<open>\<^verbatim>\<open>%u\<close> and \<^verbatim>\<open>%x\<close>\<close>

fun base_digits :: "nat \<Rightarrow> nat \<Rightarrow> string" where
  "base_digits base n =
     (let d = n mod base; c = (if d < 10 then char_of (48 + d) else char_of (87 + d))
      in if base < 2 \<or> n < base then [c] else base_digits base (n div base) @ [c])"

declare base_digits.simps [simp del]

definition fmt_d :: "int \<Rightarrow> string" where
  "fmt_d x = (if x < 0 then CHR ''-'' # base_digits 10 (nat (- x)) else base_digits 10 (nat x))"

text \<open>What \<^verbatim>\<open>snprintf\<close> leaves of \<open>s\<close> in a buffer of \<open>len\<close> bytes.\<close>

definition snprintf :: "nat \<Rightarrow> string \<Rightarrow> string" where
  "snprintf len s = take (len - 1) s"

text \<open>The C string at the start of some bytes; without a NUL the read runs out of them.\<close>

definition cstring_at :: "byte list \<Rightarrow> string c_out" where
  "cstring_at bs = (if 0 \<in> set bs then Ret (map chr_of (takeWhile (\<lambda>b. b \<noteq> 0) bs)) else UB)"

text \<open>
  \<open>fmt_f\<close> and \<open>fmt_g\<close> are \<^verbatim>\<open>%g\<close> on a \<^verbatim>\<open>float\<close> and on a \<^verbatim>\<open>double\<close>. For a type that has no case the buffer
  is left alone (\<open>old\<close>).
\<close>

definition value_fmt ::
  "(32 word \<Rightarrow> string) \<Rightarrow> (64 word \<Rightarrow> string) \<Rightarrow> string \<Rightarrow> nat \<Rightarrow> value_t \<Rightarrow> bool \<Rightarrow> string c_out" where
  "value_fmt fmt_f fmt_g old len v notype =
     (let tag = (\<lambda>t. if notype then [] else t)
      in if vtype v = value_i32_t then
           c_bind (value_to_i32 v) (\<lambda>n. Ret (snprintf len (tag ''i32:'' @ fmt_d (sint n))))
         else if vtype v = value_u32_t then
           c_bind (value_to_u32 v) (\<lambda>n. Ret (snprintf len (tag ''u32:'' @ base_digits 10 (unat n))))
         else if vtype v = value_i64_t then
           c_bind (value_to_i64 v) (\<lambda>n. Ret (snprintf len (tag ''i64:'' @ fmt_d (sint n))))
         else if vtype v = value_u64_t then
           c_bind (value_to_u64 v) (\<lambda>n. Ret (snprintf len (tag ''u64:'' @ base_digits 10 (unat n))))
         else if vtype v = value_float_t then
           c_bind (value_to_float v) (\<lambda>n. Ret (snprintf len (tag ''float:'' @ fmt_f n)))
         else if vtype v = value_double_t then
           c_bind (value_to_double v) (\<lambda>n. Ret (snprintf len (tag ''double:'' @ fmt_g n)))
         else if vtype v = value_data_t then
           (if \<not> notype \<and> \<not> 16 < len then UB
            else
              let head = tag (''data['' @ base_digits 16 (unat (vlength v)) @ '']:'')
              in c_bind (hexmem (len - length head) (vdata v) True) (\<lambda>t. Ret (head @ t)))
         else if vtype v = value_cstring_t then
           c_bind (cstring_at (vdata v)) (\<lambda>s. Ret (snprintf len (tag ''cstring:'' @ s)))
         else Ret old)"

section \<open>Lemmas\<close>

named_theorems value_defs \<open>the constructors of values\<close>

lemmas [value_defs] = value_alloc_def value_data_def value_cstring_def value_i32_def value_u32_def
  value_i64_def value_u64_def value_float_def value_double_def or_nomem_def

lemma value_alloc_ok:
  "value_alloc ok ty len data = Some v \<Longrightarrow> unat len \<le> length data \<Longrightarrow> value_ok v"
  by (auto simp: value_alloc_def value_ok_def split: if_splits)

lemma length_cstring_bytes [simp]: "length (cstring_bytes s) = Suc (length s)"
  by (simp add: cstring_bytes_def)

lemma value_dup_eq: "value_ok v \<Longrightarrow> value_dup ok v = (if ok then Some v else None)"
  by (simp add: value_dup_def value_alloc_def value_ok_def)

lemma unat_of_nat_le: "unat (of_nat n :: 'a::len word) \<le> n"
  by (simp add: unat_of_nat)

lemma le_nat_word:
  "of_nat (le_nat (le_bytes 4 (unat (a :: 32 word)))) = a"
  "of_nat (le_nat (le_bytes 8 (unat (b :: 64 word)))) = b"
proof -
  have "unat a < 256 ^ 4" "unat b < 256 ^ 8"
    using unsigned_less [of a] unsigned_less [of b] by simp_all
  then show "of_nat (le_nat (le_bytes 4 (unat a))) = a" "of_nat (le_nat (le_bytes 8 (unat b))) = b"
    by simp_all
qed

subsection \<open>Digits\<close>

lemma base_digits_step:
  "2 \<le> base \<Longrightarrow> base \<le> n \<Longrightarrow>
     base_digits base n = base_digits base (n div base) @ base_digits base (n mod base)"
  by (subst base_digits.simps) (simp add: Let_def base_digits.simps [of base "n mod base"])

lemma base_digits_small:
  "n < base \<Longrightarrow> base_digits base n = [if n < 10 then char_of (48 + n) else char_of (87 + n)]"
  by (subst base_digits.simps) (simp add: Let_def)

lemma digit_val_char: "d < 16 \<Longrightarrow> digit_val (if d < 10 then char_of (48 + d) else char_of (87 + d)) = d"
  by (auto simp: digit_val_def Let_def)

lemma base_digits_induct [consumes 1, case_names small step]:
  assumes "2 \<le> (base :: nat)"
    and "\<And>n. n < base \<Longrightarrow> P n"
    and "\<And>n. base \<le> n \<Longrightarrow> P (n div base) \<Longrightarrow> P n"
  shows "P n"
proof (induction n rule: less_induct)
  case (less n)
  show ?case
  proof (cases "n < base")
    case False
    with assms(1) have "n div base < n" by simp
    with less assms(3) False show ?thesis by simp
  qed (rule assms(2))
qed

lemma digits_val_append: "digits_val base (xs @ [c]) = digits_val base xs * base + digit_val c"
  by (simp add: digits_val_def)

lemma digits_val_base_digits:
  assumes "2 \<le> base" "base \<le> 16"
  shows "digits_val base (base_digits base n) = n"
  using assms(1)
proof (induction n rule: base_digits_induct)
  case (small n)
  with assms(2) show ?case
    by (simp only: base_digits_small digits_val_def foldl.simps digit_val_char less_le_trans)
next
  case (step n)
  have "n mod base < base" using assms by simp
  moreover from this assms have "n mod base < 16" by linarith
  ultimately show ?case
    using step assms
    by (simp only: base_digits_step base_digits_small digits_val_append digit_val_char div_mult_mod_eq)
qed

lemma base_digits_digits:
  assumes "2 \<le> base" "base \<le> 16"
  shows "\<forall>c \<in> set (base_digits base n). digit_val c < base"
  using assms(1)
proof (induction n rule: base_digits_induct)
  case (small n)
  with assms(2) digit_val_char [of n] show ?case by (simp add: base_digits_small)
next
  case (step n)
  have "n mod base < base" using assms by simp
  moreover from this assms have "n mod base < 16" by linarith
  ultimately show ?case
    using digit_val_char [of "n mod base"] step assms
    by (auto simp add: base_digits_step base_digits_small)
qed

lemma base_digits_neq [simp]: "base_digits base n \<noteq> []"
  by (subst base_digits.simps) (simp add: Let_def)

lemma length_base_digits: "2 \<le> base \<Longrightarrow> n < base ^ Suc k \<Longrightarrow> length (base_digits base n) \<le> Suc k"
proof (induction k arbitrary: n)
  case (Suc k)
  show ?case
  proof (cases "n < base")
    case False
    have "n div base < base ^ Suc k" using Suc.prems by (simp add: less_mult_imp_div_less mult.commute)
    with Suc False show ?thesis by (simp add: base_digits_step base_digits_small)
  qed (simp add: base_digits_small)
qed (simp add: base_digits_small)

lemma hd_base_digits:
  assumes "0 < n"
  shows "digit_val (hd (base_digits 10 n)) \<noteq> 0"
proof -
  have "2 \<le> (10 :: nat)" by simp
  then have "0 < n \<longrightarrow> digit_val (hd (base_digits 10 n)) \<noteq> 0"
  proof (induction n rule: base_digits_induct)
    case (small n)
    with digit_val_char [of n] show ?case by (simp add: base_digits_small)
  next
    case (step n)
    then have "0 < n div 10" by (simp add: div_greater_zero_iff)
    with step show ?case by (simp add: base_digits_step)
  qed
  with assms show ?thesis by simp
qed

lemma digit_val_special:
  "c_isspace c \<Longrightarrow> digit_val c = 36" "digit_val (CHR ''-'') = 36" "digit_val (CHR ''+'') = 36"
  by (auto simp: c_isspace_def digit_val_def)

lemma strto_sign_digit: "digit_val c < 36 \<Longrightarrow> strto_sign (dropWhile c_isspace (c # s)) = (False, c # s)"
  using digit_val_special by (auto simp: strto_sign_def)

lemma takeWhile_digits:
  "2 \<le> base \<Longrightarrow> base \<le> 16 \<Longrightarrow>
     takeWhile (\<lambda>c. digit_val c < base) (base_digits base n) = base_digits base n"
  using base_digits_digits by (simp add: takeWhile_eq_all_conv)

lemma strto_base_digits: "0 < n \<Longrightarrow> strto_base (base_digits 10 n) = (10, base_digits 10 n)"
  using hd_base_digits [of n]
  by (cases "base_digits 10 n") (auto simp: strto_base_def digit_val_def split: list.split)

lemma strto_scan_unsigned: "strto_scan (base_digits 10 n) = Some (False, n)"
proof (cases "n = 0")
  case True
  have "strto_scan (base_digits 10 0) = Some (False, 0)" by code_simp
  with True show ?thesis by simp
next
  case False
  have "digit_val (hd (base_digits 10 n)) < 36"
    using base_digits_digits [of 10 n] hd_in_set [OF base_digits_neq, of 10 n] by fastforce
  then have "strto_sign (dropWhile c_isspace (base_digits 10 n)) = (False, base_digits 10 n)"
    using strto_sign_digit by (cases "base_digits 10 n") auto
  with False show ?thesis
    by (simp add: strto_scan_def strto_base_digits takeWhile_digits digits_val_base_digits)
qed

lemma strto_scan_minus: "0 < n \<Longrightarrow> strto_scan (CHR ''-'' # base_digits 10 n) = Some (True, n)"
  by (simp add: strto_scan_def strto_sign_def c_isspace_def strto_base_digits takeWhile_digits
      digits_val_base_digits)

lemma strtol_fmt_d: "in_i64 x \<Longrightarrow> strtol (fmt_d x) = Some (x, False)"
  by (auto simp: strtol_def fmt_d_def strto_scan_unsigned strto_scan_minus in_i64_def)

lemma strtoul_digits: "n < 2 ^ 64 \<Longrightarrow> strtoul (base_digits 10 n) = Some (int n, False)"
  by (auto simp: strtoul_def strto_scan_unsigned)

subsection \<open>Tags\<close>

lemma after_colon_tag: "CHR '':'' \<notin> set t \<Longrightarrow> after_colon (t @ CHR '':'' # s) = Some s"
  by (induction t) auto

lemma prefix_match_append [simp]: "prefix_match (q @ p) (q @ s) = prefix_match p s"
  by (induction q) auto

lemma value_split_tags:
  assumes "prefix_match ''*'' s"
  shows "value_split (''i32:'' @ s) = (value_i32_t, s)" "value_split (''u32:'' @ s) = (value_u32_t, s)"
    "value_split (''i64:'' @ s) = (value_i64_t, s)" "value_split (''u64:'' @ s) = (value_u64_t, s)"
    "value_split (''data:'' @ s) = (value_data_t, s)" "value_split (''cstring:'' @ s) = (value_cstring_t, s)"
  using assms by (simp_all add: value_split_def)

lemma prefix_match_star_iff: "prefix_match ''*'' s \<longleftrightarrow> s = [] \<or> s = ''*'' \<or> hd s \<noteq> CHR ''*''"
proof (cases s)
  case (Cons c s')
  then show ?thesis by (cases s') auto
qed simp

lemma digit_not_star: "digit_val c < 36 \<Longrightarrow> c \<noteq> CHR ''*''"
  by (auto simp: digit_val_def)

lemma star_digits [simp]: "prefix_match ''*'' (base_digits 10 n)"
proof -
  have "digit_val (hd (base_digits 10 n)) < 36"
    using base_digits_digits [of 10 n] hd_in_set [OF base_digits_neq, of 10 n] by fastforce
  then show ?thesis using digit_not_star by (auto simp: prefix_match_star_iff)
qed

lemma star_fmt_d [simp]: "prefix_match ''*'' (fmt_d x)"
  by (auto simp: fmt_d_def)

lemma length_fmt_d: "in_i64 x \<Longrightarrow> length (fmt_d x) \<le> 20"
proof -
  assume "in_i64 x"
  then have "nat (- x) < 10 ^ Suc 18" "nat x < 10 ^ Suc 18" by (auto simp: in_i64_def)
  then have "length (base_digits 10 (nat (- x))) \<le> Suc 18" "length (base_digits 10 (nat x)) \<le> Suc 18"
    by (intro length_base_digits; simp)+
  then show ?thesis by (simp add: fmt_d_def)
qed

lemma sint_bounds:
  "in_i64 (sint (a :: 32 word))" "in_i64 (sint (b :: 64 word))"
  "-2147483648 \<le> sint a" "sint a \<le> 2147483647"
  using sint_range_size [of a] sint_range_size [of b] by (auto simp: in_i64_def word_size)

lemma unat_bounds: "unat (a :: 32 word) \<le> 4294967295" "unat (b :: 64 word) \<le> 18446744073709551615"
proof -
  have "unat a < 2 ^ LENGTH(32)" "unat b < 2 ^ LENGTH(64)" by (rule unsigned_less)+
  then show "unat a \<le> 4294967295" "unat b \<le> 18446744073709551615" by simp_all
qed

lemma value_to_ctor:
  "value_i32 True a = Some v \<Longrightarrow> value_to_i32 v = Ret a"
  "value_u32 True a = Some v \<Longrightarrow> value_to_u32 v = Ret a"
  "value_i64 True b = Some v \<Longrightarrow> value_to_i64 v = Ret b"
  "value_u64 True b = Some v \<Longrightarrow> value_to_u64 v = Ret b"
  using le_nat_word
  by (auto simp: value_defs value_to_i32_def value_to_u32_def value_to_i64_def value_to_u64_def value_to_def)

section \<open>Properties\<close>

lemma snprintf_fits [simp]: "length s < len \<Longrightarrow> snprintf len s = s"
  by (simp add: snprintf_def)

lemma length_snprintf: "0 < len \<Longrightarrow> length (snprintf len s) < len"
  by (simp add: snprintf_def)

lemma fmt_i32:
  assumes "value_i32 True a = Some v" "32 \<le> len"
  shows "value_fmt ff fg old len v False = Ret (''i32:'' @ fmt_d (sint a))"
proof -
  have "vtype v = value_i32_t" using assms(1) by (auto simp: value_defs)
  then show ?thesis
    using value_to_ctor(1) [OF assms(1)] length_fmt_d [OF sint_bounds(1), of a] assms(2)
    by (simp add: value_fmt_def)
qed

lemma fmt_i64:
  assumes "value_i64 True b = Some v" "32 \<le> len"
  shows "value_fmt ff fg old len v False = Ret (''i64:'' @ fmt_d (sint b))"
proof -
  have "vtype v = value_i64_t" using assms(1) by (auto simp: value_defs)
  then show ?thesis
    using value_to_ctor(3) [OF assms(1)] length_fmt_d [OF sint_bounds(2), of b] assms(2)
    by (simp add: value_fmt_def)
qed

lemma fmt_u32:
  assumes "value_u32 True a = Some v" "32 \<le> len"
  shows "value_fmt ff fg old len v False = Ret (''u32:'' @ base_digits 10 (unat a))"
proof -
  have "vtype v = value_u32_t" using assms(1) by (auto simp: value_defs)
  moreover have "length (base_digits 10 (unat a)) \<le> Suc 19"
    using unat_bounds(1) [of a] by (intro length_base_digits) auto
  ultimately show ?thesis
    using value_to_ctor(2) [OF assms(1)] assms(2) by (simp add: value_fmt_def)
qed

lemma fmt_u64:
  assumes "value_u64 True b = Some v" "32 \<le> len"
  shows "value_fmt ff fg old len v False = Ret (''u64:'' @ base_digits 10 (unat b))"
proof -
  have "vtype v = value_u64_t" using assms(1) by (auto simp: value_defs)
  moreover have "length (base_digits 10 (unat b)) \<le> Suc 19"
    using unat_bounds(2) [of b] by (intro length_base_digits) auto
  ultimately show ?thesis
    using value_to_ctor(4) [OF assms(1)] assms(2) by (simp add: value_fmt_def)
qed

lemma parse_i32: "value_parse sf sd stale mem (''i32:'' @ fmt_d (sint (a :: 32 word))) = or_nomem (value_i32 (mem 0) a)"
  using sint_bounds(3,4) [of a] unfolding value_parse_def value_split_tags(1) [OF star_fmt_d]
  by (auto simp: strtol_fmt_d [OF sint_bounds(1)])

lemma parse_i64:
  "value_parse sf sd stale mem (''i64:'' @ fmt_d (sint (b :: 64 word))) =
     (if stale \<and> (sint b = INT64_MAX \<or> sint b = INT64_MIN) then Inl EINVAL
      else or_nomem (value_i64 (mem 0) b))"
  unfolding value_parse_def value_split_tags(3) [OF star_fmt_d]
  by (auto simp: strtol_fmt_d [OF sint_bounds(2)])

lemma parse_u32: "value_parse sf sd stale mem (''u32:'' @ base_digits 10 (unat (a :: 32 word))) = or_nomem (value_u32 (mem 0) a)"
proof -
  have "unat a < 2 ^ 64" using unat_bounds(1) [of a] by simp
  note conv = strtoul_digits [OF this]
  have "int (unat a) \<le> 4294967295" using unat_bounds(1) [of a] by linarith
  then show ?thesis
    unfolding value_parse_def value_split_tags(2) [OF star_digits] by (auto simp: conv)
qed

lemma parse_u64:
  "value_parse sf sd stale mem (''u64:'' @ base_digits 10 (unat (b :: 64 word))) =
     (if stale \<and> int (unat b) = ULONG_MAX then Inl EINVAL else or_nomem (value_u64 (mem 0) b))"
  using unat_bounds(2) [of b] unfolding value_parse_def value_split_tags(4) [OF star_digits]
  by (auto simp: strtoul_digits)

definition reparse ::
  "(32 word \<Rightarrow> string) \<Rightarrow> (64 word \<Rightarrow> string) \<Rightarrow>
   (string \<Rightarrow> (32 word \<times> bool) option) \<Rightarrow> (string \<Rightarrow> (64 word \<times> bool) option) \<Rightarrow>
   bool \<Rightarrow> nat \<Rightarrow> value_t \<Rightarrow> (errno + value_t) c_out" where
  "reparse ff fg sf sd stale len v =
     c_bind (value_fmt ff fg [] len v False) (\<lambda>s. Ret (value_parse sf sd stale mem_ok s))"

text \<open>
  C38: an integer value of any of the four integer types, printed with its type tag into a buffer
  of 32 bytes or more, is parsed back to the same value, and the typed reader gives back the
  integer; the one exception is the extreme 64-bit values, which are refused (\<open>EINVAL\<close>) when
  \<^verbatim>\<open>errno\<close> happens to be \<open>ERANGE\<close> before the call.
\<close>

theorem value_int_roundtrip:
  assumes "32 \<le> len"
    and "value_i32 True a = Some v1" "value_u32 True a = Some v2"
    and "value_i64 True b = Some v3" "value_u64 True b = Some v4"
  shows "reparse ff fg sf sd stale len v1 = Ret (Inr v1) \<and> value_to_i32 v1 = Ret a \<and>
    reparse ff fg sf sd stale len v2 = Ret (Inr v2) \<and> value_to_u32 v2 = Ret a \<and>
    reparse ff fg sf sd stale len v3 =
      Ret (if stale \<and> sint b \<in> {INT64_MAX, INT64_MIN} then Inl EINVAL else Inr v3) \<and>
    value_to_i64 v3 = Ret b \<and>
    reparse ff fg sf sd stale len v4 =
      Ret (if stale \<and> int (unat b) = ULONG_MAX then Inl EINVAL else Inr v4) \<and>
    value_to_u64 v4 = Ret b"
  using fmt_i32 [OF assms(2,1)] fmt_u32 [OF assms(3,1)] fmt_i64 [OF assms(4,1)] fmt_u64 [OF assms(5,1)]
    value_to_ctor(1) [OF assms(2)] value_to_ctor(2) [OF assms(3)]
    value_to_ctor(3) [OF assms(4)] value_to_ctor(4) [OF assms(5)] assms
  by (simp only: reparse_def c_bind.simps parse_i32 parse_u32 parse_i64 parse_u64 or_nomem_def
      option.case insert_iff empty_iff simp_thms)

theorem value_int_roundtrip_witness:
  "\<exists>v. value_i32 True (- 7) = Some v \<and>
     reparse (\<lambda>_. []) (\<lambda>_. []) (\<lambda>_. None) (\<lambda>_. None) False 32 v = Ret (Inr v)"
proof -
  obtain v1 v2 v3 v4 where
    "value_i32 True (- 7) = Some v1" "value_u32 True (- 7) = Some v2"
    "value_i64 True 9 = Some v3" "value_u64 True 9 = Some v4"
    by (simp add: value_defs)
  with value_int_roundtrip [of 32 "- 7" v1 v2 9 v3 v4] show ?thesis by simp
qed

lemma chr_of_of_char [simp]: "chr_of (of_char c) = c"
proof -
  have "unat (of_char c :: byte) = of_char c"
    by (metis nat_of_char_less_256 mod_less of_nat_of_char unat_byte_of_nat)
  then show ?thesis by simp
qed

text \<open>A C string has no NUL.\<close>

definition no_nul :: "string \<Rightarrow> bool" where
  "no_nul s \<longleftrightarrow> CHR 0x00 \<notin> set s"

lemma of_char_neq_0: "no_nul s \<Longrightarrow> c \<in> set s \<Longrightarrow> (of_char c :: byte) \<noteq> 0"
proof
  assume s: "no_nul s" "c \<in> set s" and c: "(of_char c :: byte) = 0"
  have "chr_of (0 :: byte) = CHR 0x00" by code_simp
  with c have "c = CHR 0x00" using chr_of_of_char [of c] by simp
  with s show False by (simp add: no_nul_def)
qed

lemma cstring_at_bytes [simp]: "no_nul s \<Longrightarrow> cstring_at (cstring_bytes s) = Ret s"
proof -
  assume s: "no_nul s"
  then have "takeWhile (\<lambda>b. b \<noteq> 0) (cstring_bytes s) = map of_char s"
    unfolding cstring_bytes_def by (subst takeWhile_append2) (auto dest: of_char_neq_0)
  then show ?thesis by (simp add: cstring_at_def cstring_bytes_def comp_def)
qed

lemma no_nul_append [simp]: "no_nul (s @ t) \<longleftrightarrow> no_nul s \<and> no_nul t"
  by (auto simp: no_nul_def)

lemma value_cstring_full:
  assumes "length s + 1 < 2 ^ 32"
  shows "value_cstring True s =
     Some \<lparr>vtype = value_cstring_t, vlength = of_nat (length s + 1), vdata = cstring_bytes s\<rparr>"
proof -
  have "unat (of_nat (length s + 1) :: 32 word) = length s + 1"
    using assms by (simp only: unat_of_nat) simp
  then show ?thesis by (simp only: value_defs) simp
qed

lemma value_data_full:
  "length bs < 2 ^ 32 \<Longrightarrow> value_data True (length bs) bs =
     Some \<lparr>vtype = value_data_t, vlength = of_nat (length bs), vdata = bs\<rparr>"
  by (simp add: value_defs unat_of_nat)

lemma star_hexbytes: "prefix_match ''*'' (hexbytes upper bs)"
proof (cases bs)
  case (Cons b bs')
  have "chr_of (dec2hexchar (drop_bit 4 b) upper) \<noteq> CHR ''*''"
  proof
    assume "chr_of (dec2hexchar (drop_bit 4 b) upper) = CHR ''*''"
    then have "dec2hexchar (drop_bit 4 b) upper = of_char (CHR ''*'')"
      by (metis of_char_chr_of)
    with hexchar_nibble [OF nibbles_less(1) [of b], of upper] show False
      by (simp add: ishexchar_def word_le_nat_alt)
  qed
  then show ?thesis by (simp add: Cons hexbyte_def prefix_match_star_iff)
qed simp

text \<open>
  The text \<^verbatim>\<open>cstring:s\<close> denotes the string \<open>s\<close> and is what \<^verbatim>\<open>value_fmt\<close> prints for it, except
  that a longer \<open>s\<close> beginning with a star keeps its tag (the tag is recognised by \<^verbatim>\<open>prefix_match\<close>);
  the text \<^verbatim>\<open>data:\<close> followed by the hexadecimal digits of some bytes, in either case, denotes those
  bytes.
\<close>

theorem value_text_roundtrip:
  assumes "no_nul s" "length s + 9 < 2 ^ 32" "length s + 9 < len" "length bs < 2 ^ 32"
  shows "value_parse sf sd stale mem_ok (''cstring:'' @ s) =
      or_nomem (value_cstring True (if s = [] \<or> s = ''*'' \<or> hd s \<noteq> CHR ''*'' then s else ''cstring:'' @ s)) \<and>
    cstring_at (vdata (the (value_cstring True s))) = Ret s \<and>
    value_fmt ff fg old len (the (value_cstring True s)) False = Ret (''cstring:'' @ s) \<and>
    value_parse sf sd stale mem_ok (''data:'' @ hexbytes upper bs) = or_nomem (value_data True (length bs) bs) \<and>
    vdata (the (value_data True (length bs) bs)) = bs"
proof -
  have "value_split (''cstring:'' @ s) =
      (value_cstring_t, if s = [] \<or> s = ''*'' \<or> hd s \<noteq> CHR ''*'' then s else ''cstring:'' @ s)"
    by (simp add: value_split_def prefix_match_star_iff)
  then have "value_parse sf sd stale mem_ok (''cstring:'' @ s) =
      or_nomem (value_cstring True (if s = [] \<or> s = ''*'' \<or> hd s \<noteq> CHR ''*'' then s else ''cstring:'' @ s))"
    by (simp only: value_parse_def) simp
  moreover have "value_parse sf sd stale mem_ok (''data:'' @ hexbytes upper bs) = or_nomem (value_data True (length bs) bs)"
    unfolding value_parse_def value_split_tags(5) [OF star_hexbytes] by (simp add: hex2mem_hexbytes)
  ultimately show ?thesis
    using assms by (simp add: value_cstring_full value_data_full value_fmt_def)
qed

theorem value_text_roundtrip_witness:
  "value_parse (\<lambda>_. None) (\<lambda>_. None) False mem_ok ''cstring:hi'' = or_nomem (value_cstring True ''hi'') \<and>
   value_parse (\<lambda>_. None) (\<lambda>_. None) False mem_ok ''cstring:*hi'' = or_nomem (value_cstring True ''cstring:*hi'')"
  using value_text_roundtrip [of "''hi''" 64 "[]" "\<lambda>_. None" "\<lambda>_. None" False]
    value_text_roundtrip [of "''*hi''" 64 "[]" "\<lambda>_. None" "\<lambda>_. None" False]
  by (simp add: no_nul_def)

text \<open>The size a type fixes, and a NUL in a string: what makes a value readable and printable.\<close>

definition value_wf :: "value_t \<Rightarrow> bool" where
  "value_wf v \<longleftrightarrow> value_ok v \<and>
     (vtype v \<in> {value_i32_t, value_u32_t, value_float_t} \<longrightarrow> vlength v = 4) \<and>
     (vtype v \<in> {value_i64_t, value_u64_t, value_double_t} \<longrightarrow> vlength v = 8) \<and>
     (vtype v = value_cstring_t \<longrightarrow> 0 \<in> set (vdata v))"

lemma value_ctors_wf:
  "value_i32 ok a = Some v \<Longrightarrow> value_wf v" "value_u32 ok a = Some v \<Longrightarrow> value_wf v"
  "value_i64 ok b = Some v \<Longrightarrow> value_wf v" "value_u64 ok b = Some v \<Longrightarrow> value_wf v"
  "value_float ok a = Some v \<Longrightarrow> value_wf v" "value_double ok b = Some v \<Longrightarrow> value_wf v"
  by (auto simp: value_defs value_wf_def value_ok_def split: if_splits)

lemma value_data_wf: "value_data ok len data = Some v \<Longrightarrow> len \<le> length data \<Longrightarrow> value_wf v"
  using unat_of_nat_le [of len, where 'a = 32]
  by (auto simp: value_defs value_wf_def value_ok_def split: if_splits)

lemma value_cstring_wf:
  assumes "value_cstring ok s = Some v" "length s + 1 < 2 ^ 32"
  shows "value_wf v"
proof -
  have "ok" using assms(1) by (auto simp: value_defs split: if_splits)
  moreover have "unat (of_nat (length s + 1) :: 32 word) = length s + 1"
    using assms(2) by (simp only: unat_of_nat) simp
  ultimately show ?thesis
    using assms value_cstring_full [of s]
    by (simp add: value_wf_def value_ok_def cstring_bytes_def del: of_nat_add of_nat_Suc)
qed

lemma or_nomem_Inr: "or_nomem r = Inr v \<longleftrightarrow> r = Some v"
  by (auto simp: or_nomem_def split: option.split)

lemma after_colon_length: "after_colon s = Some t \<Longrightarrow> length t \<le> length s"
  by (induction s) (auto split: if_splits)

lemma value_split_length: "length (snd (value_split s)) \<le> length s"
  by (auto simp: value_split_def after_colon_length split: option.split)

lemma value_parse_wf:
  assumes "value_parse sf sd stale mem s = Inr v" "length s + 1 < 2 ^ 32"
  shows "value_wf v"
proof -
  obtain ty val where split: "value_split s = (ty, val)" by (cases "value_split s") auto
  with value_split_length [of s] assms(2) have "length val + 1 < 2 ^ 32" by simp
  then show ?thesis
    using assms(1) unfolding value_parse_def split
    by (auto simp: or_nomem_Inr Let_def value_ctors_wf value_data_wf value_cstring_wf
        split: option.splits if_splits)
qed

lemma value_to_wf:
  "value_wf v \<Longrightarrow> vtype v = value_i32_t \<Longrightarrow> \<exists>n. value_to_i32 v = Ret n"
  "value_wf v \<Longrightarrow> vtype v = value_u32_t \<Longrightarrow> \<exists>n. value_to_u32 v = Ret n"
  "value_wf v \<Longrightarrow> vtype v = value_float_t \<Longrightarrow> \<exists>n. value_to_float v = Ret n"
  "value_wf v \<Longrightarrow> vtype v = value_i64_t \<Longrightarrow> \<exists>m. value_to_i64 v = Ret m"
  "value_wf v \<Longrightarrow> vtype v = value_u64_t \<Longrightarrow> \<exists>m. value_to_u64 v = Ret m"
  "value_wf v \<Longrightarrow> vtype v = value_double_t \<Longrightarrow> \<exists>m. value_to_double v = Ret m"
  by (auto simp: value_wf_def value_ok_def value_to_def value_to_i32_def value_to_u32_def
      value_to_i64_def value_to_u64_def value_to_float_def value_to_double_def)

lemma fmt_data_wf:
  assumes "16 < len" "vtype v = value_data_t"
  shows "\<exists>s. value_fmt ff fg old len v notype = Ret s \<and> length s < len"
proof -
  define head where "head = (if notype then [] else ''data['' @ base_digits 16 (unat (vlength v)) @ '']:'')"
  have "length (base_digits 16 (unat (vlength v))) \<le> Suc 7"
    using unat_bounds(1) [of "vlength v"] by (intro length_base_digits) auto
  then have head: "length head < len" using assms(1) by (simp add: head_def)
  obtain t where t: "hexmem (len - length head) (vdata v) True = Ret t"
    using head hexmem_total [of "len - length head"] by auto
  moreover have "length t < len - length head"
    using hexmem_bound [OF t] head by simp
  ultimately show ?thesis
    using assms by (auto simp: value_fmt_def head_def)
qed

lemma value_fmt_wf:
  assumes wf: "value_wf v" and len: "16 < len"
  shows "\<exists>t. value_fmt ff fg [] len v notype = Ret t \<and> length t < len"
proof (cases "vtype v = value_data_t")
  case False
  have "\<exists>t. cstring_at (vdata v) = Ret t" if "vtype v = value_cstring_t"
    using wf that by (simp add: value_wf_def cstring_at_def)
  then consider n where "vtype v = value_i32_t" "value_to_i32 v = Ret n"
    | n where "vtype v = value_u32_t" "value_to_u32 v = Ret n"
    | n where "vtype v = value_float_t" "value_to_float v = Ret n"
    | n where "vtype v = value_i64_t" "value_to_i64 v = Ret n"
    | n where "vtype v = value_u64_t" "value_to_u64 v = Ret n"
    | n where "vtype v = value_double_t" "value_to_double v = Ret n"
    | t where "vtype v = value_cstring_t" "cstring_at (vdata v) = Ret t"
    | "vtype v \<notin> {value_data_t, value_cstring_t, value_i32_t, value_u32_t, value_i64_t, value_u64_t,
         value_float_t, value_double_t}"
    using False value_to_wf [OF wf] by blast
  then show ?thesis
    using len by cases (simp_all add: value_fmt_def Let_def length_snprintf)
qed (use len fmt_data_wf in blast)

text \<open>
  C37: what \<^verbatim>\<open>value_parse\<close> accepts is well formed (its length counts its bytes, an integer or a
  floating value has the size of its type, a string has its NUL) and \<^verbatim>\<open>value_fmt\<close> then prints it
  without undefined behaviour into any buffer of more than 16 bytes, never past its end; what it
  refuses is refused with \<open>EINVAL\<close> or \<open>ENOMEM\<close>, the latter only when an allocation failed.
\<close>

theorem value_parse_safe:
  assumes "length s + 1 < 2 ^ 32" "16 < len"
  shows "case value_parse sf sd stale mem s of
      Inr v \<Rightarrow> value_wf v \<and> (\<exists>t. value_fmt ff fg [] len v notype = Ret t \<and> length t < len)
    | Inl e \<Rightarrow> e = EINVAL \<or> e = ENOMEM \<and> \<not> (mem 0 \<and> mem 1)"
proof (cases "value_parse sf sd stale mem s")
  case (Inl e)
  then show ?thesis
    by (auto simp: value_parse_def value_defs Let_def split: option.splits if_splits prod.splits)
next
  case (Inr v)
  with assms(1) have wf: "value_wf v" by (simp add: value_parse_wf)
  have "\<exists>t. value_fmt ff fg [] len v notype = Ret t \<and> length t < len"
    by (rule value_fmt_wf [OF wf assms(2)])
  with wf Inr show ?thesis by simp
qed

theorem value_parse_safe_witness:
  "\<exists>v t. value_parse (\<lambda>_. None) (\<lambda>_. None) False mem_ok ''data:00ff'' = Inr v \<and>
     value_fmt (\<lambda>_. []) (\<lambda>_. []) [] 20 v True = Ret t \<and> length t < 20"
proof -
  have "\<exists>v. value_parse (\<lambda>_. None) (\<lambda>_. None) False mem_ok ''data:00ff'' = Inr v"
    by (simp add: value_parse_def value_split_def hex2mem_def ishexchar_def word_le_nat_alt value_defs)
  with value_parse_safe [where s = "''data:00ff''" and len = 20 and mem = mem_ok and stale = False
      and sf = "\<lambda>_. None" and sd = "\<lambda>_. None" and ff = "\<lambda>_. []" and fg = "\<lambda>_. []" and notype = True]
  show ?thesis by auto
qed

section \<open>The packed representation\<close>

text \<open>The bytes of a \<^verbatim>\<open>value_t\<close> in memory, in a file or on a socket: type, length, data.\<close>

definition value_bytes :: "value_t \<Rightarrow> byte list" where
  "value_bytes v = vtype v # le_bytes 4 (unat (vlength v)) @ vdata v"

text \<open>The header of a value: its type and its length.\<close>

definition value_head :: "byte list \<Rightarrow> byte \<times> 32 word" where
  "value_head bs = (hd bs, of_nat (le_nat (take 4 (tl bs))))"

lemma value_head_bytes [simp]: "value_head (value_bytes v @ bs) = (vtype v, vlength v)"
  using le_nat_word(1) [of "vlength v"] by (simp add: value_head_def value_bytes_def)

lemma length_value_bytes [simp]: "length (value_bytes v) = 5 + length (vdata v)"
  by (simp add: value_bytes_def)

lemma drop_value_bytes [simp]: "drop 5 (value_bytes v @ bs) = vdata v @ bs"
proof -
  have "value_bytes v @ bs = (vtype v # le_bytes 4 (unat (vlength v))) @ vdata v @ bs"
    by (simp add: value_bytes_def)
  moreover have "length (vtype v # le_bytes 4 (unat (vlength v))) = 5" by simp
  ultimately show ?thesis by (metis append_eq_conv_conj)
qed

end
