(* ===== verification/Storage.thy ===== *)
theory Storage
  imports Value
begin

text \<open>
  The storage interface, \<^verbatim>\<open>lib/storage.h\<close> and \<^verbatim>\<open>lib/storage.c\<close>: a struct of function pointers that a
  backend fills in, and the wrappers that check for a missing function before they call it. The
  functions act on a state \<open>'w\<close>, everything the backends can change (files, sockets, memory), which
  stands for \<^verbatim>\<open>priv\<close> and what it reaches. A zero return is \<open>None\<close>.
\<close>

record 'w storage_ctx =
  sname :: string
  get_fn :: "('w \<Rightarrow> string \<Rightarrow> ((errno + value_t \<times> timestamp) \<times> 'w) c_out) option"
  set_fn :: "('w \<Rightarrow> string \<Rightarrow> value_t \<Rightarrow> (errno option \<times> 'w) c_out) option"
  del_fn :: "('w \<Rightarrow> string \<Rightarrow> (errno option \<times> 'w) c_out) option"
  destructor :: "('w \<Rightarrow> 'w) option"

text \<open>
  The wrappers print the value into a buffer of 256 bytes for the log, whatever the log level; the
  text is not part of the model, but printing an ill-formed value is undefined.
\<close>

definition log_value :: "value_t \<Rightarrow> unit c_out" where
  "log_value v = c_bind (value_fmt (\<lambda>_. []) (\<lambda>_. []) [] 256 v False) (\<lambda>_. Ret ())"

definition storage_get ::
  "'w storage_ctx \<Rightarrow> 'w \<Rightarrow> string \<Rightarrow> ((errno + value_t \<times> timestamp) \<times> 'w) c_out" where
  "storage_get storage w key =
     (case get_fn storage of
        None \<Rightarrow> Ret (Inl EOPNOTSUPP, w)
      | Some f \<Rightarrow>
          c_bind (f w key) (\<lambda>(r, w').
            case r of
              Inl e \<Rightarrow> Ret (Inl e, w')
            | Inr (v, d) \<Rightarrow> c_bind (log_value v) (\<lambda>_. Ret (Inr (v, d), w'))))"

definition storage_set ::
  "'w storage_ctx \<Rightarrow> 'w \<Rightarrow> string \<Rightarrow> value_t \<Rightarrow> (errno option \<times> 'w) c_out" where
  "storage_set storage w key v =
     (case set_fn storage of
        None \<Rightarrow> Ret (Some EOPNOTSUPP, w)
      | Some f \<Rightarrow> c_bind (log_value v) (\<lambda>_. f w key v))"

text \<open>The guard of \<^verbatim>\<open>storage_del\<close> looks at \<^verbatim>\<open>set\<close>; the call is then through \<^verbatim>\<open>del\<close>.\<close>

definition storage_del :: "'w storage_ctx \<Rightarrow> 'w \<Rightarrow> string \<Rightarrow> (errno option \<times> 'w) c_out" where
  "storage_del storage w key =
     (case set_fn storage of
        None \<Rightarrow> Ret (Some EOPNOTSUPP, w)
      | Some _ \<Rightarrow> (case del_fn storage of None \<Rightarrow> UB | Some f \<Rightarrow> f w key))"

definition storage_destructor :: "'w storage_ctx \<Rightarrow> 'w \<Rightarrow> 'w" where
  "storage_destructor storage w = (case destructor storage of None \<Rightarrow> w | Some f \<Rightarrow> f w)"

section \<open>The contract of a backend that stores\<close>

text \<open>
  What the daemon relies on when a key is served by a backend that supports all three operations:
  there is a map of keys to values such that a get returns the value of the key and changes nothing,
  a set that reports success changes that key only, a del that reports success removes that key
  only, and one that reports failure changes nothing. \<open>ok\<close> is the backend's own invariant, \<open>keys\<close>
  and \<open>vals\<close> are the keys and values it accepts. A failure is reported by an error number other than 0.
\<close>

locale kv_storage =
  fixes storage :: "'w storage_ctx" and ok :: "'w \<Rightarrow> bool" and contents :: "'w \<Rightarrow> string \<Rightarrow> value_t option"
    and keys :: "string \<Rightarrow> bool" and vals :: "value_t \<Rightarrow> bool"
  assumes get_law: "ok w \<Longrightarrow> keys k \<Longrightarrow> contents w k = Some v \<Longrightarrow>
      vals v \<and> (\<exists>w' d. storage_get storage w k = Ret (Inr (v, d), w') \<and> ok w' \<and> contents w' = contents w)"
    and get_none_law: "ok w \<Longrightarrow> keys k \<Longrightarrow> contents w k = None \<Longrightarrow>
      \<exists>w' e. storage_get storage w k = Ret (Inl e, w') \<and> errno_ok e \<and> ok w' \<and> contents w' = contents w"
    and set_law: "ok w \<Longrightarrow> keys k \<Longrightarrow> vals v \<Longrightarrow>
      \<exists>r w'. storage_set storage w k v = Ret (r, w') \<and> (\<forall>e. r = Some e \<longrightarrow> errno_ok e) \<and> ok w' \<and>
        contents w' k = (if r = None then Some v else contents w k) \<and> (\<forall>j. keys j \<longrightarrow> j \<noteq> k \<longrightarrow> contents w' j = contents w j)"
    and vals_ok: "vals v \<Longrightarrow> value_wf v"
    and del_law: "ok w \<Longrightarrow> keys k \<Longrightarrow>
      \<exists>r w'. storage_del storage w k = Ret (r, w') \<and> (\<forall>e. r = Some e \<longrightarrow> errno_ok e) \<and> ok w' \<and>
        contents w' k = (if r = None then None else contents w k) \<and> (\<forall>j. keys j \<longrightarrow> j \<noteq> k \<longrightarrow> contents w' j = contents w j)"
begin

lemma set_get:
  assumes "ok w" "keys k" "vals v" "storage_set storage w k v = Ret (None, w')"
  shows "\<exists>w'' d. storage_get storage w' k = Ret (Inr (v, d), w'')"
  using set_law [OF assms(1-3)] get_law [of w' k v] assms by auto

lemma del_get:
  assumes "ok w" "keys k" "storage_del storage w k = Ret (None, w')"
  shows "\<exists>w'' e. storage_get storage w' k = Ret (Inl e, w'')"
  using del_law [OF assms(1,2)] get_none_law [of w' k] assms by auto

lemma set_other:
  assumes "ok w" "keys k" "keys j" "j \<noteq> k" "vals v" "storage_set storage w k v = Ret (r, w')"
  shows "contents w' j = contents w j"
  using set_law [OF assms(1,2,5)] assms by auto

end

section \<open>Properties\<close>

text \<open>
  The wrappers refuse exactly what the backend has no function for with \<open>EOPNOTSUPP\<close> and
  leave the state alone then; but a backend with \<^verbatim>\<open>set\<close> and without \<^verbatim>\<open>del\<close> makes
  \<^verbatim>\<open>storage_del\<close> call a NULL pointer, and one with \<^verbatim>\<open>del\<close> and without \<^verbatim>\<open>set\<close> has its \<^verbatim>\<open>del\<close> refused.
\<close>

theorem storage_missing_function:
  "(get_fn st = None \<longrightarrow> storage_get st w k = Ret (Inl EOPNOTSUPP, w)) \<and>
   (set_fn st = None \<longrightarrow> storage_set st w k v = Ret (Some EOPNOTSUPP, w)) \<and>
   (set_fn st = None \<longrightarrow> storage_del st w k = Ret (Some EOPNOTSUPP, w)) \<and>
   (set_fn st \<noteq> None \<and> del_fn st = None \<longrightarrow> storage_del st w k = UB)"
  by (auto simp: storage_get_def storage_set_def storage_del_def split: option.split)

theorem storage_missing_function_witness:
  "storage_del \<lparr>sname = ''s'', get_fn = None, set_fn = Some (\<lambda>w k v. Ret (None, w)), del_fn = None,
     destructor = None\<rparr> (0 :: nat) ''k'' = UB \<and>
   storage_get \<lparr>sname = ''s'', get_fn = None, set_fn = Some (\<lambda>w k v. Ret (None, w)), del_fn = None,
     destructor = None\<rparr> (0 :: nat) ''k'' = Ret (Inl EOPNOTSUPP, 0)"
  using storage_missing_function
    [of "\<lparr>sname = ''s'', get_fn = None, set_fn = Some (\<lambda>w k v. Ret (None, w)), del_fn = None, destructor = None\<rparr>"
      "0 :: nat" "''k''"] by simp

end
