(* ===== verification/Cache.thy ===== *)
theory Cache
  imports RB_Tree Value
begin

text \<open>
  The cache, \<^verbatim>\<open>lib/cache.c\<close>: items in a rank-balanced tree ordered by key, each with the time it was
  modified and how long it lasts. Every operation runs under the cache's rwlock (reads share it), so
  it is one step on the \<open>cache\<close> record; the clock readings of an operation are its arguments.
  \<^verbatim>\<open>item_destroy\<close>, which only frees, leaves nothing behind in the model.
\<close>

section \<open>State\<close>

abbreviation DURATION_INF :: timestamp where "DURATION_INF \<equiv> INT64_MAX"

record cache_item =
  ckey :: string
  cvalue :: "value_t option" \<comment> \<open>\<open>None\<close> is a NULL pointer\<close>
  modified :: timestamp
  duration :: timestamp

record cache =
  tree :: "cache_item rb"
  min_interval :: timestamp
  max_interval :: timestamp
  default_duration :: timestamp
  min_duration :: timestamp
  clean_notice :: nat \<comment> \<open>the count of the semaphore\<close>

text \<open>\<^verbatim>\<open>cmp\<close> on a shadow item that has only its key set.\<close>

definition cache_probe :: "string \<Rightarrow> cache_item \<Rightarrow> int" where
  "cache_probe k b = strcmp k (ckey b)"

definition cache_cmp :: "cache_item \<Rightarrow> cache_item \<Rightarrow> int" where
  "cache_cmp a b = strcmp (ckey a) (ckey b)"

section \<open>Operations\<close>

text \<open>
  \<^verbatim>\<open>item_create\<close>: when \<^verbatim>\<open>strdup\<close> fails, \<^verbatim>\<open>item_destroy\<close> frees the \<^verbatim>\<open>value\<close> pointer that \<^verbatim>\<open>malloc\<close> left
  uninitialised.
\<close>

definition item_create ::
  "alloc \<Rightarrow> timestamp \<Rightarrow> string \<Rightarrow> value_t \<Rightarrow> timestamp \<Rightarrow> cache_item option c_out" where
  "item_create mem now key v dur =
     (if \<not> mem 0 then Ret None
      else if \<not> mem 1 then UB
      else case value_dup (mem 2) v of
          None \<Rightarrow> Ret None
        | Some v' \<Rightarrow> Ret (Some \<lparr>ckey = key, cvalue = Some v', modified = now, duration = dur\<rparr>))"

definition duration_is_outdate :: "cache_item \<Rightarrow> timestamp \<Rightarrow> bool" where
  "duration_is_outdate item now \<longleftrightarrow>
     duration item \<noteq> DURATION_INF \<and> i64 (modified item + duration item) \<le> now"

definition duration_fmt :: "nat \<Rightarrow> timestamp \<Rightarrow> string" where
  "duration_fmt len d =
     (if DURATION_INF = d then snprintf len ''inf'' else snprintf len (fmt_d (timestamp_to_ms d) @ ''ms''))"

definition cache_create ::
  "timestamp \<Rightarrow> timestamp \<Rightarrow> timestamp \<Rightarrow> timestamp \<Rightarrow> bool \<Rightarrow> errno option \<Rightarrow> errno option \<Rightarrow> errno + cache" where
  "cache_create min_i max_i dd md mem rwlock_init thread_create =
     (if \<not> mem then Inl ENOMEM
      else case rwlock_init of
          Some e \<Rightarrow> Inl e
        | None \<Rightarrow>
            (case thread_create of
               Some e \<Rightarrow> Inl e
             | None \<Rightarrow> Inr \<lparr>tree = Null, min_interval = min_i, max_interval = max_i,
                 default_duration = dd, min_duration = md, clean_notice = 0\<rparr>))"

text \<open>
  One turn of the cleaner's loop after \<^verbatim>\<open>sem_timedwait\<close> returned: \<open>noticed\<close> when it took the
  semaphore, otherwise it timed out. \<open>now1\<close> and \<open>now2\<close> are the two clock readings, \<open>last\<close> its local
  variable.
\<close>

definition cache_cleaner ::
  "bool \<Rightarrow> timestamp \<Rightarrow> timestamp \<Rightarrow> cache \<times> timestamp \<Rightarrow> cache \<times> timestamp" where
  "cache_cleaner noticed now1 now2 = (\<lambda>(c, last).
     let c = (if noticed then c\<lparr>clean_notice := clean_notice c - 1\<rparr> else c)
     in if noticed \<and> i64 (now1 - last) < min_interval c then (c, last)
        else (c\<lparr>tree := rb_sweep cache_probe ckey (\<lambda>item. duration_is_outdate item now2) (tree c)\<rparr>, now2))"

text \<open>The loop of \<^verbatim>\<open>cache_destroy\<close>, which then frees the cache.\<close>

definition cache_destroy :: "cache \<Rightarrow> cache_item rb" where
  "cache_destroy c = rb_sweep cache_probe ckey (\<lambda>item. True) (tree c)"

text \<open>
  Differences of time stamps wrap around. That they do so in C is an assumption (as with \<^verbatim>\<open>-fwrapv\<close>): they
  overflow only for clocks and durations that are centuries apart. The values' text in the log is left out.
\<close>

definition cache_get ::
  "bool \<Rightarrow> timestamp \<Rightarrow> cache \<Rightarrow> string \<Rightarrow> ((errno + value_t \<times> timestamp) \<times> cache) c_out" where
  "cache_get mem now c key =
     (case RB_FIND (cache_probe key) (tree c) of
        None \<Rightarrow> Ret (Inl ENOENT, c)
      | Some item \<Rightarrow>
          if duration_is_outdate item now then
            Ret (Inl ENOENT, c\<lparr>clean_notice := clean_notice c + 1\<rparr>)
          else
            (case cvalue item of
               None \<Rightarrow> UB
             | Some v0 \<Rightarrow>
                 (case value_dup mem v0 of
                    None \<Rightarrow> Ret (Inl ENOMEM, c)
                  | Some v \<Rightarrow>
                      let remain =
                        (if duration item \<noteq> DURATION_INF then
                           let remain' = i64 (duration item - i64 (now - modified item))
                           in if remain' < min_duration c then min_duration c else remain'
                         else duration item)
                      in Ret (Inr (v, remain), c))))"

definition set_duration :: "cache \<Rightarrow> timestamp \<Rightarrow> timestamp" where
  "set_duration c dur =
     (if dur \<noteq> 0 then (if dur < min_duration c then min_duration c else dur) else default_duration c)"

text \<open>\<open>now1\<close> is read by \<^verbatim>\<open>item_create\<close>, \<open>now2\<close> when an item is replaced.\<close>

definition cache_set ::
  "alloc \<Rightarrow> timestamp \<Rightarrow> timestamp \<Rightarrow> cache \<Rightarrow> string \<Rightarrow> value_t \<Rightarrow> timestamp \<Rightarrow>
   (errno option \<times> cache) c_out" where
  "cache_set mem now1 now2 c key v dur =
     c_bind (item_create mem now1 key v (set_duration c dur)) (\<lambda>r.
       case r of
         None \<Rightarrow> Ret (Some ENOMEM, c)
       | Some item \<Rightarrow>
           (case rb_ins cache_probe ckey item (tree c) of
              (None, t') \<Rightarrow> Ret (None, c\<lparr>tree := t'\<rparr>)
            | (Some old_item, t') \<Rightarrow>
                (case value_dup (mem 3) v of
                   None \<Rightarrow>
                     Ret (Some ENOMEM,
                       c\<lparr>tree := rb_modify (cache_probe (ckey old_item)) (\<lambda>i. i\<lparr>cvalue := None\<rparr>) t'\<rparr>)
                 | Some v' \<Rightarrow>
                     Ret (None,
                       c\<lparr>tree := rb_modify (cache_probe (ckey old_item))
                          (\<lambda>i. i\<lparr>cvalue := Some v', modified := now2, duration := set_duration c dur\<rparr>) t'\<rparr>))))"

definition cache_del :: "cache \<Rightarrow> string \<Rightarrow> errno option \<times> cache" where
  "cache_del c key =
     (case RB_FIND (cache_probe key) (tree c) of
        None \<Rightarrow> (Some ENOENT, c)
      | Some item \<Rightarrow> (None, c\<lparr>tree := rb_del cache_probe (ckey item) (tree c)\<rparr>))"

section \<open>The tree of the cache\<close>

text \<open>The string comparison meets what the tree macros rely on.\<close>

interpretation ct: three_way cache_probe ckey
  by unfold_locales (auto simp: cache_probe_def)

lemma cache_cmp_probe: "cache_cmp = (\<lambda>a. cache_probe (ckey a))"
  by (simp add: fun_eq_iff cache_cmp_def cache_probe_def)

definition cache_inv :: "cache \<Rightarrow> bool" where
  "cache_inv c \<longleftrightarrow> rb_inv ckey (tree c)"

text \<open>The abstract state: what is found under a key.\<close>

definition item_at :: "cache \<Rightarrow> string \<Rightarrow> cache_item option" where
  "item_at c k = RB_FIND (cache_probe k) (tree c)"

lemma item_at_key: "cache_inv c \<Longrightarrow> item_at c k = Some i \<Longrightarrow> ckey i = k"
  unfolding cache_inv_def item_at_def by (rule ct.find_key)

lemma item_at_tree [simp]: "item_at (c\<lparr>clean_notice := n\<rparr>) = item_at c"
  by (simp add: item_at_def fun_eq_iff)

lemma cache_inv_notice [simp]: "cache_inv (c\<lparr>clean_notice := n\<rparr>) = cache_inv c"
  by (simp add: cache_inv_def)

text \<open>The parameters of a cache never change.\<close>

definition cache_params :: "cache \<Rightarrow> timestamp list" where
  "cache_params c = [min_interval c, max_interval c, default_duration c, min_duration c]"

lemma cache_params_simps [simp]:
  "cache_params (c\<lparr>tree := t\<rparr>) = cache_params c" "cache_params (c\<lparr>clean_notice := n\<rparr>) = cache_params c"
  by (simp_all add: cache_params_def)

lemma cache_create_state:
  "cache_create a b dd md mem r1 r2 = Inr c \<Longrightarrow>
     cache_inv c \<and> item_at c = Map.empty \<and> cache_params c = [a, b, dd, md]"
  using ct.inv_empty
  by (auto simp: cache_create_def cache_inv_def item_at_def cache_params_def fun_eq_iff
      split: if_splits option.splits)

text \<open>The new item a successful set leaves.\<close>

definition new_item :: "cache \<Rightarrow> timestamp \<Rightarrow> timestamp \<Rightarrow> string \<Rightarrow> value_t \<Rightarrow> timestamp \<Rightarrow> cache_item" where
  "new_item c now1 now2 k v dur =
     \<lparr>ckey = k, cvalue = Some v, modified = (if item_at c k = None then now1 else now2),
      duration = set_duration c dur\<rparr>"

lemma item_create_ok:
  "mem 0 \<Longrightarrow> mem 1 \<Longrightarrow> mem 2 \<Longrightarrow> value_ok v \<Longrightarrow>
     item_create mem now k v d =
       Ret (Some \<lparr>ckey = k, cvalue = Some v, modified = now, duration = d\<rparr>)"
  by (simp add: item_create_def value_dup_eq)

lemma item_create_cases:
  assumes "value_ok v"
  obtains (nomem) "\<not> (mem 0 \<and> mem 1 \<and> mem 2)" "item_create mem now k v d = Ret None"
  | (strdup) "mem 0" "\<not> mem 1" "item_create mem now k v d = UB"
  | (created) "mem 0" "mem 1" "mem 2" "item_create mem now k v d =
      Ret (Some \<lparr>ckey = k, cvalue = Some v, modified = now, duration = d\<rparr>)"
  using assms by (cases "mem 0"; cases "mem 1"; cases "mem 2") (auto simp: item_create_def value_dup_eq)

lemma cache_set_new:
  assumes "cache_inv c" "value_ok v" "mem 0" "mem 1" "mem 2" "item_at c k = None"
  shows "\<exists>c'. cache_set mem now1 now2 c k v dur = Ret (None, c') \<and> cache_inv c' \<and>
    cache_params c' = cache_params c \<and> item_at c' = (item_at c)(k \<mapsto> new_item c now1 now2 k v dur)"
proof -
  let ?i = "\<lparr>ckey = k, cvalue = Some v, modified = now1, duration = set_duration c dur\<rparr>"
  have inv: "rb_inv ckey (tree c)" and none: "RB_FIND (cache_probe k) (tree c) = None"
    using assms by (auto simp: cache_inv_def item_at_def)
  obtain t' where t': "rb_ins cache_probe ckey ?i (tree c) = (None, t')" "rb_inv ckey t'"
    "\<And>j. RB_FIND (cache_probe j) t' = (if j = k then Some ?i else RB_FIND (cache_probe j) (tree c))"
    using ct.fst_ins [OF inv, of ?i] ct.inv_ins [OF inv, of ?i] ct.find_ins_new [OF inv, of ?i] none
    by (cases "rb_ins cache_probe ckey ?i (tree c)") auto
  have "cache_set mem now1 now2 c k v dur = Ret (None, c\<lparr>tree := t'\<rparr>)"
    using assms t'(1) by (simp add: cache_set_def item_create_ok)
  with t'(2,3) assms(6) show ?thesis
    by (auto simp: cache_inv_def item_at_def new_item_def fun_eq_iff)
qed

lemma cache_set_old:
  assumes "cache_inv c" "value_ok v" "mem 0" "mem 1" "mem 2" "item_at c k = Some i"
  shows "\<exists>c'. cache_set mem now1 now2 c k v dur = Ret (if mem 3 then None else Some ENOMEM, c') \<and>
    cache_inv c' \<and> cache_params c' = cache_params c \<and>
    item_at c' = (item_at c)(k \<mapsto> if mem 3 then new_item c now1 now2 k v dur else i\<lparr>cvalue := None\<rparr>)"
proof -
  let ?i = "\<lparr>ckey = k, cvalue = Some v, modified = now1, duration = set_duration c dur\<rparr>"
  have inv: "rb_inv ckey (tree c)" and i: "RB_FIND (cache_probe k) (tree c) = Some i"
    using assms by (auto simp: cache_inv_def item_at_def)
  have key: "ckey i = k" by (rule ct.find_key [OF inv i])
  have ins: "rb_ins cache_probe ckey ?i (tree c) = (Some i, tree c)"
    using ct.ins_old [OF inv, of ?i] i by simp
  define f :: "cache_item \<Rightarrow> cache_item" where "f = (if mem 3 then (\<lambda>i. i\<lparr>cvalue := Some v, modified := now2, duration := set_duration c dur\<rparr>)
    else (\<lambda>i. i\<lparr>cvalue := None\<rparr>))"
  let ?t = "rb_modify (cache_probe k) f (tree c)"
  have f: "\<And>y. ckey (f y) = ckey y" by (simp add: f_def)
  have "cache_set mem now1 now2 c k v dur = Ret (if mem 3 then None else Some ENOMEM, c\<lparr>tree := ?t\<rparr>)"
    using assms ins key by (simp add: cache_set_def item_create_ok value_dup_eq f_def)
  moreover have "rb_inv ckey ?t" using ct.upd_elems [OF inv f, of k] by blast
  moreover have "RB_FIND (cache_probe j) ?t =
      (if j = k then Some (f i) else RB_FIND (cache_probe j) (tree c))" for j
    using ct.find_upd [OF inv f, of j k] i by (cases "j = k") auto
  moreover have "f i = (if mem 3 then new_item c now1 now2 k v dur else i\<lparr>cvalue := None\<rparr>)"
    using key i by (simp add: new_item_def item_at_def f_def)
  ultimately show ?thesis
    by (intro exI [of _ "c\<lparr>tree := ?t\<rparr>"]) (simp add: cache_inv_def item_at_def fun_eq_iff)
qed

lemma cache_del_item [cache_facts]:
  assumes "cache_inv c"
  shows "fst (cache_del c k) = (if item_at c k = None then Some ENOENT else None)"
    and "cache_inv (snd (cache_del c k))"
    and "item_at (snd (cache_del c k)) = (item_at c)(k := None)"
    and "cache_params (snd (cache_del c k)) = cache_params c"
proof -
  have inv: "rb_inv ckey (tree c)" using assms by (simp add: cache_inv_def)
  have "rb_inv ckey (rb_del cache_probe k (tree c)) \<and>
      (\<forall>j. RB_FIND (cache_probe j) (rb_del cache_probe k (tree c)) =
        (if j = k then None else RB_FIND (cache_probe j) (tree c)))"
    if "RB_FIND (cache_probe k) (tree c) = Some i" for i
    using ct.del_elems [OF inv, of k] ct.find_del [OF inv, of k] that by simp
  moreover have "ckey i = k" if "RB_FIND (cache_probe k) (tree c) = Some i" for i
    by (rule ct.find_key [OF inv that])
  ultimately show "fst (cache_del c k) = (if item_at c k = None then Some ENOENT else None)"
    "cache_inv (snd (cache_del c k))" "item_at (snd (cache_del c k)) = (item_at c)(k := None)"
    "cache_params (snd (cache_del c k)) = cache_params c"
    using inv by (auto simp: cache_del_def cache_inv_def item_at_def fun_eq_iff split: option.split)
qed

lemma cache_cleaner_item [cache_facts]:
  fixes noticed :: bool and now1 now2 lst :: timestamp
  assumes "cache_inv c"
  defines "r \<equiv> cache_cleaner noticed now1 now2 (c, lst)"
  shows "cache_inv (fst r)" "cache_params (fst r) = cache_params c"
    and "item_at (fst r) = item_at c \<and> snd r = lst \<or>
      item_at (fst r) = (\<lambda>k. case item_at c k of
          None \<Rightarrow> None | Some i \<Rightarrow> if duration_is_outdate i now2 then None else Some i) \<and> snd r = now2"
proof -
  have inv: "rb_inv ckey (tree c)" using assms by (simp add: cache_inv_def)
  note sweep = ct.sweep_elems [OF inv, THEN conjunct1] ct.find_sweep [OF inv]
  show "cache_inv (fst r)" "cache_params (fst r) = cache_params c"
    using inv sweep(1) by (auto simp: r_def cache_cleaner_def cache_inv_def Let_def)
  show "item_at (fst r) = item_at c \<and> snd r = lst \<or>
      item_at (fst r) = (\<lambda>k. case item_at c k of
          None \<Rightarrow> None | Some i \<Rightarrow> if duration_is_outdate i now2 then None else Some i) \<and> snd r = now2"
    using sweep(2) by (auto simp: r_def cache_cleaner_def item_at_def Let_def fun_eq_iff)
qed

text \<open>What a client sees of a get: its result, without the state.\<close>

definition get_res :: "bool \<Rightarrow> timestamp \<Rightarrow> cache \<Rightarrow> string \<Rightarrow> (errno + value_t \<times> timestamp) c_out" where
  "get_res mem now c k = c_bind (cache_get mem now c k) (\<lambda>(r, _). Ret r)"

lemma get_res_item:
  "get_res mem now c k =
     (case item_at c k of
        None \<Rightarrow> Ret (Inl ENOENT)
      | Some i \<Rightarrow>
          if duration_is_outdate i now then Ret (Inl ENOENT)
          else case cvalue i of
              None \<Rightarrow> UB
            | Some v0 \<Rightarrow>
                (case value_dup mem v0 of
                   None \<Rightarrow> Ret (Inl ENOMEM)
                 | Some v \<Rightarrow> Ret (Inr (v,
                     if duration i = DURATION_INF then DURATION_INF
                     else max (min_duration c) (i64 (duration i - i64 (now - modified i)))))))"
  by (auto simp: get_res_def cache_get_def item_at_def Let_def max_def split: option.split)

lemma get_res_cong:
  "item_at c' k = item_at c k \<Longrightarrow> cache_params c' = cache_params c \<Longrightarrow>
     get_res mem now c' k = get_res mem now c k"
  by (auto simp: get_res_item cache_params_def split: option.split)

lemma cache_get_state [cache_facts]:
  assumes "cache_get mem now c k = Ret (r, c')"
  shows "item_at c' = item_at c" "cache_params c' = cache_params c" "cache_inv c' = cache_inv c"
  using assms by (auto simp: cache_get_def Let_def split: option.splits if_splits)

lemma cache_set_ok:
  assumes "cache_inv c" "value_ok v"
  shows "\<exists>c'. cache_set mem_ok now1 now2 c k v dur = Ret (None, c') \<and> cache_inv c' \<and>
    cache_params c' = cache_params c \<and> item_at c' = (item_at c)(k \<mapsto> new_item c now1 now2 k v dur)"
  using cache_set_new [OF assms, of mem_ok k] cache_set_old [OF assms, of mem_ok k]
  by (cases "item_at c k") auto

lemma outdate_new_item:
  assumes "D \<noteq> DURATION_INF \<longrightarrow> in_i64 (t + D)"
  shows "duration_is_outdate \<lparr>ckey = k, cvalue = v, modified = t, duration = D\<rparr> now \<longleftrightarrow>
     D \<noteq> DURATION_INF \<and> t + D \<le> now"
  using assms by (auto simp: duration_is_outdate_def)

lemma remain_in_range:
  assumes "0 \<le> t" "t \<le> now" "in_i64 now" "in_i64 D" "now < t + D"
  shows "i64 (D - i64 (now - t)) = D - (now - t)"
  using assms by (simp add: in_i64_def)

section \<open>Properties\<close>

text \<open>
  C18: after a successful set of a key, with the clock at \<open>t\<close> and \<open>D\<close> the effective duration (the
  default for 0, otherwise at least the minimum), a get returns exactly that value until
  \<open>t + D\<close>, with the remaining duration raised to the minimum, and \<open>ENOENT\<close> from then on (never,
  for the infinite duration); gets of every other key are not affected.
\<close>

theorem cache_set_get:
  assumes "cache_inv c" "value_ok v" "0 \<le> t" "t \<le> now" "in_i64 now"
    and "in_i64 (set_duration c dur)" "set_duration c dur \<noteq> DURATION_INF \<longrightarrow> in_i64 (t + set_duration c dur)"
  shows "\<exists>c'. cache_set mem_ok t t c k v dur = Ret (None, c') \<and> cache_inv c' \<and>
    get_res True now c' k =
      (if set_duration c dur = DURATION_INF then Ret (Inr (v, DURATION_INF))
       else if t + set_duration c dur \<le> now then Ret (Inl ENOENT)
       else Ret (Inr (v, max (min_duration c) (set_duration c dur - (now - t))))) \<and>
    (\<forall>j. j \<noteq> k \<longrightarrow> get_res True now c' j = get_res True now c j)"
proof -
  obtain c' where c': "cache_set mem_ok t t c k v dur = Ret (None, c')" "cache_inv c'"
    "cache_params c' = cache_params c" "item_at c' = (item_at c)(k \<mapsto> new_item c t t k v dur)"
    using cache_set_ok [OF assms(1,2)] by blast
  have item: "new_item c t t k v dur = \<lparr>ckey = k, cvalue = Some v, modified = t, duration = set_duration c dur\<rparr>"
    by (simp add: new_item_def)
  have "min_duration c' = min_duration c" using c'(3) by (simp add: cache_params_def)
  then have "get_res True now c' k =
      (if set_duration c dur = DURATION_INF then Ret (Inr (v, DURATION_INF))
       else if t + set_duration c dur \<le> now then Ret (Inl ENOENT)
       else Ret (Inr (v, max (min_duration c) (set_duration c dur - (now - t)))))"
    using remain_in_range [OF assms(3-6)] assms(2)
    by (simp add: get_res_item c'(4) item outdate_new_item [OF assms(7)] value_dup_eq)
  moreover have "get_res True now c' j = get_res True now c j" if "j \<noteq> k" for j
    using that c'(3,4) by (intro get_res_cong) simp_all
  ultimately show ?thesis using c'(1,2) by blast
qed

lemma empty_cache: "cache_inv \<lparr>tree = Null, min_interval = a, max_interval = b, default_duration = dd,
    min_duration = md, clean_notice = n\<rparr>"
  using ct.inv_empty by (simp add: cache_inv_def)

theorem cache_set_get_witness:
  "\<exists>c'. cache_set mem_ok 5 5 \<lparr>tree = Null, min_interval = 1, max_interval = 9, default_duration = 100,
        min_duration = 10, clean_notice = 0\<rparr> ''k'' \<lparr>vtype = 1, vlength = 0, vdata = []\<rparr> 3 = Ret (None, c') \<and>
     get_res True 14 c' ''k'' = Ret (Inr (\<lparr>vtype = 1, vlength = 0, vdata = []\<rparr>, 10))"
  using cache_set_get [OF empty_cache, of "\<lparr>vtype = 1, vlength = 0, vdata = []\<rparr>" 5 14 1 9 100 10 0 3 "''k''"]
  by (auto simp: value_ok_def set_duration_def in_i64_def)

text \<open>
  C20: a turn of the cleaner is invisible: at every later time each get gives the same result
  before and after it, and the tree stays a balanced tree sorted by key.
\<close>

theorem cache_cleaner_transparent:
  assumes "cache_inv c" "now2 \<le> now"
  shows "cache_inv (fst (cache_cleaner noticed now1 now2 (c, lst))) \<and>
    get_res mem now (fst (cache_cleaner noticed now1 now2 (c, lst))) k = get_res mem now c k"
proof -
  let ?c = "fst (cache_cleaner noticed now1 now2 (c, lst))"
  note facts = cache_cleaner_item [OF assms(1), of noticed now1 now2 lst]
  have "item_at ?c k = item_at c k \<or>
      (\<exists>i. item_at c k = Some i \<and> duration_is_outdate i now2 \<and> item_at ?c k = None)"
    using facts(3) by (auto split: option.splits)
  moreover have "duration_is_outdate i now2 \<Longrightarrow> duration_is_outdate i now" for i
    using assms(2) by (simp add: duration_is_outdate_def)
  ultimately have "get_res mem now ?c k = get_res mem now c k"
    using get_res_cong [OF _ facts(2)] by (auto simp: get_res_item)
  with facts(1) show ?thesis by blast
qed

theorem cache_cleaner_transparent_witness:
  "get_res True 20 (fst (cache_cleaner True 8 9 (\<lparr>tree = Null, min_interval = 1, max_interval = 9,
     default_duration = 100, min_duration = 10, clean_notice = 1\<rparr>, 0))) ''k'' = Ret (Inl ENOENT)"
  using cache_cleaner_transparent [OF empty_cache, of 9 20 True 8 1 9 100 10 1 0 True "''k''"]
  by (simp add: get_res_item item_at_def)

text \<open>
  Deleting reports \<open>ENOENT\<close> exactly for a key that is not there, afterwards the key is gone
  and a get of it gives \<open>ENOENT\<close> at any time, and gets of the other keys are not affected.
\<close>

theorem cache_del_get:
  assumes "cache_inv c"
  shows "cache_inv (snd (cache_del c k)) \<and>
    fst (cache_del c k) = (if item_at c k = None then Some ENOENT else None) \<and>
    get_res mem now (snd (cache_del c k)) k = Ret (Inl ENOENT) \<and>
    (\<forall>j. j \<noteq> k \<longrightarrow> get_res mem now (snd (cache_del c k)) j = get_res mem now c j)"
  using cache_del_item [OF assms, of k]
  by (auto simp: get_res_item [of _ _ _ k] intro!: get_res_cong)

theorem cache_del_get_witness:
  "fst (cache_del \<lparr>tree = Null, min_interval = 1, max_interval = 9, default_duration = 100,
     min_duration = 10, clean_notice = 0\<rparr> ''k'') = Some ENOENT"
  using cache_del_get [OF empty_cache, of 1 9 100 10 0 "''k''"] by (simp add: item_at_def)

section \<open>Runs\<close>

text \<open>
  The states a cache goes through, with the cleaner's \<open>last\<close> and the clock: the lock makes each
  operation one step, the operations and the cleaner's turns come in any order, the clock does not
  go back. \<open>oom\<close> says whether allocations may fail in a set.
\<close>

inductive cache_reach :: "bool \<Rightarrow> cache \<Rightarrow> timestamp \<Rightarrow> timestamp \<Rightarrow> bool" for oom :: bool where
  create: "cache_create mi ma dd md True None None = Inr c \<Longrightarrow> 0 \<le> now \<Longrightarrow> cache_reach oom c 0 now"
| tick: "cache_reach oom c lst now \<Longrightarrow> now \<le> now' \<Longrightarrow> cache_reach oom c lst now'"
| get: "cache_reach oom c lst now \<Longrightarrow> cache_get mem now c k = Ret (r, c') \<Longrightarrow> cache_reach oom c' lst now"
| set: "cache_reach oom c lst now \<Longrightarrow> value_ok v \<Longrightarrow> now1 \<le> now \<Longrightarrow> oom \<or> mem = mem_ok \<Longrightarrow>
    cache_set mem now1 now c k v dur = Ret (r, c') \<Longrightarrow> cache_reach oom c' lst now"
| del: "cache_reach oom c lst now \<Longrightarrow> cache_del c k = (r, c') \<Longrightarrow> cache_reach oom c' lst now"
| clean: "cache_reach oom c lst now \<Longrightarrow> (noticed \<longrightarrow> 0 < clean_notice c) \<Longrightarrow> now1 \<le> now \<Longrightarrow>
    cache_cleaner noticed now1 now (c, lst) = (c', lst') \<Longrightarrow> cache_reach oom c' lst' now"

definition item_good :: "bool \<Rightarrow> cache \<Rightarrow> timestamp \<Rightarrow> string \<Rightarrow> cache_item \<Rightarrow> bool" where
  "item_good oom c now k i \<longleftrightarrow>
     ckey i = k \<and> modified i \<le> now \<and>
     (duration i = default_duration c \<or> min_duration c \<le> duration i) \<and>
     (case cvalue i of None \<Rightarrow> oom | Some v \<Rightarrow> value_ok v)"

definition cache_good :: "bool \<Rightarrow> cache \<Rightarrow> timestamp \<Rightarrow> timestamp \<Rightarrow> bool" where
  "cache_good oom c lst now \<longleftrightarrow>
     cache_inv c \<and> lst \<le> now \<and> (\<forall>k i. item_at c k = Some i \<longrightarrow> item_good oom c now k i)"

lemma item_good_cong:
  "cache_params c' = cache_params c \<Longrightarrow> item_good oom c' now k i = item_good oom c now k i"
  by (simp add: item_good_def cache_params_def)

lemma item_good_new:
  "value_ok v \<Longrightarrow> now1 \<le> now \<Longrightarrow> item_good oom c now k (new_item c now1 now k v dur)"
  by (simp add: item_good_def new_item_def set_duration_def)

lemma cache_good_update:
  assumes "cache_good oom c lst now" "cache_inv c'" "cache_params c' = cache_params c" "lst' \<le> now"
    and "\<And>j i. item_at c' j = Some i \<Longrightarrow> item_at c j = Some i \<or> item_good oom c now j i"
  shows "cache_good oom c' lst' now"
  using assms unfolding cache_good_def by (metis item_good_cong)

lemma cache_good_set:
  assumes good: "cache_good oom c lst now" and v: "value_ok v" and t: "now1 \<le> now"
    and mem: "oom \<or> mem = mem_ok" and set: "cache_set mem now1 now c k v dur = Ret (r, c')"
  shows "cache_good oom c' lst now"
proof -
  have inv: "cache_inv c" and lst: "lst \<le> now" using good by (auto simp: cache_good_def)
  from v show ?thesis
  proof (cases rule: item_create_cases [of v mem now1 k "set_duration c dur"])
    case nomem
    with set good show ?thesis by (simp add: cache_set_def)
  next
    case strdup
    with set show ?thesis by (simp add: cache_set_def)
  next
    case created
    show ?thesis
    proof (cases "item_at c k")
      case None
      with cache_set_new [OF inv v created(1-3) None, of now1 now dur] set
      have "cache_inv c'" "cache_params c' = cache_params c"
        "item_at c' = (item_at c)(k \<mapsto> new_item c now1 now k v dur)" by auto
      with good lst item_good_new [OF v t] show ?thesis
        by (intro cache_good_update [OF good]) (auto split: if_splits)
    next
      case (Some i)
      then have "item_good oom c now k i" using good by (simp add: cache_good_def)
      then have old: "oom \<Longrightarrow> item_good oom c now k (i\<lparr>cvalue := None\<rparr>)" by (simp add: item_good_def)
      from cache_set_old [OF inv v created(1-3) Some, of now1 now dur] set
      have "cache_inv c'" "cache_params c' = cache_params c" "item_at c' = (item_at c)
          (k \<mapsto> if mem 3 then new_item c now1 now k v dur else i\<lparr>cvalue := None\<rparr>)" by auto
      with good lst item_good_new [OF v t] old mem show ?thesis
        by (intro cache_good_update [OF good]) (auto split: if_splits)
    qed
  qed
qed

lemma cache_reach_good: "cache_reach oom c lst now \<Longrightarrow> cache_good oom c lst now"
proof (induction rule: cache_reach.induct)
  case (create mi ma dd md c now)
  then show ?case using cache_create_state [OF create(1)] by (simp add: cache_good_def)
next
  case (tick c lst now now')
  have "item_good oom c now k i \<Longrightarrow> item_good oom c now' k i" for k i
    using tick(2) by (auto simp: item_good_def)
  with tick show ?case by (auto simp: cache_good_def)
next
  case (get c lst now mem k r c')
  then show ?case
    using cache_get_state [OF get(2)] by (intro cache_good_update [OF get.IH]) (auto simp: cache_good_def)
next
  case (set c lst now v now1 mem k dur r c')
  show ?case by (rule cache_good_set [OF set.IH set.hyps(2-5)])
next
  case (del c lst now k r c')
  then have inv: "cache_inv c" by (simp add: cache_good_def)
  show ?case
    using cache_del_item [OF inv, of k] del
    by (intro cache_good_update [OF del.IH]) (auto simp: cache_good_def split: if_splits)
next
  case (clean c lst now noticed now1 c' lst')
  then have inv: "cache_inv c" by (simp add: cache_good_def)
  show ?case
    using cache_cleaner_item [OF inv, of noticed now1 now lst] clean
    by (intro cache_good_update [OF clean.IH]) (auto simp: cache_good_def split: option.splits if_splits)
qed

text \<open>
  In every run in which allocations succeed, at every moment: the tree is balanced and sorted,
  every item lies under its own key, was modified in the past and lasts the default duration or at
  least the minimum, and a get of any key gives \<open>ENOENT\<close> or a well-formed value, never undefined
  behaviour.
\<close>

theorem cache_reach_safe:
  assumes "cache_reach False c lst now"
  shows "cache_good False c lst now \<and>
    (get_res True now' c k = Ret (Inl ENOENT) \<or>
     (\<exists>v d. get_res True now' c k = Ret (Inr (v, d)) \<and> value_ok v \<and> (d = DURATION_INF \<or> min_duration c \<le> d)))"
proof -
  have good: "cache_good False c lst now" using assms by (rule cache_reach_good)
  have "item_at c k = Some i \<Longrightarrow> \<exists>v. cvalue i = Some v \<and> value_ok v" for i
    using good unfolding cache_good_def item_good_def by (metis option.case_eq_if option.collapse)
  then show ?thesis
    using good by (auto simp: get_res_item value_dup_eq split: option.split)
qed

theorem cache_reach_safe_witness:
  "cache_good False \<lparr>tree = Null, min_interval = 1, max_interval = 9, default_duration = 100,
     min_duration = 10, clean_notice = 0\<rparr> 0 7"
  using cache_reach_safe [OF cache_reach.create
    [of 1 9 100 10 "\<lparr>tree = Null, min_interval = 1, max_interval = 9, default_duration = 100,
       min_duration = 10, clean_notice = 0\<rparr>" 7]]
  by (simp add: cache_create_def)

text \<open>
  An allocation failure while an item is replaced leaves the item in the tree with a NULL
  value: the set reports \<open>ENOMEM\<close>, and the next get of that key while the old item lasts
  dereferences the NULL pointer.
\<close>

theorem cache_set_failed_replace:
  assumes "cache_inv c" "value_ok v" "item_at c k = Some i" "\<not> duration_is_outdate i now"
  shows "\<exists>c'. cache_set (\<lambda>n. n \<noteq> 3) now1 now2 c k v dur = Ret (Some ENOMEM, c') \<and>
    get_res mem now c' k = UB"
proof -
  from cache_set_old [OF assms(1,2) _ _ _ assms(3), of "\<lambda>n. n \<noteq> 3" now1 now2 dur]
  obtain c' where "cache_set (\<lambda>n. n \<noteq> 3) now1 now2 c k v dur = Ret (Some ENOMEM, c')"
    "item_at c' k = Some (i\<lparr>cvalue := None\<rparr>)" by auto
  with assms(4) show ?thesis by (simp add: get_res_item duration_is_outdate_def)
qed

abbreviation one_item :: cache where
  "one_item \<equiv> \<lparr>tree = Node False False Null \<lparr>ckey = ''k'', cvalue = Some \<lparr>vtype = 1, vlength = 0, vdata = []\<rparr>,
     modified = 3, duration = 50\<rparr> Null, min_interval = 1, max_interval = 9, default_duration = 100,
     min_duration = 10, clean_notice = 0\<rparr>"

lemma one_item_inv: "cache_inv one_item"
proof -
  have "ranked 1 (tree one_item)" by simp
  then have "balanced (tree one_item)" unfolding balanced_def by blast
  then show ?thesis by (simp add: cache_inv_def rb_inv_def)
qed

theorem cache_set_failed_replace_witness:
  "\<exists>c'. cache_set (\<lambda>n. n \<noteq> 3) 9 9 one_item ''k'' \<lparr>vtype = 1, vlength = 0, vdata = []\<rparr> 0 = Ret (Some ENOMEM, c') \<and>
     get_res True 10 c' ''k'' = UB"
  by (rule cache_set_failed_replace [OF one_item_inv])
    (auto simp: value_ok_def item_at_def cache_probe_def duration_is_outdate_def in_i64_def)

end
