(* ===== verification/Route.thy ===== *)
theory Route
  imports Storage "HOL-Library.Multiset"
begin

text \<open>
  The route table, \<^verbatim>\<open>lib/route.c\<close>: a list of storages, newest first, each with the prefix patterns it
  serves and a count of the references handed out by \<^verbatim>\<open>route_match\<close>. An item lives at an address;
  \<^verbatim>\<open>route_deref\<close> gets back to the item from the pointer to the storage inside it, so a reference is
  the address of its item. The rwlock makes the operations on the list atomic; the reference count
  is an atomic of its own.
\<close>

section \<open>State and operations\<close>

record 'w route_item =
  addr :: nat
  storage :: "'w storage_ctx"
  prefix :: "string list"
  nref :: int

abbreviation rname :: "'w route_item \<Rightarrow> string" where
  "rname i \<equiv> sname (storage i)"

type_synonym 'w route_list = "'w route_item list"

text \<open>\<open>a\<close> is the address \<^verbatim>\<open>malloc\<close> returns.\<close>

definition route_item_create ::
  "alloc \<Rightarrow> nat \<Rightarrow> 'w storage_ctx \<Rightarrow> nat \<Rightarrow> string option list option \<Rightarrow> 'w route_item option c_out" where
  "route_item_create mem a st num_prefix prefixes =
     (if \<not> mem 0 then Ret None
      else c_bind (arraydup_cstring (\<lambda>i. mem (i + 1)) prefixes num_prefix) (\<lambda>r.
        case r of
          None \<Rightarrow> Ret None
        | Some ps \<Rightarrow> Ret (Some \<lparr>addr = a, storage = st, prefix = ps, nref = 0\<rparr>)))"

definition route_item_destroy :: "'w route_item \<Rightarrow> 'w \<Rightarrow> 'w" where
  "route_item_destroy i w = storage_destructor (storage i) w"

definition route_create :: "bool \<Rightarrow> errno option \<Rightarrow> errno + 'w route_list" where
  "route_create mem rwlock_init =
     (if \<not> mem then Inl ENOMEM else case rwlock_init of Some e \<Rightarrow> Inl e | None \<Rightarrow> Inr [])"

text \<open>The \<^verbatim>\<open>assert\<close> that the table is empty.\<close>

definition route_destroy :: "'w route_list \<Rightarrow> unit c_out" where
  "route_destroy route = (if route = [] then Ret () else UB)"

definition route_init :: "'w route_list \<Rightarrow> 'w route_list \<Rightarrow> 'w route_list" where
  "route_init route l = l"

text \<open>\<^verbatim>\<open>__route_register\<close>, which \<^verbatim>\<open>route_register\<close> calls under the write lock.\<close>

definition route_register ::
  "alloc \<Rightarrow> nat \<Rightarrow> 'w route_list \<Rightarrow> 'w storage_ctx \<Rightarrow> nat \<Rightarrow> string option list option \<Rightarrow>
   (errno option \<times> 'w route_list) c_out" where
  "route_register mem a route st num_prefix prefixes =
     (if \<exists>temp \<in> set route. strcmp (rname temp) (sname st) = 0 then Ret (Some EEXIST, route)
      else c_bind (route_item_create mem a st num_prefix prefixes) (\<lambda>r.
        case r of
          None \<Rightarrow> Ret (Some ENOMEM, route)
        | Some item \<Rightarrow> Ret (None, item # route)))"

text \<open>\<^verbatim>\<open>LIST_FOREACH\<close> to the first item with the name, and its removal.\<close>

fun list_remove :: "nat \<Rightarrow> 'w route_list \<Rightarrow> 'w route_list" where
  "list_remove a [] = []"
| "list_remove a (i # is) = (if addr i = a then is else i # list_remove a is)"

definition route_unregister1 :: "'w route_list \<Rightarrow> string \<Rightarrow> 'w \<Rightarrow> errno option \<times> 'w route_list \<times> 'w" where
  "route_unregister1 route name w =
     (case List.find (\<lambda>i. strcmp (rname i) name = 0) route of
        None \<Rightarrow> (Some ENOENT, route, w)
      | Some item \<Rightarrow>
          if nref item \<noteq> 0 then (Some EBUSY, route, w)
          else (None, list_remove (addr item) route, route_item_destroy item w))"

lemma length_list_remove: "i \<in> set route \<Longrightarrow> length (list_remove (addr i) route) < length route"
  by (induction route) auto

lemma find_in_set: "List.find P xs = Some x \<Longrightarrow> x \<in> set xs \<and> P x"
  by (metis find_Some_iff nth_mem)

lemma route_unregister1_shrinks:
  "route_unregister1 route name w = (None, route', w') \<Longrightarrow> length route' < length route"
  by (auto simp: route_unregister1_def length_list_remove dest!: find_in_set split: option.splits if_splits)

text \<open>The loop for a NULL name: the first item, until the list is empty or one is busy.\<close>

function route_unregister_all :: "'w route_list \<Rightarrow> 'w \<Rightarrow> errno option \<times> 'w route_list \<times> 'w" where
  "route_unregister_all route w =
     (if route = [] then (None, route, w)
      else case route_unregister1 route (rname (hd route)) w of
          (None, route', w') \<Rightarrow> route_unregister_all route' w'
        | (Some e, route', w') \<Rightarrow> (Some e, route', w'))"
  by pat_completeness auto
termination
  by (relation "measure (\<lambda>(route, w). length route)") (auto dest: route_unregister1_shrinks [OF sym])

declare route_unregister_all.simps [simp del]

definition route_unregister ::
  "'w route_list \<Rightarrow> string option \<Rightarrow> 'w \<Rightarrow> errno option \<times> 'w route_list \<times> 'w" where
  "route_unregister route name w =
     (case name of Some n \<Rightarrow> route_unregister1 route n w | None \<Rightarrow> route_unregister_all route w)"

text \<open>
  \<^verbatim>\<open>route_match\<close>: the first item one of whose patterns matches; its reference count is raised when
  the caller asks for the storage (\<open>ref\<close>).
\<close>

fun route_match :: "bool \<Rightarrow> 'w route_list \<Rightarrow> string \<Rightarrow> (errno + nat) \<times> 'w route_list" where
  "route_match ref [] key = (Inl ENOENT, [])"
| "route_match ref (item # route) key =
     (if \<exists>p \<in> set (prefix item). prefix_match p key then
        (Inr (addr item), (if ref then item\<lparr>nref := nref item + 1\<rparr> else item) # route)
      else
        let (r, route') = route_match ref route key in (r, item # route'))"

text \<open>A reference to an item that was freed is a use after free.\<close>

fun route_deref :: "nat \<Rightarrow> 'w route_list \<Rightarrow> 'w route_list c_out" where
  "route_deref a [] = UB"
| "route_deref a (item # route) =
     (if addr item = a then Ret (item\<lparr>nref := nref item - 1\<rparr> # route)
      else c_bind (route_deref a route) (\<lambda>route'. Ret (item # route')))"

section \<open>Lemmas\<close>

definition route_ok :: "'w route_list \<Rightarrow> bool" where
  "route_ok route \<longleftrightarrow> distinct (map addr route) \<and> distinct (map rname route)"

definition serves :: "string \<Rightarrow> 'w route_item \<Rightarrow> bool" where
  "serves key i \<longleftrightarrow> (\<exists>p \<in> set (prefix i). prefix_match p key)"

definition bump :: "nat \<Rightarrow> int \<Rightarrow> 'w route_item \<Rightarrow> 'w route_item" where
  "bump a d i = (if addr i = a then i\<lparr>nref := nref i + d\<rparr> else i)"

lemma bump_simps [simp]:
  "addr (bump a d i) = addr i" "storage (bump a d i) = storage i" "prefix (bump a d i) = prefix i"
  "nref (bump a d i) = (if addr i = a then nref i + d else nref i)"
  by (simp_all add: bump_def)

lemma map_bump [simp]:
  "map addr (map (bump a d) route) = map addr route" "map rname (map (bump a d) route) = map rname route"
  by (simp_all add: comp_def)

lemma image_bump [simp]: "addr ` bump a d ` S = addr ` S"
  by (simp add: image_image)

lemma route_ok_bump [simp]: "route_ok (map (bump a d) route) = route_ok route"
  by (simp add: route_ok_def comp_def)

lemma bump_absent: "a \<notin> addr ` set route \<Longrightarrow> map (bump a d) route = route"
  by (induction route) (auto simp: bump_def)

lemma route_match_fst [route_facts]:
  "fst (route_match ref route key) =
     (case List.find (serves key) route of None \<Rightarrow> Inl ENOENT | Some i \<Rightarrow> Inr (addr i))"
  by (induction route) (auto simp: serves_def case_prod_beta)

lemma route_match_snd [route_facts]:
  "distinct (map addr route) \<Longrightarrow>
     snd (route_match ref route key) =
       (case List.find (serves key) route of
          None \<Rightarrow> route | Some i \<Rightarrow> if ref then map (bump (addr i) 1) route else route)"
proof (induction route)
  case (Cons i route)
  show ?case
  proof (cases "serves key i")
    case True
    with Cons.prems bump_absent [of "addr i" route 1] show ?thesis
      by (auto simp: serves_def bump_def [of _ _ i])
  next
    case False
    with Cons show ?thesis
      by (auto simp: serves_def case_prod_beta bump_def [of _ _ i] dest!: find_in_set split: option.split)
  qed
qed simp

lemma route_deref_eq [route_facts]:
  "distinct (map addr route) \<Longrightarrow>
     route_deref a route = (if a \<in> addr ` set route then Ret (map (bump a (- 1)) route) else UB)"
proof (induction route)
  case (Cons i route)
  then show ?case using bump_absent [of a route "- 1"] by (auto simp: bump_def [of _ _ i])
qed simp

lemma list_remove_filter [route_facts]:
  "distinct (map addr route) \<Longrightarrow> list_remove a route = filter (\<lambda>i. addr i \<noteq> a) route"
proof (induction route)
  case (Cons i route)
  moreover have "a \<notin> addr ` set route \<Longrightarrow> filter (\<lambda>i. addr i \<noteq> a) route = route"
    by (rule filter_True) force
  ultimately show ?case by auto
qed simp

lemma route_ok_filter: "route_ok route \<Longrightarrow> route_ok (filter P route)"
  by (simp add: route_ok_def distinct_map_filter)

lemma route_ok_addr_inj: "route_ok route \<Longrightarrow> i \<in> set route \<Longrightarrow> j \<in> set route \<Longrightarrow> addr i = addr j \<Longrightarrow> i = j"
  by (auto simp: route_ok_def distinct_map dest: inj_onD)

lemma route_ok_name_inj: "route_ok route \<Longrightarrow> i \<in> set route \<Longrightarrow> j \<in> set route \<Longrightarrow> rname i = rname j \<Longrightarrow> i = j"
  by (auto simp: route_ok_def distinct_map dest: inj_onD)

lemma find_name:
  "route_ok route \<Longrightarrow> List.find (\<lambda>i. strcmp (rname i) n = 0) route = Some i \<longleftrightarrow> i \<in> set route \<and> rname i = n"
proof (induction route)
  case (Cons j route)
  then have "route_ok route" "rname j \<notin> rname ` set route" by (auto simp: route_ok_def)
  with Cons.IH show ?case by (auto simp: image_iff)
qed simp

lemma unregister1_cases [consumes 1, case_names missing busy removed]:
  assumes "route_ok route"
  obtains "\<forall>i \<in> set route. rname i \<noteq> n" "route_unregister1 route n w = (Some ENOENT, route, w)"
  | i where "i \<in> set route" "rname i = n" "nref i \<noteq> 0" "route_unregister1 route n w = (Some EBUSY, route, w)"
  | i where "i \<in> set route" "rname i = n" "nref i = 0"
    "route_unregister1 route n w = (None, filter (\<lambda>j. addr j \<noteq> addr i) route, route_item_destroy i w)"
proof (cases "List.find (\<lambda>i. strcmp (rname i) n = 0) route")
  case None
  then have "\<forall>i \<in> set route. rname i \<noteq> n" by (auto simp: find_None_iff)
  with None that(1) show ?thesis by (simp add: route_unregister1_def)
next
  case (Some i)
  then have "i \<in> set route" "rname i = n" using find_name [OF assms] by auto
  moreover have "list_remove (addr i) route = filter (\<lambda>j. addr j \<noteq> addr i) route"
    using assms by (simp add: list_remove_filter route_ok_def)
  ultimately show ?thesis
    using Some that(2) [of i] that(3) [of i] by (cases "nref i = 0") (simp_all add: route_unregister1_def)
qed

section \<open>References\<close>

text \<open>
  The table together with the references its clients hold: \<^verbatim>\<open>route_match\<close> hands one out,
  \<^verbatim>\<open>route_deref\<close> gives one back. A new item gets an address that is not in use.
\<close>

record 'w route_sys =
  table :: "'w route_list"
  world :: "'w"
  refs :: "nat multiset"

inductive route_step :: "'w route_sys \<Rightarrow> 'w route_sys \<Rightarrow> bool" where
  register: "a \<notin> addr ` set (table s) \<Longrightarrow> route_register mem a (table s) st num ps = Ret (r, t') \<Longrightarrow>
    route_step s (s\<lparr>table := t'\<rparr>)"
| unregister: "route_unregister (table s) name (world s) = (r, t', w') \<Longrightarrow>
    route_step s (s\<lparr>table := t', world := w'\<rparr>)"
| matched: "route_match True (table s) key = (Inr a, t') \<Longrightarrow>
    route_step s (s\<lparr>table := t', refs := add_mset a (refs s)\<rparr>)"
| unmatched: "route_match True (table s) key = (Inl e, t') \<Longrightarrow> route_step s (s\<lparr>table := t'\<rparr>)"
| deref: "a \<in># refs s \<Longrightarrow> route_deref a (table s) = Ret t' \<Longrightarrow>
    route_step s (s\<lparr>table := t', refs := refs s - {#a#}\<rparr>)"
| use: "route_step s (s\<lparr>world := w'\<rparr>)"

definition refs_inv :: "nat multiset \<Rightarrow> 'w route_list \<Rightarrow> bool" where
  "refs_inv R route \<longleftrightarrow>
     route_ok route \<and> (\<forall>i \<in> set route. nref i = int (count R (addr i))) \<and> set_mset R \<subseteq> addr ` set route"

lemma route_register_cases:
  assumes "route_register mem a route st num ps = Ret (r, route')"
  obtains (failed) "r \<noteq> None" "route' = route"
  | (added) qs where "r = None" "route' = \<lparr>addr = a, storage = st, prefix = qs, nref = 0\<rparr> # route"
      "\<forall>i \<in> set route. rname i \<noteq> sname st"
      "arraydup_cstring (\<lambda>i. mem (i + 1)) ps num = Ret (Some qs)"
  using assms by (auto simp: route_register_def route_item_create_def split: if_splits option.splits)

lemma refs_inv_register:
  assumes inv: "refs_inv R route" and a: "a \<notin> addr ` set route"
    and reg: "route_register mem a route st num ps = Ret (r, route')"
  shows "refs_inv R route'"
  using reg
proof (cases rule: route_register_cases)
  case (added qs)
  have "count R a = 0" using inv a by (auto simp: refs_inv_def count_eq_zero_iff)
  moreover have "sname st \<notin> rname ` set route" using added(3) by fastforce
  ultimately show ?thesis using inv a added(2) by (auto simp: refs_inv_def route_ok_def)
qed (use inv in simp)

lemma refs_inv_unregister1:
  assumes "refs_inv R route" "route_unregister1 route n w = (r, route', w')"
  shows "refs_inv R route'"
proof -
  have ok: "route_ok route" using assms(1) by (simp add: refs_inv_def)
  then show ?thesis
  proof (cases rule: unregister1_cases [of route n w])
    case (removed i)
    then have "count R (addr i) = 0" using assms(1) by (auto simp: refs_inv_def)
    then have "addr i \<notin># R" by (simp add: count_eq_zero_iff)
    with removed assms ok show ?thesis
      by (force simp: refs_inv_def route_ok_filter)
  qed (use assms in auto)
qed

lemma refs_inv_unregister_all:
  "refs_inv R route \<Longrightarrow> route_unregister_all route w = (r, route', w') \<Longrightarrow> refs_inv R route'"
proof (induction route w arbitrary: r route' w' rule: route_unregister_all.induct)
  case (1 route w)
  show ?case
  proof (cases "route = []")
    case False
    obtain r1 route1 w1 where u: "route_unregister1 route (rname (hd route)) w = (r1, route1, w1)"
      by (cases "route_unregister1 route (rname (hd route)) w") auto
    with 1 False show ?thesis
      using refs_inv_unregister1 [OF "1.prems"(1) u]
      by (cases r1) (auto simp: route_unregister_all.simps [of route])
  qed (use 1 in \<open>simp add: route_unregister_all.simps\<close>)
qed

lemma refs_inv_match:
  assumes "refs_inv R route" "route_match True route key = (Inr a, route')"
  shows "refs_inv (add_mset a R) route'"
proof -
  have d: "distinct (map addr route)" using assms(1) by (simp add: refs_inv_def route_ok_def)
  obtain i where i: "List.find (serves key) route = Some i" "a = addr i" "route' = map (bump (addr i) 1) route"
    using route_match_fst [of True route key] route_match_snd [OF d, of True key] assms(2)
    by (auto split: option.splits)
  with find_in_set [OF i(1)] assms(1) show ?thesis by (auto simp: refs_inv_def)
qed

lemma refs_inv_deref:
  assumes "refs_inv R route" "a \<in># R"
  shows "\<exists>route'. route_deref a route = Ret route' \<and> refs_inv (R - {#a#}) route'"
proof -
  have "distinct (map addr route)" "a \<in> addr ` set route"
    using assms by (auto simp: refs_inv_def route_ok_def)
  then have "route_deref a route = Ret (map (bump a (- 1)) route)" by (simp add: route_deref_eq)
  moreover have "refs_inv (R - {#a#}) (map (bump a (- 1)) route)"
    using assms by (auto simp: refs_inv_def of_nat_diff dest: in_diffD)
  ultimately show ?thesis by blast
qed

lemma refs_inv_step: "route_step s s' \<Longrightarrow> refs_inv (refs s) (table s) \<Longrightarrow> refs_inv (refs s') (table s')"
proof (induction rule: route_step.induct)
  case (register a s mem st num ps r t')
  then show ?case by (auto intro: refs_inv_register)
next
  case (unregister s name r t' w')
  then show ?case
    by (auto simp: route_unregister_def intro: refs_inv_unregister1 refs_inv_unregister_all split: option.splits)
next
  case (unmatched s key e t')
  then have "distinct (map addr (table s))" by (simp add: refs_inv_def route_ok_def)
  with unmatched route_match_fst [of True "table s" key] route_match_snd [of "table s" True key]
  show ?case by (auto split: option.splits)
next
  case (deref a s t')
  then show ?case using refs_inv_deref [of "refs s" "table s" a] by auto
qed (auto intro: refs_inv_match)

lemma refs_inv_reach:
  "route_step\<^sup>*\<^sup>* s s' \<Longrightarrow> refs_inv (refs s) (table s) \<Longrightarrow> refs_inv (refs s') (table s')"
  by (induction rule: rtranclp_induct) (auto intro: refs_inv_step)

section \<open>Properties\<close>

text \<open>
  C15: in every state reached from a table with no references handed out, whatever the order of
  registrations, unregistrations, matches and releases: names and addresses are unique, each item's
  count is the number of references held on it, every held reference points to a live item, and
  giving one back is defined and keeps all of this.
\<close>

theorem route_refs_safe:
  assumes "route_step\<^sup>*\<^sup>* \<lparr>table = [], world = w, refs = {#}\<rparr> s" "a \<in># refs s"
  shows "refs_inv (refs s) (table s) \<and> (\<exists>i \<in> set (table s). addr i = a \<and> 0 < nref i) \<and>
    (\<exists>t'. route_deref a (table s) = Ret t' \<and> refs_inv (refs s - {#a#}) t')"
proof -
  have inv: "refs_inv (refs s) (table s)"
    using refs_inv_reach [OF assms(1)] by (simp add: refs_inv_def route_ok_def)
  then obtain i where "i \<in> set (table s)" "addr i = a" using assms(2) by (auto simp: refs_inv_def)
  moreover from this inv assms(2) have "0 < nref i" by (auto simp: refs_inv_def)
  ultimately show ?thesis using inv refs_inv_deref [OF inv assms(2)] by blast
qed

abbreviation nil_storage :: "string \<Rightarrow> nat storage_ctx" where
  "nil_storage n \<equiv> \<lparr>sname = n, get_fn = None, set_fn = None, del_fn = None, destructor = None\<rparr>"

lemma example_match_steps:
  "route_step\<^sup>*\<^sup>* \<lparr>table = [], world = (0 :: nat), refs = {#}\<rparr>
     \<lparr>table = [\<lparr>addr = 7, storage = nil_storage ''s'', prefix = [''*''], nref = 1\<rparr>], world = 0, refs = {#7#}\<rparr>"
proof -
  let ?s0 = "\<lparr>table = [], world = (0 :: nat), refs = {#}\<rparr>"
  let ?i = "\<lparr>addr = 7, storage = nil_storage ''s'', prefix = [''*''], nref = 0\<rparr>"
  have "route_step ?s0 (?s0\<lparr>table := [?i]\<rparr>)"
    by (rule route_step.register [where a = 7 and mem = mem_ok and st = "nil_storage ''s''" and num = 0
          and ps = "Some [Some ''*'', None]" and r = None])
      (simp_all add: route_register_def route_item_create_def arraydup_cstring_def)
  moreover have "route_step (?s0\<lparr>table := [?i]\<rparr>)
      (?s0\<lparr>table := [?i]\<rparr>\<lparr>table := [?i\<lparr>nref := 1\<rparr>], refs := add_mset 7 (refs (?s0\<lparr>table := [?i]\<rparr>))\<rparr>)"
    by (rule route_step.matched [where key = "''k''"]) simp
  ultimately show ?thesis by simp
qed

theorem route_refs_safe_witness:
  "\<exists>t'. route_deref 7 [\<lparr>addr = 7, storage = nil_storage ''s'', prefix = [''*''], nref = 1\<rparr>] = Ret t'"
  using route_refs_safe [OF example_match_steps, of 7] by simp

text \<open>
  A registration under a name in use is refused and changes nothing; otherwise, when its
  allocations succeed, the new storage takes over exactly the keys its patterns match, and every
  other key is routed as before. A match raises the count of the item it returns and nothing else.
\<close>

theorem route_register_match:
  assumes "route_ok route" "a \<notin> addr ` set route"
  shows "if sname st \<in> rname ` set route
    then route_register mem_ok a route st 0 (Some (map Some qs @ [None])) = Ret (Some EEXIST, route)
    else (\<exists>route'. route_register mem_ok a route st 0 (Some (map Some qs @ [None])) = Ret (None, route') \<and>
      route_ok route' \<and>
      fst (route_match True route' key) =
        (if \<exists>p \<in> set qs. prefix_match p key then Inr a else fst (route_match True route key)) \<and>
      (\<forall>b. fst (route_match True route' key) = Inr b \<longrightarrow>
        snd (route_match True route' key) = map (bump b 1) route'))"
proof (cases "sname st \<in> rname ` set route")
  case True
  then show ?thesis by (auto simp: route_register_def)
next
  case False
  let ?route = "\<lparr>addr = a, storage = st, prefix = qs, nref = 0\<rparr> # route"
  have free: "\<not> (\<exists>temp \<in> set route. rname temp = sname st)" using False by force
  have cnt: "count_cells (map Some qs @ [None]) = Ret (length qs)" by (induction qs) auto
  have dup: "dup_cells mem_ok i (length qs) (map Some qs @ [None]) = Ret (Some qs)" for i
    by (induction qs arbitrary: i) auto
  have "route_register mem_ok a route st 0 (Some (map Some qs @ [None])) = Ret (None, ?route)"
    using free by (simp add: route_register_def route_item_create_def arraydup_cstring_def cnt dup)
  moreover have ok: "route_ok ?route" using False assms by (simp add: route_ok_def)
  moreover have "fst (route_match True ?route key) =
      (if \<exists>p \<in> set qs. prefix_match p key then Inr a else fst (route_match True route key))"
    by (simp add: case_prod_beta)
  moreover have "snd (route_match True ?route key) = map (bump b 1) ?route"
    if "fst (route_match True ?route key) = Inr b" for b
    using that route_match_fst [of True ?route key] route_match_snd [of ?route True key] ok
    by (simp add: route_ok_def del: route_match.simps find.simps list.map split: option.splits)
  ultimately show ?thesis using False by (simp del: route_match.simps)
qed

theorem route_register_match_witness:
  "\<exists>route'. route_register mem_ok 8 [\<lparr>addr = 7, storage = nil_storage ''s'', prefix = [''*''], nref = 0\<rparr>]
      (nil_storage ''t'') 0 (Some (map Some [''a.*''] @ [None])) = Ret (None, route') \<and>
    fst (route_match True route' ''a.b'') = Inr 8"
  using route_register_match [where route = "[\<lparr>addr = 7, storage = nil_storage ''s'', prefix = [''*''], nref = 0\<rparr>]"
      and a = 8 and qs = "[''a.*'']" and st = "nil_storage ''t''" and key = "''a.b''"]
  by (auto simp: route_ok_def)

lemma unregister1_head:
  "route_unregister1 (i # route) (rname i) w =
    (if nref i = 0 then (None, route, route_item_destroy i w) else (Some EBUSY, i # route, w))"
  by (simp add: route_unregister1_def)

lemma unregister_all_eq:
  "route_unregister_all route w =
       (let idle = takeWhile (\<lambda>i. nref i = 0) route; rest = dropWhile (\<lambda>i. nref i = 0) route
        in (if rest = [] then None else Some EBUSY, rest, fold route_item_destroy idle w))"
proof (induction route arbitrary: w)
  case (Cons i route)
  then show ?case
    by (subst route_unregister_all.simps) (simp add: unregister1_head Let_def)
qed (simp add: route_unregister_all.simps)

text \<open>
  C28: unregistering by name gives \<open>ENOENT\<close> for an unknown name and \<open>EBUSY\<close> for a storage that is
  referenced, both without effect; otherwise it removes that item alone and runs its destructor.
  Unregistering all (a NULL name) removes and destroys, in list order, the items before the first
  referenced one, and reports \<open>EBUSY\<close> exactly if there is such an item.
\<close>

theorem route_unregister_correct:
  assumes "route_ok route"
  shows "route_unregister route (Some n) w =
      (case List.find (\<lambda>i. rname i = n) route of
         None \<Rightarrow> (Some ENOENT, route, w)
       | Some i \<Rightarrow> if nref i \<noteq> 0 then (Some EBUSY, route, w)
           else (None, filter (\<lambda>j. rname j \<noteq> n) route, storage_destructor (storage i) w)) \<and>
    route_unregister route None w =
      (if \<forall>i \<in> set route. nref i = 0
       then (None, [], fold (\<lambda>i. storage_destructor (storage i)) route w)
       else (Some EBUSY, dropWhile (\<lambda>i. nref i = 0) route,
         fold (\<lambda>i. storage_destructor (storage i)) (takeWhile (\<lambda>i. nref i = 0) route) w))"
proof
  have d: "route_item_destroy = (\<lambda>i. storage_destructor (storage i))"
    by (simp add: fun_eq_iff route_item_destroy_def)
  show "route_unregister route (Some n) w =
      (case List.find (\<lambda>i. rname i = n) route of
         None \<Rightarrow> (Some ENOENT, route, w)
       | Some i \<Rightarrow> if nref i \<noteq> 0 then (Some EBUSY, route, w)
           else (None, filter (\<lambda>j. rname j \<noteq> n) route, storage_destructor (storage i) w))"
    using assms
  proof (cases rule: unregister1_cases [of route n w])
    case missing
    then have "List.find (\<lambda>i. rname i = n) route = None" by (simp add: find_None_iff)
    with missing show ?thesis by (simp add: route_unregister_def)
  next
    case (busy i)
    with find_name [OF assms, of n i] have "List.find (\<lambda>i. rname i = n) route = Some i" by simp
    with busy show ?thesis by (simp add: route_unregister_def)
  next
    case (removed i)
    with find_name [OF assms, of n i] have "List.find (\<lambda>i. rname i = n) route = Some i" by simp
    moreover have "filter (\<lambda>j. addr j \<noteq> addr i) route = filter (\<lambda>j. rname j \<noteq> n) route"
      using removed(1,2) route_ok_addr_inj [OF assms] route_ok_name_inj [OF assms]
      by (intro filter_cong) auto
    ultimately show ?thesis using removed by (simp add: route_unregister_def d)
  qed
  show "route_unregister route None w =
      (if \<forall>i \<in> set route. nref i = 0
       then (None, [], fold (\<lambda>i. storage_destructor (storage i)) route w)
       else (Some EBUSY, dropWhile (\<lambda>i. nref i = 0) route,
         fold (\<lambda>i. storage_destructor (storage i)) (takeWhile (\<lambda>i. nref i = 0) route) w))"
    using unregister_all_eq [of route w] takeWhile_eq_all_conv [of "\<lambda>i. nref i = 0" route, THEN iffD2]
    by (cases "\<forall>i \<in> set route. nref i = 0") (simp_all add: route_unregister_def d Let_def)
qed

theorem route_unregister_correct_witness:
  "fst (route_unregister [\<lparr>addr = 7, storage = nil_storage ''s'', prefix = [''*''], nref = 1\<rparr>] None 0) = Some EBUSY"
  using route_unregister_correct [of "[\<lparr>addr = 7, storage = nil_storage ''s'', prefix = [''*''], nref = 1\<rparr>]" _ 0]
  by (simp add: route_ok_def)

end
