(* ===== verification/Named_Mutex.thy ===== *)
theory Named_Mutex
  imports RB_Tree
begin

text \<open>
  Named mutexes, \<^verbatim>\<open>lib/infra/named_mutex.c\<close>: a namespace keeps a tree of mutexes by name, each with a
  count of the threads that use it; a mutex is created by the first thread that locks its name and
  freed by the last one that is done with it. The namespace's own mutex makes each access to the
  tree atomic, but \<^verbatim>\<open>named_mutex_lock\<close> and \<^verbatim>\<open>named_mutex_unlock\<close> each go through several such accesses
  and keep a pointer to the mutex in between. The atomic pieces are functions on the tree; threads
  run them interleaved. A pointer is the address \<open>mid\<close> of a node.
\<close>

section \<open>State and atomic pieces\<close>

record nmtx =
  nname :: string
  mid :: nat
  owner :: "nat option" \<comment> \<open>\<^verbatim>\<open>pthread_mutex_t\<close>: the thread that holds it\<close>
  mref :: int

definition nm_probe :: "string \<Rightarrow> nmtx \<Rightarrow> int" where
  "nm_probe k b = strcmp k (nname b)"

definition named_mutex_create :: "alloc \<Rightarrow> nat \<Rightarrow> string \<Rightarrow> nmtx option" where
  "named_mutex_create mem a name =
     (if mem 0 \<and> mem 1 then Some \<lparr>nname = name, mid = a, owner = None, mref = 0\<rparr> else None)"

definition named_mutex_create_namespace :: "bool \<Rightarrow> nmtx rb option" where
  "named_mutex_create_namespace mem = (if mem then Some Null else None)"

text \<open>The \<^verbatim>\<open>assert\<close> that no mutex is left.\<close>

definition named_mutex_destroy_namespace :: "nmtx rb \<Rightarrow> unit c_out" where
  "named_mutex_destroy_namespace ns = (if ns = Null then Ret () else UB)"

text \<open>The part of \<^verbatim>\<open>named_mutex_lock\<close> under the namespace's mutex; \<open>a\<close> is the address of the new node.\<close>

definition lock_ref :: "alloc \<Rightarrow> nat \<Rightarrow> string \<Rightarrow> nmtx rb \<Rightarrow> (errno + nat) \<times> nmtx rb" where
  "lock_ref mem a name ns =
     (case named_mutex_create mem a name of
        None \<Rightarrow> (Inl ENOMEM, ns)
      | Some nmtx \<Rightarrow>
          (case rb_ins nm_probe nname nmtx ns of
             (None, ns') \<Rightarrow> (Inr a, rb_modify (nm_probe name) (\<lambda>n. n\<lparr>mref := mref n + 1\<rparr>) ns')
           | (Some old_item, ns') \<Rightarrow>
               (Inr (mid old_item), rb_modify (nm_probe name) (\<lambda>n. n\<lparr>mref := mref n + 1\<rparr>) ns')))"

text \<open>The node a pointer to a mutex of that name denotes; \<open>None\<close> when it was freed.\<close>

definition nm_access :: "string \<Rightarrow> nat \<Rightarrow> nmtx rb \<Rightarrow> nmtx option" where
  "nm_access name a ns =
     (case RB_FIND (nm_probe name) ns of Some n \<Rightarrow> if mid n = a then Some n else None | None \<Rightarrow> None)"

text \<open>\<^verbatim>\<open>pthread_mutex_lock(&nmtx->mutex)\<close>: \<open>Ret None\<close> when the thread has to wait.\<close>

definition mutex_lock :: "nat \<Rightarrow> string \<Rightarrow> nat \<Rightarrow> nmtx rb \<Rightarrow> nmtx rb option c_out" where
  "mutex_lock t name a ns =
     (case nm_access name a ns of
        None \<Rightarrow> UB
      | Some n \<Rightarrow>
          if owner n = None
          then Ret (Some (rb_modify (nm_probe name) (\<lambda>n. n\<lparr>owner := Some t\<rparr>) ns))
          else Ret None)"

text \<open>The first part of \<^verbatim>\<open>named_mutex_unlock\<close>; \<open>None\<close> is its \<open>ENOENT\<close>.\<close>

definition unlock_find :: "string \<Rightarrow> nmtx rb \<Rightarrow> nat option" where
  "unlock_find name ns = map_option mid (RB_FIND (nm_probe name) ns)"

definition mutex_unlock :: "string \<Rightarrow> nat \<Rightarrow> nmtx rb \<Rightarrow> nmtx rb c_out" where
  "mutex_unlock name a ns =
     (case nm_access name a ns of
        None \<Rightarrow> UB
      | Some n \<Rightarrow> Ret (rb_modify (nm_probe name) (\<lambda>n. n\<lparr>owner := None\<rparr>) ns))"

text \<open>The last part of \<^verbatim>\<open>named_mutex_unlock\<close>; destroying a mutex that is held is undefined.\<close>

definition unlock_deref :: "string \<Rightarrow> nat \<Rightarrow> nmtx rb \<Rightarrow> nmtx rb c_out" where
  "unlock_deref name a ns =
     (case nm_access name a ns of
        None \<Rightarrow> UB
      | Some n \<Rightarrow>
          if mref n - 1 = 0 then
            (if owner n = None then Ret (rb_del nm_probe name ns) else UB)
          else Ret (rb_modify (nm_probe name) (\<lambda>n. n\<lparr>mref := mref n - 1\<rparr>) ns))"

text \<open>
  The two calls as a thread makes them when no other thread runs in between. \<open>Ret None\<close> is a lock
  that waits for its holder.
\<close>

definition named_mutex_lock ::
  "nat \<Rightarrow> alloc \<Rightarrow> nat \<Rightarrow> string \<Rightarrow> nmtx rb \<Rightarrow> (errno option \<times> nmtx rb) option c_out" where
  "named_mutex_lock t mem a name ns =
     (case lock_ref mem a name ns of
        (Inl e, ns') \<Rightarrow> Ret (Some (Some e, ns'))
      | (Inr b, ns') \<Rightarrow> c_bind (mutex_lock t name b ns') (\<lambda>r. Ret (map_option (\<lambda>ns''. (None, ns'')) r)))"

definition named_mutex_unlock :: "string \<Rightarrow> nmtx rb \<Rightarrow> (errno option \<times> nmtx rb) c_out" where
  "named_mutex_unlock name ns =
     (case unlock_find name ns of
        None \<Rightarrow> Ret (Some ENOENT, ns)
      | Some a \<Rightarrow>
          c_bind (mutex_unlock name a ns) (\<lambda>ns'.
            c_bind (unlock_deref name a ns') (\<lambda>ns''. Ret (None, ns''))))"

section \<open>Threads\<close>

text \<open>
  Where a thread is: outside, between the two halves of \<^verbatim>\<open>named_mutex_lock\<close>, holding the name, and
  at the two inner points of \<^verbatim>\<open>named_mutex_unlock\<close>.
\<close>

datatype pc = Idle | Waiting string nat | Holding string nat | Found string nat | Released string nat

fun pc_ref :: "pc \<Rightarrow> (string \<times> nat) option" where
  "pc_ref Idle = None"
| "pc_ref (Waiting n a) = Some (n, a)"
| "pc_ref (Holding n a) = Some (n, a)"
| "pc_ref (Found n a) = Some (n, a)"
| "pc_ref (Released n a) = Some (n, a)"

fun pc_holds :: "pc \<Rightarrow> string option" where
  "pc_holds (Holding n a) = Some n"
| "pc_holds (Found n a) = Some n"
| "pc_holds _ = None"

record nm_state =
  ns :: "nmtx rb"
  pcs :: "nat \<Rightarrow> pc"

inductive nm_step :: "nm_state \<Rightarrow> nm_state \<Rightarrow> bool" where
  enter: "pcs s t = Idle \<Longrightarrow> a \<notin> mid ` set (inorder (ns s)) \<Longrightarrow> lock_ref mem a name (ns s) = (Inr b, ns') \<Longrightarrow>
    nm_step s (s\<lparr>ns := ns', pcs := (pcs s)(t := Waiting name b)\<rparr>)"
| enter_nomem: "pcs s t = Idle \<Longrightarrow> lock_ref mem a name (ns s) = (Inl e, ns') \<Longrightarrow> nm_step s (s\<lparr>ns := ns'\<rparr>)"
| acquire: "pcs s t = Waiting name a \<Longrightarrow> mutex_lock t name a (ns s) = Ret (Some ns') \<Longrightarrow>
    nm_step s (s\<lparr>ns := ns', pcs := (pcs s)(t := Holding name a)\<rparr>)"
| find: "pcs s t = Holding name a \<Longrightarrow> unlock_find name (ns s) = Some b \<Longrightarrow>
    nm_step s (s\<lparr>pcs := (pcs s)(t := Found name b)\<rparr>)"
| release: "pcs s t = Found name a \<Longrightarrow> mutex_unlock name a (ns s) = Ret ns' \<Longrightarrow>
    nm_step s (s\<lparr>ns := ns', pcs := (pcs s)(t := Released name a)\<rparr>)"
| deref: "pcs s t = Released name a \<Longrightarrow> unlock_deref name a (ns s) = Ret ns' \<Longrightarrow>
    nm_step s (s\<lparr>ns := ns', pcs := (pcs s)(t := Idle)\<rparr>)"

section \<open>Effects on lookups\<close>

interpretation nt: three_way nm_probe nname
  by unfold_locales (auto simp: nm_probe_def)

abbreviation node :: "nmtx rb \<Rightarrow> string \<Rightarrow> nmtx option" where
  "node t k \<equiv> RB_FIND (nm_probe k) t"

lemma node_modify:
  assumes "rb_inv nname t" "\<And>n. nname (f n) = nname n"
  shows "rb_inv nname (rb_modify (nm_probe k) f t)"
    and "node (rb_modify (nm_probe k) f t) = (node t)(k := map_option f (node t k))"
  using nt.upd_elems [OF assms, of k] nt.find_upd [OF assms, of _ k] by (auto simp: fun_eq_iff)

lemma lock_ref_node:
  assumes "rb_inv nname t" "lock_ref mem a name t = (Inr b, t')"
  shows "rb_inv nname t'"
    and "node t' = (node t)(name \<mapsto> (case node t name of
      None \<Rightarrow> \<lparr>nname = name, mid = a, owner = None, mref = 1\<rparr> | Some n \<Rightarrow> n\<lparr>mref := mref n + 1\<rparr>))"
    and "b = (case node t name of None \<Rightarrow> a | Some n \<Rightarrow> mid n)"
proof -
  let ?n = "\<lparr>nname = name, mid = a, owner = None, mref = 0\<rparr>" and ?inc = "\<lambda>n. n\<lparr>mref := mref n + 1\<rparr>"
  have c: "named_mutex_create mem a name = Some ?n"
    using assms(2) by (auto simp: lock_ref_def named_mutex_create_def split: if_splits)
  have "rb_inv nname t' \<and> node t' = (node t)(name \<mapsto> (case node t name of
      None \<Rightarrow> \<lparr>nname = name, mid = a, owner = None, mref = 1\<rparr> | Some n \<Rightarrow> n\<lparr>mref := mref n + 1\<rparr>)) \<and>
      b = (case node t name of None \<Rightarrow> a | Some n \<Rightarrow> mid n)"
  proof (cases "node t name")
    case None
    obtain u where u: "rb_ins nm_probe nname ?n t = (None, u)" "rb_inv nname u" "node u = (node t)(name \<mapsto> ?n)"
      using nt.fst_ins [OF assms(1), of ?n] nt.inv_ins [OF assms(1), of ?n] nt.find_ins_new [OF assms(1), of ?n] None
      by (cases "rb_ins nm_probe nname ?n t") (auto simp: fun_eq_iff)
    then have "t' = rb_modify (nm_probe name) ?inc u" "b = a"
      using assms(2) c by (auto simp: lock_ref_def)
    with None u fun_cong [OF u(3), of name] node_modify [OF u(2), of ?inc name] show ?thesis by simp
  next
    case (Some n)
    then have "rb_ins nm_probe nname ?n t = (Some n, t)" using nt.ins_old [OF assms(1), of ?n] by simp
    then have "t' = rb_modify (nm_probe name) ?inc t" "b = mid n"
      using assms(2) c by (auto simp: lock_ref_def)
    with Some node_modify [OF assms(1), of ?inc name] show ?thesis by simp
  qed
  then show "rb_inv nname t'" "node t' = (node t)(name \<mapsto> (case node t name of
      None \<Rightarrow> \<lparr>nname = name, mid = a, owner = None, mref = 1\<rparr> | Some n \<Rightarrow> n\<lparr>mref := mref n + 1\<rparr>))"
    "b = (case node t name of None \<Rightarrow> a | Some n \<Rightarrow> mid n)" by blast+
qed

lemma unlock_deref_node:
  assumes "rb_inv nname t" "unlock_deref name a t = Ret t'"
  obtains n where "node t name = Some n" "mid n = a" "rb_inv nname t'"
    "node t' = (node t)(name := if mref n = 1 then None else Some (n\<lparr>mref := mref n - 1\<rparr>))"
proof -
  obtain n where n: "node t name = Some n" "mid n = a"
    using assms(2) by (auto simp: unlock_deref_def nm_access_def split: option.splits if_splits)
  show ?thesis
  proof (cases "mref n = 1")
    case True
    then have "t' = rb_del nm_probe name t"
      using n assms(2) by (auto simp: unlock_deref_def nm_access_def split: if_splits)
    with that n True nt.del_elems [OF assms(1), of name] nt.find_del [OF assms(1), of name]
    show ?thesis by (auto simp: fun_eq_iff)
  next
    case False
    then have "t' = rb_modify (nm_probe name) (\<lambda>n. n\<lparr>mref := mref n - 1\<rparr>) t"
      using n assms(2) by (auto simp: unlock_deref_def nm_access_def)
    with that n False node_modify [OF assms(1), of "\<lambda>n. n\<lparr>mref := mref n - 1\<rparr>" name] show ?thesis by simp
  qed
qed

text \<open>A lock of a name that is free, and the unlock that undoes it.\<close>

definition name_free :: "nmtx rb \<Rightarrow> string \<Rightarrow> bool" where
  "name_free t k \<longleftrightarrow> (case node t k of None \<Rightarrow> True | Some n \<Rightarrow> owner n = None \<and> 0 < mref n)"

definition locked_node :: "nmtx rb \<Rightarrow> nat \<Rightarrow> nat \<Rightarrow> string \<Rightarrow> nmtx" where
  "locked_node t u a k = (case node t k of
      None \<Rightarrow> \<lparr>nname = k, mid = a, owner = Some u, mref = 1\<rparr>
    | Some n \<Rightarrow> n\<lparr>mref := mref n + 1, owner := Some u\<rparr>)"

lemma named_mutex_lock_free:
  assumes rb: "rb_inv nname t" and free: "name_free t k" and mem: "mem 0" "mem 1"
  shows "\<exists>t'. named_mutex_lock u mem a k t = Ret (Some (None, t')) \<and> rb_inv nname t' \<and>
    node t' = (node t)(k \<mapsto> locked_node t u a k)"
proof -
  obtain b t1 where ref: "lock_ref mem a k t = (Inr b, t1)"
    using mem by (cases "lock_ref mem a k t")
      (auto simp: lock_ref_def named_mutex_create_def split: prod.splits option.splits)
  note t1 = lock_ref_node [OF rb ref]
  let ?f = "\<lambda>n. n\<lparr>owner := Some u\<rparr>"
  obtain n1 where n1: "node t1 k = Some n1" "mid n1 = b" "owner n1 = None" "?f n1 = locked_node t u a k"
    using fun_cong [OF t1(2), of k] t1(3) free by (auto simp: name_free_def locked_node_def split: option.splits)
  then have "named_mutex_lock u mem a k t = Ret (Some (None, rb_modify (nm_probe k) ?f t1))"
    using ref by (simp add: named_mutex_lock_def mutex_lock_def nm_access_def)
  moreover have "node (rb_modify (nm_probe k) ?f t1) = (node t)(k \<mapsto> locked_node t u a k)"
    using node_modify(2) [OF t1(1), of ?f k] n1 t1(2) by (simp add: fun_eq_iff)
  ultimately show ?thesis using node_modify(1) [OF t1(1), of ?f k] by auto
qed

lemma named_mutex_lock_nomem:
  "\<not> (mem 0 \<and> mem 1) \<Longrightarrow> named_mutex_lock u mem a k t = Ret (Some (Some ENOMEM, t))"
  by (auto simp: named_mutex_lock_def lock_ref_def named_mutex_create_def)

lemma named_mutex_unlock_held:
  assumes rb: "rb_inv nname t'" and free: "name_free t k"
    and held: "node t' = (node t)(k \<mapsto> locked_node t u a k)"
  shows "\<exists>t''. named_mutex_unlock k t' = Ret (None, t'') \<and> rb_inv nname t'' \<and> node t'' = node t"
proof -
  let ?n = "locked_node t u a k" and ?f = "\<lambda>n. n\<lparr>owner := None\<rparr>"
  let ?t1 = "rb_modify (nm_probe k) ?f t'"
  have f: "\<And>n. nname (?f n) = nname n" by simp
  note t1 = node_modify [OF rb f, of k]
  have n: "node t' k = Some ?n" using fun_cong [OF held, of k] by simp
  have n1: "node ?t1 k = Some (?f ?n)" using fun_cong [OF t1(2), of k] n by simp
  obtain t'' where t'': "unlock_deref k (mid ?n) ?t1 = Ret t''"
    using n1 by (cases "mref ?n = 1") (auto simp: unlock_deref_def nm_access_def)
  then have "named_mutex_unlock k t' = Ret (None, t'')"
    using n by (simp add: named_mutex_unlock_def unlock_find_def mutex_unlock_def nm_access_def)
  moreover have "rb_inv nname t'' \<and> node t'' = node t"
    using t1(1) t''
  proof (cases rule: unlock_deref_node)
    case (1 m)
    with n1 have m: "m = ?f ?n" by simp
    have "(if mref m = 1 then None else Some (m\<lparr>mref := mref m - 1\<rparr>)) = node t k"
      using free unfolding m by (auto simp: locked_node_def name_free_def split: option.splits)
    then have "node t'' = node t" using 1(4) t1(2) held by (auto simp: fun_eq_iff)
    with 1(3) show ?thesis by simp
  qed
  ultimately show ?thesis by blast
qed

section \<open>The invariant\<close>

definition users :: "(nat \<Rightarrow> pc) \<Rightarrow> string \<Rightarrow> nat set" where
  "users P k = {t. \<exists>a. pc_ref (P t) = Some (k, a)}"

text \<open>
  Of the lookup function and the threads: every pointer a thread keeps is live, a node counts
  exactly its users and has at least one, and it is held by exactly the thread that is past its
  \<^verbatim>\<open>pthread_mutex_lock\<close> and before its \<^verbatim>\<open>pthread_mutex_unlock\<close>.
\<close>

definition nm_good :: "(string \<Rightarrow> nmtx option) \<Rightarrow> (nat \<Rightarrow> pc) \<Rightarrow> bool" where
  "nm_good F P \<longleftrightarrow>
     finite {t. P t \<noteq> Idle} \<and>
     (\<forall>t k a. pc_ref (P t) = Some (k, a) \<longrightarrow> (\<exists>n. F k = Some n \<and> mid n = a)) \<and>
     (\<forall>k n. F k = Some n \<longrightarrow> mref n = int (card (users P k)) \<and> 0 < mref n \<and>
        (\<forall>t. owner n = Some t \<longleftrightarrow> pc_holds (P t) = Some k))"

lemma holds_user: "pc_holds (P t) = Some k \<Longrightarrow> t \<in> users P k"
  by (cases "P t") (auto simp: users_def)

lemma nm_goodD:
  assumes "nm_good F P"
  shows "finite {t. P t \<noteq> Idle}" "pc_ref (P t) = Some (k, a) \<Longrightarrow> \<exists>n. F k = Some n \<and> mid n = a"
    and "F k = Some n \<Longrightarrow> mref n = int (card (users P k))" "F k = Some n \<Longrightarrow> 0 < mref n"
    and "F k = Some n \<Longrightarrow> owner n = Some t \<longleftrightarrow> pc_holds (P t) = Some k"
  using assms unfolding nm_good_def by blast+

lemma finite_users: "finite {t. P t \<noteq> Idle} \<Longrightarrow> finite (users P k)"
  by (rule finite_subset [of _ "{t. P t \<noteq> Idle}"]) (auto simp: users_def)

lemma finite_upd: "finite {t. P t \<noteq> Idle} \<Longrightarrow> finite {u. (P(t := p)) u \<noteq> Idle}"
  by (rule finite_subset [of _ "insert t {u. P u \<noteq> Idle}"]) auto

lemma users_enter: "P t = Idle \<Longrightarrow> pc_ref p = Some (k, a) \<Longrightarrow>
    users (P(t := p)) j = (if j = k then insert t (users P k) else users P j) \<and> t \<notin> users P k"
  by (auto simp: users_def)

lemma users_same: "pc_ref p = pc_ref (P t) \<Longrightarrow> users (P(t := p)) = users P"
  by (auto simp: users_def fun_eq_iff)

lemma users_leave: "pc_ref (P t) = Some (k, a) \<Longrightarrow>
    users (P(t := Idle)) j = (if j = k then users P k - {t} else users P j) \<and> t \<in> users P k"
  by (auto simp: users_def)

text \<open>A step that keeps the thread's pointer changes at most the owner.\<close>

lemma nm_good_same:
  assumes good: "nm_good F P" and ref: "pc_ref p = pc_ref (P t)"
    and F': "\<And>k. map_option mid (F' k) = map_option mid (F k)" "\<And>k. map_option mref (F' k) = map_option mref (F k)"
    and own: "\<And>k n u. F' k = Some n \<Longrightarrow> owner n = Some u \<longleftrightarrow> pc_holds ((P(t := p)) u) = Some k"
  shows "nm_good F' (P(t := p))"
  unfolding nm_good_def users_same [of p P t, OF ref]
proof (intro conjI allI impI)
  show "finite {u. (P(t := p)) u \<noteq> Idle}" using nm_goodD(1) [OF good] by (rule finite_upd)
  fix u k a
  assume "pc_ref ((P(t := p)) u) = Some (k, a)"
  then have "pc_ref (P u) = Some (k, a)" using ref by (auto split: if_splits)
  then obtain n where "F k = Some n" "mid n = a" using nm_goodD(2) [OF good] by blast
  with F'(1) [of k] show "\<exists>n. F' k = Some n \<and> mid n = a" by (cases "F' k") auto
next
  fix k n
  assume n: "F' k = Some n"
  then obtain n0 where "F k = Some n0" "mref n0 = mref n" using F'(2) [of k] by (cases "F k") auto
  with nm_goodD(3,4) [OF good, of k n0]
  show "mref n = int (card (users P k))" "0 < mref n" by simp_all
  show "owner n = Some u \<longleftrightarrow> pc_holds ((P(t := p)) u) = Some k" for u by (rule own [OF n])
qed

lemma nm_good_enter:
  assumes good: "nm_good F P" and idle: "P t = Idle"
  shows "nm_good (F(k \<mapsto> (case F k of None \<Rightarrow> \<lparr>nname = k, mid = a, owner = None, mref = 1\<rparr>
      | Some n \<Rightarrow> n\<lparr>mref := mref n + 1\<rparr>)))
    (P(t := Waiting k (case F k of None \<Rightarrow> a | Some n \<Rightarrow> mid n)))" (is "nm_good ?F ?P")
proof -
  have fin: "finite (users P k)" using nm_goodD(1) [OF good] by (rule finite_users)
  have users: "users ?P j = (if j = k then insert t (users P k) else users P j)" "t \<notin> users P k" for j
    using users_enter [of P t, OF idle, of "Waiting k (case F k of None \<Rightarrow> a | Some n \<Rightarrow> mid n)" k] by auto
  have none: "users P k = {}" "\<And>u. pc_holds (P u) \<noteq> Some k" if "F k = None"
  proof -
    have "pc_ref (P u) \<noteq> Some (k, b)" for u b using nm_goodD(2) [OF good, of u k b] that by auto
    then show "users P k = {}" by (simp add: users_def)
    fix u show "pc_holds (P u) \<noteq> Some k"
      using \<open>\<And>u b. pc_ref (P u) \<noteq> Some (k, b)\<close> [of u] by (cases "P u") auto
  qed
  show ?thesis
    unfolding nm_good_def
  proof (intro conjI allI impI)
    show "finite {u. ?P u \<noteq> Idle}" using nm_goodD(1) [OF good] by (rule finite_upd)
    fix u j b
    assume "pc_ref (?P u) = Some (j, b)"
    then show "\<exists>n. ?F j = Some n \<and> mid n = b"
      using nm_goodD(2) [OF good, of u j b] by (auto split: if_splits option.splits)
  next
    fix j n
    assume n: "?F j = Some n"
    show "mref n = int (card (users ?P j))"
      using n fin users none(1) nm_goodD(3) [OF good, of k] nm_goodD(3) [OF good, of j n]
      by (auto split: if_splits option.splits)
    show "0 < mref n"
      using n nm_goodD(4) [OF good, of k] nm_goodD(4) [OF good, of j n] by (fastforce split: if_splits option.splits)
    show "owner n = Some u \<longleftrightarrow> pc_holds (?P u) = Some j" for u
      using n idle none(2) [of u] nm_goodD(5) [OF good, of j _ u]
      by (auto split: if_splits option.splits)
  qed
qed

lemma nm_good_leave:
  assumes good: "nm_good F P" and at: "P t = Released k a" and n: "F k = Some n"
  shows "nm_good (F(k := if mref n = 1 then None else Some (n\<lparr>mref := mref n - 1\<rparr>))) (P(t := Idle))"
    (is "nm_good ?F ?P")
proof -
  have fin: "finite (users P k)" using nm_goodD(1) [OF good] by (rule finite_users)
  have users: "users ?P j = (if j = k then users P k - {t} else users P j)" "t \<in> users P k" for j
    using users_leave [of P t k a] at by auto
  have card: "mref n = int (card (users P k))" by (rule nm_goodD(3) [OF good n])
  have pos: "0 < card (users P k)" using fin users(2) by (auto simp: card_gt_0_iff)
  have alone: "users P k = {t}" if "mref n = 1"
    using that card users(2) by (auto simp: card_1_singleton_iff)
  show ?thesis
    unfolding nm_good_def
  proof (intro conjI allI impI)
    show "finite {u. ?P u \<noteq> Idle}" using nm_goodD(1) [OF good] by (rule finite_upd)
    fix u j b
    assume u: "pc_ref (?P u) = Some (j, b)"
    then have "u \<noteq> t" "pc_ref (P u) = Some (j, b)" by (auto split: if_splits)
    moreover from this have "j = k \<Longrightarrow> mref n \<noteq> 1" using alone by (auto simp: users_def)
    ultimately show "\<exists>n. ?F j = Some n \<and> mid n = b"
      using nm_goodD(2) [OF good, of u j b] n by auto
  next
    fix j m
    assume m: "?F j = Some m"
    show "mref m = int (card (users ?P j))"
      using m n fin users card pos nm_goodD(3) [OF good, of j m]
      by (auto simp: of_nat_diff split: if_splits)
    show "0 < mref m"
      using m nm_goodD(4) [OF good n] nm_goodD(4) [OF good, of j m] by (auto split: if_splits)
    show "owner m = Some u \<longleftrightarrow> pc_holds (?P u) = Some j" for u
      using m n at nm_goodD(5) [OF good n, of u] nm_goodD(5) [OF good, of j m u] by (auto split: if_splits)
  qed
qed

definition nm_inv :: "nm_state \<Rightarrow> bool" where
  "nm_inv s \<longleftrightarrow> rb_inv nname (ns s) \<and> nm_good (node (ns s)) (pcs s)"

lemma nm_access_good:
  "nm_good (node t) P \<Longrightarrow> pc_ref (P u) = Some (k, a) \<Longrightarrow>
     \<exists>n. nm_access k a t = Some n \<and> node t k = Some n \<and> mid n = a"
  using nm_goodD(2) [of "node t" P u k a] by (auto simp: nm_access_def)

lemma nm_inv_acquire:
  assumes inv: "nm_inv s" and pc: "pcs s t = Waiting k a" and lock: "mutex_lock t k a (ns s) = Ret (Some ns')"
  shows "nm_inv (s\<lparr>ns := ns', pcs := (pcs s)(t := Holding k a)\<rparr>)"
proof -
  have rb: "rb_inv nname (ns s)" and good: "nm_good (node (ns s)) (pcs s)" using inv by (auto simp: nm_inv_def)
  obtain n where n: "node (ns s) k = Some n" "owner n = None"
    and ns': "ns' = rb_modify (nm_probe k) (\<lambda>n. n\<lparr>owner := Some t\<rparr>) (ns s)"
    using lock by (auto simp: mutex_lock_def nm_access_def split: option.splits if_splits)
  note node' = node_modify [OF rb, of "\<lambda>n. n\<lparr>owner := Some t\<rparr>" k, folded ns']
  have "nm_good (node ns') ((pcs s)(t := Holding k a))"
  proof (rule nm_good_same [OF good])
    fix j m u
    assume m: "node ns' j = Some m"
    show "owner m = Some u \<longleftrightarrow> pc_holds (((pcs s)(t := Holding k a)) u) = Some j"
      using m fun_cong [OF node'(2), of j] n pc nm_goodD(5) [OF good n(1), of u] nm_goodD(5) [OF good, of j m u]
      by (auto split: if_splits)
  qed (use n pc fun_cong [OF node'(2)] in auto)
  with node'(1) show ?thesis by (simp add: nm_inv_def)
qed

lemma nm_inv_release:
  assumes inv: "nm_inv s" and pc: "pcs s t = Found k a" and unlock: "mutex_unlock k a (ns s) = Ret ns'"
  shows "nm_inv (s\<lparr>ns := ns', pcs := (pcs s)(t := Released k a)\<rparr>)"
proof -
  have rb: "rb_inv nname (ns s)" and good: "nm_good (node (ns s)) (pcs s)" using inv by (auto simp: nm_inv_def)
  obtain n where n: "node (ns s) k = Some n" and ns': "ns' = rb_modify (nm_probe k) (\<lambda>n. n\<lparr>owner := None\<rparr>) (ns s)"
    using unlock by (auto simp: mutex_unlock_def nm_access_def split: option.splits if_splits)
  note node' = node_modify [OF rb, of "\<lambda>n. n\<lparr>owner := None\<rparr>" k, folded ns']
  have own: "owner n = Some t" using nm_goodD(5) [OF good n, of t] pc by simp
  have "nm_good (node ns') ((pcs s)(t := Released k a))"
  proof (rule nm_good_same [OF good])
    fix j m u
    assume m: "node ns' j = Some m"
    show "owner m = Some u \<longleftrightarrow> pc_holds (((pcs s)(t := Released k a)) u) = Some j"
      using m fun_cong [OF node'(2), of j] own n pc nm_goodD(5) [OF good n, of u] nm_goodD(5) [OF good, of j m u]
      by (auto split: if_splits)
  qed (use n pc fun_cong [OF node'(2)] in auto)
  with node'(1) show ?thesis by (simp add: nm_inv_def)
qed

lemma nm_inv_find:
  assumes inv: "nm_inv s" and pc: "pcs s t = Holding k a" and found: "unlock_find k (ns s) = Some b"
  shows "b = a \<and> nm_inv (s\<lparr>pcs := (pcs s)(t := Found k b)\<rparr>)"
proof -
  have good: "nm_good (node (ns s)) (pcs s)" using inv by (auto simp: nm_inv_def)
  have b: "b = a" using nm_access_good [OF good, of t k a] pc found by (auto simp: unlock_find_def)
  have "nm_good (node (ns s)) ((pcs s)(t := Found k a))"
    by (rule nm_good_same [OF good]) (use pc nm_goodD(5) [OF good] in auto)
  with b inv show ?thesis by (simp add: nm_inv_def)
qed

lemma nm_inv_step: "nm_step s s' \<Longrightarrow> nm_inv s \<Longrightarrow> nm_inv s'"
proof (induction rule: nm_step.induct)
  case (enter s t a mem name b ns')
  then have rb: "rb_inv nname (ns s)" and good: "nm_good (node (ns s)) (pcs s)" by (auto simp: nm_inv_def)
  note ref = lock_ref_node [OF rb enter(3)]
  from nm_good_enter [OF good enter(1), of name a] ref show ?case by (simp add: nm_inv_def)
next
  case (enter_nomem s t mem a name e ns')
  then have "ns' = ns s" by (auto simp: lock_ref_def split: option.splits prod.splits)
  with enter_nomem show ?case by simp
next
  case (deref s t name a ns')
  then have rb: "rb_inv nname (ns s)" and good: "nm_good (node (ns s)) (pcs s)" by (auto simp: nm_inv_def)
  from rb deref(2) show ?case
  proof (cases rule: unlock_deref_node)
    case (1 n)
    with nm_good_leave [OF good deref(1) 1(1)] show ?thesis by (simp add: nm_inv_def)
  qed
qed (auto intro: nm_inv_acquire nm_inv_release dest: nm_inv_find)

definition nm_init :: nm_state where
  "nm_init = \<lparr>ns = Null, pcs = (\<lambda>_. Idle)\<rparr>"

lemma nm_inv_init: "nm_inv nm_init"
  using nt.inv_empty by (simp add: nm_inv_def nm_good_def nm_init_def)

lemma nm_inv_reach: "nm_step\<^sup>*\<^sup>* nm_init s \<Longrightarrow> nm_inv s"
  by (induction rule: rtranclp_induct) (auto intro: nm_inv_init nm_inv_step)

section \<open>Properties\<close>

lemma example_lock:
  "nm_step\<^sup>*\<^sup>* nm_init \<lparr>ns = Node False False Null \<lparr>nname = ''k'', mid = 5, owner = None, mref = 1\<rparr> Null,
     pcs = (\<lambda>_. Idle)(1 := Waiting ''k'' 5)\<rparr>"
proof -
  let ?t = "Node False False Null \<lparr>nname = ''k'', mid = 5, owner = None, mref = 1\<rparr> Null"
  have "lock_ref mem_ok 5 ''k'' (ns nm_init) = (Inr 5, ?t)" by code_simp
  then have "nm_step nm_init (nm_init\<lparr>ns := ?t, pcs := (pcs nm_init)(1 := Waiting ''k'' 5)\<rparr>)"
    by (intro nm_step.enter [where a = 5 and mem = mem_ok]) (auto simp: nm_init_def)
  then show ?thesis by (simp add: nm_init_def)
qed


lemma nm_live:
  assumes "nm_inv s" "users (pcs s) k \<noteq> {}"
  obtains n where "node (ns s) k = Some n"
  using assms by (auto simp: users_def nm_inv_def dest: nm_goodD(2))

lemma nm_exclusive:
  assumes "nm_inv s" "pc_holds (pcs s t) = Some k" "pc_holds (pcs s u) = Some k"
  shows "t = u"
proof -
  from assms(2) have "t \<in> users (pcs s) k" by (rule holds_user)
  then have "users (pcs s) k \<noteq> {}" by blast
  with assms(1) obtain n where n: "node (ns s) k = Some n" by (rule nm_live)
  have good: "nm_good (node (ns s)) (pcs s)" using assms(1) by (simp add: nm_inv_def)
  from assms nm_goodD(5) [OF good n] have "owner n = Some t" "owner n = Some u" by blast+
  then show ?thesis by simp
qed

lemma nm_empty:
  assumes "nm_inv s" "\<forall>v. pcs s v = Idle"
  shows "ns s = Null"
proof (cases "ns s")
  case (Node bl br l x r)
  have rb: "rb_inv nname (ns s)" and good: "nm_good (node (ns s)) (pcs s)" using assms(1) by (simp_all add: nm_inv_def)
  from Node have "x \<in> set (inorder (ns s)) \<and> nname x = nname x" by simp
  then have "node (ns s) (nname x) = Some x" by (rule nt.find_Some [OF rb, THEN iffD2])
  with nm_goodD(3,4) [OF good this] assms(2) show ?thesis by (simp add: users_def)
qed

lemma nm_safe:
  assumes "nm_inv s"
  shows "(pcs s t = Waiting k a \<longrightarrow> mutex_lock t k a (ns s) \<noteq> UB) \<and>
    (pcs s t = Holding k a \<longrightarrow> unlock_find k (ns s) = Some a) \<and>
    (pcs s t = Found k a \<longrightarrow> mutex_unlock k a (ns s) \<noteq> UB) \<and>
    (pcs s t = Released k a \<longrightarrow> unlock_deref k a (ns s) \<noteq> UB)"
proof -
  have good: "nm_good (node (ns s)) (pcs s)" using assms by (simp add: nm_inv_def)
  note acc = nm_access_good [OF good, of t k a]
  have "owner n = None" if pc: "pcs s t = Released k a" and n: "node (ns s) k = Some n" "mref n = 1" for n
  proof (rule ccontr)
    assume "owner n \<noteq> None"
    then obtain u where u: "pc_holds (pcs s u) = Some k" using nm_goodD(5) [OF good n(1)] by auto
    then have "u \<in> users (pcs s) k" by (rule holds_user)
    moreover have "t \<in> users (pcs s) k" using pc by (auto simp: users_def)
    moreover have "card (users (pcs s) k) = 1" using nm_goodD(3) [OF good n(1)] n(2) by simp
    ultimately have "u = t" by (metis card_1_singletonE singletonD)
    with u pc show False by simp
  qed
  then show ?thesis
    using acc
    by (auto simp: mutex_lock_def mutex_unlock_def unlock_deref_def unlock_find_def split: if_splits)
qed

text \<open>
  C11: in every interleaving of threads locking and unlocking names, no thread ever uses a freed
  mutex: each of its next accesses is defined, an unlock finds the mutex that the thread locked, and
  the mutex freed at the end is not held.
\<close>

theorem named_mutex_no_use_after_free:
  assumes "nm_step\<^sup>*\<^sup>* nm_init s"
  shows "(pcs s t = Waiting k a \<longrightarrow> mutex_lock t k a (ns s) \<noteq> UB) \<and>
    (pcs s t = Holding k a \<longrightarrow> unlock_find k (ns s) = Some a) \<and>
    (pcs s t = Found k a \<longrightarrow> mutex_unlock k a (ns s) \<noteq> UB) \<and>
    (pcs s t = Released k a \<longrightarrow> unlock_deref k a (ns s) \<noteq> UB)"
  by (rule nm_safe [OF nm_inv_reach [OF assms]])

theorem named_mutex_no_use_after_free_witness:
  "mutex_lock 1 ''k'' 5 (Node False False Null \<lparr>nname = ''k'', mid = 5, owner = None, mref = 1\<rparr> Null) \<noteq> UB"
  using named_mutex_no_use_after_free [OF example_lock, of 1 "''k''" 5] by simp

text \<open>
  C12: mutual exclusion and clean-up: two threads never hold the same name at once; the tree holds
  a mutex for a name exactly while some thread uses that name, so that when all threads are outside
  the namespace can be destroyed (its assertion holds).
\<close>

theorem named_mutex_exclusion:
  assumes "nm_step\<^sup>*\<^sup>* nm_init s"
  shows "(pc_holds (pcs s t) = Some k \<longrightarrow> pc_holds (pcs s u) = Some k \<longrightarrow> t = u) \<and>
    (RB_FIND (nm_probe k) (ns s) \<noteq> None \<longleftrightarrow> users (pcs s) k \<noteq> {}) \<and>
    ((\<forall>v. pcs s v = Idle) \<longrightarrow> named_mutex_destroy_namespace (ns s) = Ret ())"
proof -
  have inv: "nm_inv s" using assms by (rule nm_inv_reach)
  then have good: "nm_good (node (ns s)) (pcs s)" by (simp add: nm_inv_def)
  have "users (pcs s) k \<noteq> {}" if "node (ns s) k = Some n" for n
    using nm_goodD(3,4) [OF good that] by auto
  moreover have "\<exists>n. node (ns s) k = Some n" if "users (pcs s) k \<noteq> {}"
    using nm_live [OF inv that] by blast
  ultimately show ?thesis
    using nm_exclusive [OF inv] nm_empty [OF inv] by (auto simp: named_mutex_destroy_namespace_def)
qed

theorem named_mutex_exclusion_witness:
  "named_mutex_destroy_namespace (ns nm_init) = Ret ()"
  using named_mutex_exclusion [OF rtranclp.rtrancl_refl, of 0 "[]" 0] by (simp add: nm_init_def)

text \<open>
  No lost wake-up: a thread that waits for a name can take it unless another thread holds it,
  and a thread inside \<^verbatim>\<open>named_mutex_unlock\<close> can always go on; so whenever some thread is under way,
  one can make a step.
\<close>

theorem named_mutex_progress:
  assumes "nm_step\<^sup>*\<^sup>* nm_init s" "pcs s t \<noteq> Idle"
  shows "(\<exists>s'. nm_step s s' \<and> pcs s' t \<noteq> pcs s t) \<or>
    (\<exists>k a u. pcs s t = Waiting k a \<and> u \<noteq> t \<and> pc_holds (pcs s u) = Some k \<and>
       (\<exists>s'. nm_step s s' \<and> pcs s' u \<noteq> pcs s u))"
proof -
  have inv: "nm_inv s" using assms(1) by (rule nm_inv_reach)
  then have good: "nm_good (node (ns s)) (pcs s)" by (simp add: nm_inv_def)
  note safe = nm_safe [OF inv]
  have holder: "\<exists>s'. nm_step s s' \<and> pcs s' u \<noteq> pcs s u" if "pc_holds (pcs s u) = Some k" for u k
  proof (cases "pcs s u")
    case (Holding k' a)
    with safe [of u k' a] nm_step.find [OF Holding] show ?thesis by fastforce
  next
    case (Found k' a)
    with safe [of u k' a] obtain ns' where "mutex_unlock k' a (ns s) = Ret ns'"
      by (cases "mutex_unlock k' a (ns s)") auto
    from nm_step.release [OF Found this] Found show ?thesis by fastforce
  qed (use that in auto)
  show ?thesis
  proof (cases "pcs s t")
    case (Waiting k a)
    with safe [of t k a] obtain r where r: "mutex_lock t k a (ns s) = Ret r"
      by (cases "mutex_lock t k a (ns s)") auto
    show ?thesis
    proof (cases r)
      case None
      obtain n where n: "node (ns s) k = Some n" "owner n \<noteq> None"
        using r None by (auto simp: mutex_lock_def nm_access_def split: option.splits if_splits)
      then obtain u where "pc_holds (pcs s u) = Some k" using nm_goodD(5) [OF good n(1)] by auto
      with holder Waiting show ?thesis by (metis pc_holds.simps(4) option.distinct(1))
    next
      case (Some ns')
      with nm_step.acquire [OF Waiting] r Waiting show ?thesis by fastforce
    qed
  next
    case (Released k a)
    with safe [of t k a] obtain ns' where "unlock_deref k a (ns s) = Ret ns'"
      by (cases "unlock_deref k a (ns s)") auto
    from nm_step.deref [OF Released this] Released show ?thesis by fastforce
  next
    case (Holding k a)
    then show ?thesis using holder [of t k] by simp
  next
    case (Found k a)
    then show ?thesis using holder [of t k] by simp
  qed (use assms(2) in simp)
qed

theorem named_mutex_progress_witness:
  "\<exists>s'. nm_step \<lparr>ns = Node False False Null \<lparr>nname = ''k'', mid = 5, owner = None, mref = 1\<rparr> Null,
     pcs = (\<lambda>_. Idle)(1 := Waiting ''k'' 5)\<rparr> s' \<and> pcs s' 1 \<noteq> Waiting ''k'' 5"
  using named_mutex_progress [OF example_lock, of 1] by (auto split: if_splits)

end
