(* ===== verification/Io.thy ===== *)
theory Io
  imports Cache Route Named_Mutex
begin

text \<open>
  A request on the server, \<^verbatim>\<open>lib/io.c\<close>: look in the cache, find the storage by the route table, lock
  the key, call the storage, keep the cache in step, and clean up (unlock, give the reference back).
  The state is what \<^verbatim>\<open>io_ctx_t\<close> points to and the state of the storages.
\<close>

section \<open>State\<close>

record 'w io_ctx =
  nmtx_ns :: "nmtx rb"
  iocache :: "cache option" \<comment> \<open>\<open>None\<close>: the daemon runs without a cache\<close>
  ioroute :: "'w route_list"
  ioworld :: "'w"

text \<open>
  What a request reads from its environment: clock values, the outcomes of its allocations, the
  address of the node it may allocate, its thread.
\<close>

record io_env =
  e_thread :: nat
  e_now :: timestamp
  e_get_mem :: bool
  e_lock_mem :: alloc
  e_lock_addr :: nat
  e_set_mem :: alloc
  e_now1 :: timestamp
  e_now2 :: timestamp

section \<open>Operations\<close>

definition cleanup :: "string option \<Rightarrow> nat option \<Rightarrow> 'w io_ctx \<Rightarrow> 'w io_ctx c_out" where
  "cleanup key st io =
     c_bind
       (case key of
          None \<Rightarrow> Ret io
        | Some k \<Rightarrow> c_bind (named_mutex_unlock k (nmtx_ns io)) (\<lambda>(_, ns'). Ret (io\<lparr>nmtx_ns := ns'\<rparr>)))
       (\<lambda>io. case st of
          None \<Rightarrow> Ret io
        | Some a \<Rightarrow> c_bind (route_deref a (ioroute io)) (\<lambda>route'. Ret (io\<lparr>ioroute := route'\<rparr>)))"

text \<open>The end of every request: \<^verbatim>\<open>pthread_cleanup_pop(true); return ret;\<close>\<close>

definition io_exit :: "string option \<Rightarrow> nat option \<Rightarrow> 'r \<Rightarrow> 'w io_ctx \<Rightarrow> ('r \<times> 'w io_ctx) option c_out" where
  "io_exit key st r io = c_bind (cleanup key st io) (\<lambda>io. Ret (Some (r, io)))"

definition storage_at :: "nat \<Rightarrow> 'w route_list \<Rightarrow> 'w storage_ctx c_out" where
  "storage_at a route = (case List.find (\<lambda>i. addr i = a) route of None \<Rightarrow> UB | Some i \<Rightarrow> Ret (storage i))"

text \<open>
  The common course of \<^verbatim>\<open>io_get\<close> after its cache lookup, of \<^verbatim>\<open>io_set\<close> and of \<^verbatim>\<open>io_del\<close>: \<open>body\<close> is what
  happens while the key is locked, \<open>err\<close> makes the result for an error number. \<open>Ret None\<close> is a
  request that waits for the key.
\<close>

definition io_routed ::
  "io_env \<Rightarrow> (errno \<Rightarrow> 'r) \<Rightarrow>
   ('w storage_ctx \<Rightarrow> cache option \<Rightarrow> 'w \<Rightarrow> ('r \<times> cache option \<times> 'w) c_out) \<Rightarrow>
   'w io_ctx \<Rightarrow> string \<Rightarrow> ('r \<times> 'w io_ctx) option c_out" where
  "io_routed env err body io key =
     (case route_match True (ioroute io) key of
        (Inl e, route') \<Rightarrow> io_exit None None (err e) (io\<lparr>ioroute := route'\<rparr>)
      | (Inr a, route') \<Rightarrow>
          let io = io\<lparr>ioroute := route'\<rparr>
          in c_bind (named_mutex_lock (e_thread env) (e_lock_mem env) (e_lock_addr env) key (nmtx_ns io)) (\<lambda>l.
               case l of
                 None \<Rightarrow> Ret None
               | Some (Some e, ns') \<Rightarrow> io_exit None (Some a) (err e) (io\<lparr>nmtx_ns := ns'\<rparr>)
               | Some (None, ns') \<Rightarrow>
                   let io = io\<lparr>nmtx_ns := ns'\<rparr>
                   in c_bind (storage_at a (ioroute io)) (\<lambda>st.
                        c_bind (body st (iocache io) (ioworld io)) (\<lambda>(r, c', w').
                          io_exit (Some key) (Some a) r (io\<lparr>iocache := c', ioworld := w'\<rparr>)))))"

text \<open>\<^verbatim>\<open>cache_set\<close> if there is a cache; its result is ignored.\<close>

definition io_cache_set ::
  "io_env \<Rightarrow> cache option \<Rightarrow> string \<Rightarrow> value_t \<Rightarrow> timestamp \<Rightarrow> cache option c_out" where
  "io_cache_set env cache key v dur =
     (case cache of
        None \<Rightarrow> Ret None
      | Some c \<Rightarrow> c_bind (cache_set (e_set_mem env) (e_now1 env) (e_now2 env) c key v dur) (\<lambda>(_, c'). Ret (Some c')))"

definition get_body ::
  "io_env \<Rightarrow> string \<Rightarrow> 'w storage_ctx \<Rightarrow> cache option \<Rightarrow> 'w \<Rightarrow>
   ((errno + value_t \<times> timestamp) \<times> cache option \<times> 'w) c_out" where
  "get_body env key st cache w =
     c_bind (storage_get st w key) (\<lambda>(r, w').
       case r of
         Inl e \<Rightarrow> Ret (Inl e, cache, w')
       | Inr (v, d) \<Rightarrow> c_bind (io_cache_set env cache key v d) (\<lambda>cache'. Ret (Inr (v, d), cache', w')))"

definition io_get ::
  "io_env \<Rightarrow> 'w io_ctx \<Rightarrow> string \<Rightarrow> ((errno + value_t \<times> timestamp) \<times> 'w io_ctx) option c_out" where
  "io_get env io key =
     (case iocache io of
        None \<Rightarrow> io_routed env Inl (get_body env key) io key
      | Some c \<Rightarrow>
          c_bind (cache_get (e_get_mem env) (e_now env) c key) (\<lambda>(r, c').
            let io = io\<lparr>iocache := Some c'\<rparr>
            in if r \<noteq> Inl ENOENT then Ret (Some (r, io))
               else io_routed env Inl (get_body env key) io key))"

text \<open>\<^verbatim>\<open>io_update\<close> is given the storage by its caller; the value it reads goes to the cache only.\<close>

definition io_update ::
  "io_env \<Rightarrow> 'w io_ctx \<Rightarrow> string \<Rightarrow> 'w storage_ctx \<Rightarrow> (errno option \<times> 'w io_ctx) option c_out" where
  "io_update env io key st =
     (if iocache io = None then Ret (Some (None, io))
      else c_bind (named_mutex_lock (e_thread env) (e_lock_mem env) (e_lock_addr env) key (nmtx_ns io)) (\<lambda>l.
        case l of
          None \<Rightarrow> Ret None
        | Some (Some e, ns') \<Rightarrow> io_exit None None (Some e) (io\<lparr>nmtx_ns := ns'\<rparr>)
        | Some (None, ns') \<Rightarrow>
            c_bind (get_body env key st (iocache io) (ioworld io)) (\<lambda>(r, c', w').
              io_exit (Some key) None (case r of Inl e \<Rightarrow> Some e | Inr _ \<Rightarrow> None)
                (io\<lparr>nmtx_ns := ns', iocache := c', ioworld := w'\<rparr>))))"

definition set_body ::
  "io_env \<Rightarrow> string \<Rightarrow> value_t \<Rightarrow> 'w storage_ctx \<Rightarrow> cache option \<Rightarrow> 'w \<Rightarrow>
   (errno option \<times> cache option \<times> 'w) c_out" where
  "set_body env key v st cache w =
     c_bind (storage_set st w key v) (\<lambda>(r, w').
       case r of
         Some e \<Rightarrow> Ret (Some e, cache, w')
       | None \<Rightarrow> c_bind (io_cache_set env cache key v 0) (\<lambda>cache'. Ret (None, cache', w')))"

definition io_set ::
  "io_env \<Rightarrow> 'w io_ctx \<Rightarrow> string \<Rightarrow> value_t \<Rightarrow> (errno option \<times> 'w io_ctx) option c_out" where
  "io_set env io key v = io_routed env Some (set_body env key v) io key"

definition del_body ::
  "string \<Rightarrow> 'w storage_ctx \<Rightarrow> cache option \<Rightarrow> 'w \<Rightarrow> (errno option \<times> cache option \<times> 'w) c_out" where
  "del_body key st cache w =
     c_bind (storage_del st w key) (\<lambda>(r, w').
       case r of
         Some e \<Rightarrow> Ret (Some e, cache, w')
       | None \<Rightarrow> Ret (None, map_option (\<lambda>c. snd (cache_del c key)) cache, w'))"

definition io_del :: "io_env \<Rightarrow> 'w io_ctx \<Rightarrow> string \<Rightarrow> (errno option \<times> 'w io_ctx) option c_out" where
  "io_del env io key = io_routed env Some (del_body key) io key"

section \<open>The course of a request\<close>

text \<open>What holds between requests: the mutex tree and the route table are in order, the key is not
  held by another request, the cache's tree is in order.\<close>

definition io_ok :: "'w io_ctx \<Rightarrow> bool" where
  "io_ok io \<longleftrightarrow> rb_inv nname (nmtx_ns io) \<and> route_ok (ioroute io) \<and>
     (case iocache io of None \<Rightarrow> True | Some c \<Rightarrow> cache_inv c)"

text \<open>The same mutexes and the same table with the same counts: nothing is leaked.\<close>

definition same_refs :: "'w io_ctx \<Rightarrow> 'w io_ctx \<Rightarrow> bool" where
  "same_refs io io' \<longleftrightarrow>
     ioroute io' = ioroute io \<and> node (nmtx_ns io') = node (nmtx_ns io) \<and> rb_inv nname (nmtx_ns io')"

lemma bump_back: "map (bump a (- 1)) (map (bump a 1) route) = route"
  by (induction route) (auto simp: bump_def)

lemma find_addr:
  "route_ok route \<Longrightarrow> i \<in> set route \<Longrightarrow> List.find (\<lambda>j. addr j = addr i) (map (bump a d) route) = Some (bump a d i)"
proof (induction route)
  case (Cons j route)
  then have "route_ok route" "addr j \<notin> addr ` set route" by (auto simp: route_ok_def)
  with Cons show ?case by (auto simp: image_iff)
qed simp

lemma storage_at_bump:
  "route_ok route \<Longrightarrow> i \<in> set route \<Longrightarrow> storage_at (addr i) (map (bump a d) route) = Ret (storage i)"
  by (simp add: storage_at_def find_addr)

lemma cleanup_held:
  assumes "rb_inv nname ns'" "name_free ns0 k" "node ns' = (node ns0)(k \<mapsto> locked_node ns0 u b k)"
    and "nmtx_ns io = ns'" "ioroute io = map (bump a 1) route" "route_ok route" "a \<in> addr ` set route"
  shows "\<exists>ns''. cleanup (Some k) (Some a) io = Ret (io\<lparr>nmtx_ns := ns'', ioroute := route\<rparr>) \<and>
    rb_inv nname ns'' \<and> node ns'' = node ns0"
proof -
  obtain ns'' where ns'': "named_mutex_unlock k ns' = Ret (None, ns'')" "rb_inv nname ns''" "node ns'' = node ns0"
    using named_mutex_unlock_held [OF assms(1-3)] by blast
  have "route_deref a (map (bump a 1) route) = Ret route"
    using assms(6,7) bump_back [of a route]
    by (simp add: route_deref_eq route_ok_def comp_def image_image del: map_map)
  with ns'' assms(4,5) show ?thesis by (intro exI [of _ ns'']) (simp add: cleanup_def)
qed

lemma io_routed_none:
  assumes "io_ok io" "List.find (serves key) (ioroute io) = None"
  shows "io_routed env err body io key = Ret (Some (err ENOENT, io))"
proof -
  have "distinct (map addr (ioroute io))" using assms(1) by (simp add: io_ok_def route_ok_def)
  then have "route_match True (ioroute io) key = (Inl ENOENT, ioroute io)"
    using route_match_fst [of True "ioroute io" key] route_match_snd [of "ioroute io" True key] assms(2)
    by (metis option.case(1) prod.collapse)
  then show ?thesis by (simp add: io_routed_def io_exit_def cleanup_def)
qed

lemma route_match_found:
  assumes "route_ok route" "List.find (serves key) route = Some i"
  shows "route_match True route key = (Inr (addr i), map (bump (addr i) 1) route)" "i \<in> set route"
proof -
  have "distinct (map addr route)" using assms(1) by (simp add: route_ok_def)
  then show "route_match True route key = (Inr (addr i), map (bump (addr i) 1) route)"
    using route_match_fst [of True route key] route_match_snd [of route True key] assms(2)
    by (simp add: prod_eq_iff)
  show "i \<in> set route" using find_in_set [OF assms(2)] by simp
qed

lemma io_routed_some:
  assumes ok: "io_ok io" and free: "name_free (nmtx_ns io) key"
    and i: "List.find (serves key) (ioroute io) = Some i" and mem: "e_lock_mem env 0" "e_lock_mem env 1"
    and body: "body (storage i) (iocache io) (ioworld io) = Ret (r, c', w')"
  shows "\<exists>io'. io_routed env err body io key = Ret (Some (r, io')) \<and> same_refs io io' \<and>
    iocache io' = c' \<and> ioworld io' = w'"
proof -
  have rb: "rb_inv nname (nmtx_ns io)" and route: "route_ok (ioroute io)" using ok by (auto simp: io_ok_def)
  note found = route_match_found [OF route i]
  obtain ns' where ns': "named_mutex_lock (e_thread env) (e_lock_mem env) (e_lock_addr env) key (nmtx_ns io) = Ret (Some (None, ns'))"
    "rb_inv nname ns'" "node ns' = (node (nmtx_ns io))(key \<mapsto> locked_node (nmtx_ns io) (e_thread env) (e_lock_addr env) key)"
    using named_mutex_lock_free [where u = "e_thread env" and a = "e_lock_addr env", OF rb free mem] by blast
  let ?io = "io\<lparr>ioroute := map (bump (addr i) 1) (ioroute io), nmtx_ns := ns', iocache := c', ioworld := w'\<rparr>"
  obtain ns'' where ns'': "cleanup (Some key) (Some (addr i)) ?io = Ret (?io\<lparr>nmtx_ns := ns'', ioroute := ioroute io\<rparr>)"
    "rb_inv nname ns''" "node ns'' = node (nmtx_ns io)"
    using cleanup_held [OF ns'(2) free ns'(3), of ?io "addr i" "ioroute io"] route found(2) by auto
  have "io_routed env err body io key = Ret (Some (r, ?io\<lparr>nmtx_ns := ns'', ioroute := ioroute io\<rparr>))"
    using found(1) ns'(1) ns''(1) body storage_at_bump [OF route found(2)]
    by (simp add: io_routed_def io_exit_def)
  with ns''(2,3) show ?thesis by (auto simp: same_refs_def)
qed

lemma io_routed_nomem:
  assumes ok: "io_ok io" and i: "List.find (serves key) (ioroute io) = Some i"
    and mem: "\<not> (e_lock_mem env 0 \<and> e_lock_mem env 1)"
  shows "io_routed env err body io key = Ret (Some (err ENOMEM, io))"
proof -
  have route: "route_ok (ioroute io)" using ok by (auto simp: io_ok_def)
  note found = route_match_found [OF route i]
  have "route_deref (addr i) (map (bump (addr i) 1) (ioroute io)) = Ret (ioroute io)"
    using route found(2) bump_back [of "addr i" "ioroute io"]
    by (simp add: route_deref_eq route_ok_def comp_def image_image del: map_map)
  with found(1) named_mutex_lock_nomem [OF mem] show ?thesis
    by (simp add: io_routed_def io_exit_def cleanup_def)
qed

section \<open>The cache and the storages\<close>

text \<open>
  The storages of a route table as one map: the storage that serves a key keeps the contract of
  \<open>kv_storage\<close> for that key, and leaves the keys of the other storages alone.
\<close>

locale io_backend =
  fixes route :: "'w route_list" and ok :: "'w \<Rightarrow> bool" and backing :: "'w \<Rightarrow> string \<Rightarrow> value_t option"
    and keys :: "string \<Rightarrow> bool" and vals :: "value_t \<Rightarrow> bool"
  assumes served_get: "List.find (serves k) route = Some i \<Longrightarrow> ok w \<Longrightarrow> keys k \<Longrightarrow> backing w k = Some v \<Longrightarrow>
      vals v \<and> (\<exists>w' d. storage_get (storage i) w k = Ret (Inr (v, d), w') \<and> ok w' \<and> backing w' = backing w)"
    and served_get_none: "List.find (serves k) route = Some i \<Longrightarrow> ok w \<Longrightarrow> keys k \<Longrightarrow> backing w k = None \<Longrightarrow>
      \<exists>w' e. storage_get (storage i) w k = Ret (Inl e, w') \<and> errno_ok e \<and> ok w' \<and> backing w' = backing w"
    and served_set: "List.find (serves k) route = Some i \<Longrightarrow> ok w \<Longrightarrow> keys k \<Longrightarrow> vals v \<Longrightarrow>
      \<exists>r w'. storage_set (storage i) w k v = Ret (r, w') \<and> (\<forall>e. r = Some e \<longrightarrow> errno_ok e) \<and> ok w' \<and>
        backing w' k = (if r = None then Some v else backing w k) \<and>
        (\<forall>j. keys j \<longrightarrow> j \<noteq> k \<longrightarrow> backing w' j = backing w j)"
    and served_del: "List.find (serves k) route = Some i \<Longrightarrow> ok w \<Longrightarrow> keys k \<Longrightarrow>
      \<exists>r w'. storage_del (storage i) w k = Ret (r, w') \<and> (\<forall>e. r = Some e \<longrightarrow> errno_ok e) \<and> ok w' \<and>
        backing w' k = (if r = None then None else backing w k) \<and>
        (\<forall>j. keys j \<longrightarrow> j \<noteq> k \<longrightarrow> backing w' j = backing w j)"
    and vals_wf: "vals v \<Longrightarrow> value_wf v"

text \<open>A table with one storage that keeps the contract is such a backend.\<close>

lemma kv_storage_backend:
  assumes "kv_storage (storage i) ok contents keys vals"
  shows "io_backend [i] ok contents keys vals"
proof -
  have i: "j = i" if "List.find (serves k) [i] = Some j" for j k
    using that by (simp split: if_splits)
  show ?thesis
    by unfold_locales
      (use kv_storage.get_law [OF assms] kv_storage.get_none_law [OF assms] kv_storage.set_law [OF assms]
        kv_storage.del_law [OF assms] kv_storage.vals_ok [OF assms] in \<open>blast dest!: i\<close>)+
qed

text \<open>
  Coherence: everything in the cache under a key of the backend, expired or not, is what the
  storage has for it; no request is under way.
\<close>

definition coherent ::
  "'w route_list \<Rightarrow> ('w \<Rightarrow> bool) \<Rightarrow> ('w \<Rightarrow> string \<Rightarrow> value_t option) \<Rightarrow> (string \<Rightarrow> bool) \<Rightarrow> 'w io_ctx \<Rightarrow> bool" where
  "coherent route ok backing keys io \<longleftrightarrow>
     io_ok io \<and> ok (ioworld io) \<and> ioroute io = route \<and> (\<forall>k. name_free (nmtx_ns io) k) \<and>
     (\<forall>c k i. iocache io = Some c \<longrightarrow> keys k \<longrightarrow> item_at c k = Some i \<longrightarrow>
        (\<exists>v. cvalue i = Some v \<and> value_ok v \<and> backing (ioworld io) k = Some v))"

definition env_ok :: "io_env \<Rightarrow> bool" where
  "env_ok env \<longleftrightarrow> e_get_mem env \<and> e_lock_mem env = mem_ok \<and> e_set_mem env = mem_ok"

lemma name_free_cong: "node t' = node t \<Longrightarrow> name_free t' k = name_free t k"
  by (simp add: name_free_def fun_eq_iff)

lemma io_cache_set_items:
  assumes "case cache of None \<Rightarrow> True | Some c \<Rightarrow> cache_inv c" "value_ok v" "env_ok env"
  obtains (none) "cache = None" "io_cache_set env cache k v d = Ret None"
  | (set) c c' where "cache = Some c" "io_cache_set env cache k v d = Ret (Some c')" "cache_inv c'"
      "item_at c' = (item_at c)(k \<mapsto> new_item c (e_now1 env) (e_now2 env) k v d)"
proof (cases cache)
  case None
  with that(1) show ?thesis by (simp add: io_cache_set_def)
next
  case (Some c)
  with assms(1) have "cache_inv c" by simp
  from cache_set_ok [OF this assms(2), of "e_now1 env" "e_now2 env" k d] obtain c' where
    "cache_set mem_ok (e_now1 env) (e_now2 env) c k v d = Ret (None, c')" "cache_inv c'"
    "item_at c' = (item_at c)(k \<mapsto> new_item c (e_now1 env) (e_now2 env) k v d)" by blast
  with that(2) [OF Some] Some assms(3) show ?thesis by (simp add: io_cache_set_def env_ok_def)
qed

lemma coherent_update:
  assumes coh: "coherent route ok backing keys io" and refs: "same_refs io io'" and okw: "ok (ioworld io')"
    and inv: "case iocache io' of None \<Rightarrow> True | Some c \<Rightarrow> cache_inv c"
    and items: "\<And>c k i. iocache io' = Some c \<Longrightarrow> keys k \<Longrightarrow> item_at c k = Some i \<Longrightarrow>
      \<exists>v. cvalue i = Some v \<and> value_ok v \<and> backing (ioworld io') k = Some v"
  shows "coherent route ok backing keys io'"
  using assms name_free_cong [of "nmtx_ns io'" "nmtx_ns io"]
  unfolding coherent_def io_ok_def same_refs_def by (metis (no_types, lifting))

lemma coherentD:
  assumes "coherent route ok backing keys io"
  shows "io_ok io" "ok (ioworld io)" "ioroute io = route" "name_free (nmtx_ns io) k"
    "case iocache io of None \<Rightarrow> True | Some c \<Rightarrow> cache_inv c"
    "iocache io = Some c \<Longrightarrow> keys k \<Longrightarrow> item_at c k = Some i \<Longrightarrow>
       \<exists>v. cvalue i = Some v \<and> value_ok v \<and> backing (ioworld io) k = Some v"
  using assms unfolding coherent_def io_ok_def by blast+

lemma new_item_simps [simp]:
  "cvalue (new_item c n1 n2 k v d) = Some v" "ckey (new_item c n1 n2 k v d) = k"
  by (simp_all add: new_item_def)

context io_backend
begin

abbreviation coh :: "'w io_ctx \<Rightarrow> bool" where
  "coh \<equiv> coherent route ok backing keys"

lemma vals_value_ok: "vals v \<Longrightarrow> value_ok v"
  using vals_wf by (simp add: value_wf_def)

lemma routed_get:
  assumes coh: "coh io" and env: "env_ok env" and k: "keys k" and i: "List.find (serves k) route = Some i"
  shows "\<exists>r io'. io_routed env Inl (get_body env k) io k = Ret (Some (r, io')) \<and> coh io' \<and> same_refs io io' \<and>
    backing (ioworld io') = backing (ioworld io) \<and>
    (case backing (ioworld io) k of None \<Rightarrow> \<exists>e. r = Inl e \<and> errno_ok e | Some v \<Rightarrow> \<exists>d. r = Inr (v, d))"
proof -
  note D = coherentD [OF coh]
  have mem: "e_lock_mem env 0" "e_lock_mem env 1" using env by (auto simp: env_ok_def)
  have i': "List.find (serves k) (ioroute io) = Some i" using i D(3) by simp
  note routed = io_routed_some [OF D(1) D(4) i' mem, where err = Inl and body = "get_body env k"]
  show ?thesis
  proof (cases "backing (ioworld io) k")
    case None
    with served_get_none [OF i D(2) k] obtain w' e where get: "storage_get (storage i) (ioworld io) k = Ret (Inl e, w')" and e: "errno_ok e"
      and w': "ok w'" "backing w' = backing (ioworld io)" by blast
    then have "get_body env k (storage i) (iocache io) (ioworld io) = Ret (Inl e, iocache io, w')"
      by (simp add: get_body_def)
    from routed [OF this] obtain io' where io': "io_routed env Inl (get_body env k) io k = Ret (Some (Inl e, io'))"
      "same_refs io io'" "iocache io' = iocache io" "ioworld io' = w'" by blast
    moreover have "coh io'"
      using coherent_update [OF coh io'(2)] w' io'(3,4) D(5,6) by simp
    ultimately show ?thesis using None w' e by auto
  next
    case (Some v)
    with served_get [OF i D(2) k] obtain w' d where v: "vals v"
      and get: "storage_get (storage i) (ioworld io) k = Ret (Inr (v, d), w')"
      and w': "ok w'" "backing w' = backing (ioworld io)" by blast
    have "value_ok v" using v by (rule vals_value_ok)
    obtain c' where set: "io_cache_set env (iocache io) k v d = Ret c'"
      and inv: "case c' of None \<Rightarrow> True | Some c \<Rightarrow> cache_inv c"
      and items: "\<And>c j it. c' = Some c \<Longrightarrow> keys j \<Longrightarrow> item_at c j = Some it \<Longrightarrow>
        \<exists>u. cvalue it = Some u \<and> value_ok u \<and> backing w' j = Some u"
      using D(5) \<open>value_ok v\<close> env
    proof (cases rule: io_cache_set_items [of "iocache io" v env k d])
      case none
      with that show thesis by simp
    next
      case (set c c')
      have "\<exists>u. cvalue it = Some u \<and> value_ok u \<and> backing w' j = Some u"
        if "keys j" "item_at c' j = Some it" for j it
        using that set(4) D(6) [OF set(1), of j] w'(2) Some \<open>value_ok v\<close> by (cases "j = k") auto
      with that [of "Some c'"] set show thesis by simp
    qed
    then have "get_body env k (storage i) (iocache io) (ioworld io) = Ret (Inr (v, d), c', w')"
      using get by (simp add: get_body_def)
    from routed [OF this] obtain io' where io': "io_routed env Inl (get_body env k) io k = Ret (Some (Inr (v, d), io'))"
      "same_refs io io'" "iocache io' = c'" "ioworld io' = w'" by blast
    moreover have "coh io'"
      by (rule coherent_update [OF coh io'(2)]) (use io'(3,4) w'(1) inv items in auto)
    ultimately show ?thesis using Some w' by auto
  qed
qed

lemma routed_set:
  assumes coh: "coh io" and env: "env_ok env" and k: "keys k" and v: "vals v"
    and i: "List.find (serves k) route = Some i"
  shows "\<exists>r io'. io_set env io k v = Ret (Some (r, io')) \<and> coh io' \<and> same_refs io io' \<and> (\<forall>e. r = Some e \<longrightarrow> errno_ok e) \<and>
    backing (ioworld io') k = (if r = None then Some v else backing (ioworld io) k) \<and>
    (\<forall>j. keys j \<longrightarrow> j \<noteq> k \<longrightarrow> backing (ioworld io') j = backing (ioworld io) j)"
proof -
  note D = coherentD [OF coh]
  have mem: "e_lock_mem env 0" "e_lock_mem env 1" using env by (auto simp: env_ok_def)
  have i': "List.find (serves k) (ioroute io) = Some i" using i D(3) by simp
  note routed = io_routed_some [OF D(1) D(4) i' mem, where err = Some and body = "set_body env k v"]
  from served_set [OF i D(2) k v] obtain r w' where set: "storage_set (storage i) (ioworld io) k v = Ret (r, w')" and e: "\<forall>e. r = Some e \<longrightarrow> errno_ok e"
    and w': "ok w'" "backing w' k = (if r = None then Some v else backing (ioworld io) k)"
      "\<forall>j. keys j \<longrightarrow> j \<noteq> k \<longrightarrow> backing w' j = backing (ioworld io) j" by blast
  have vok: "value_ok v" using v by (rule vals_value_ok)
  obtain c' where body: "set_body env k v (storage i) (iocache io) (ioworld io) = Ret (r, c', w')"
    and inv: "case c' of None \<Rightarrow> True | Some c \<Rightarrow> cache_inv c"
    and items: "\<And>c j it. c' = Some c \<Longrightarrow> keys j \<Longrightarrow> item_at c j = Some it \<Longrightarrow>
      \<exists>u. cvalue it = Some u \<and> value_ok u \<and> backing w' j = Some u"
  proof (cases r)
    case (Some e)
    have "backing w' j = backing (ioworld io) j" if "keys j" for j using w'(2,3) Some that by (cases "j = k") auto
    with that [of "iocache io"] set Some D(5,6) show thesis by (simp add: set_body_def)
  next
    case None
    from D(5) vok env show thesis
    proof (cases rule: io_cache_set_items [of "iocache io" v env k 0])
      case none
      with that [of None] set None show thesis by (simp add: set_body_def)
    next
      case (set c c')
      have "\<exists>u. cvalue it = Some u \<and> value_ok u \<and> backing w' j = Some u"
        if "keys j" "item_at c' j = Some it" for j it
        using that set(4) D(6) [OF set(1), of j] w'(2,3) None vok by (cases "j = k") auto
      with that [of "Some c'"] set \<open>storage_set (storage i) (ioworld io) k v = Ret (r, w')\<close> None
      show thesis by (simp add: set_body_def)
    qed
  qed
  from routed [OF body] obtain io' where io': "io_set env io k v = Ret (Some (r, io'))"
    "same_refs io io'" "iocache io' = c'" "ioworld io' = w'" by (auto simp: io_set_def)
  moreover have "coh io'"
    by (rule coherent_update [OF coh io'(2)]) (use io'(3,4) w'(1) inv items in auto)
  ultimately show ?thesis using w' e by blast
qed

lemma routed_del:
  assumes coh: "coh io" and env: "env_ok env" and k: "keys k" and i: "List.find (serves k) route = Some i"
  shows "\<exists>r io'. io_del env io k = Ret (Some (r, io')) \<and> coh io' \<and> same_refs io io' \<and> (\<forall>e. r = Some e \<longrightarrow> errno_ok e) \<and>
    backing (ioworld io') k = (if r = None then None else backing (ioworld io) k) \<and>
    (\<forall>j. keys j \<longrightarrow> j \<noteq> k \<longrightarrow> backing (ioworld io') j = backing (ioworld io) j)"
proof -
  note D = coherentD [OF coh]
  have mem: "e_lock_mem env 0" "e_lock_mem env 1" using env by (auto simp: env_ok_def)
  have i': "List.find (serves k) (ioroute io) = Some i" using i D(3) by simp
  note routed = io_routed_some [OF D(1) D(4) i' mem, where err = Some and body = "del_body k"]
  from served_del [OF i D(2) k] obtain r w' where del: "storage_del (storage i) (ioworld io) k = Ret (r, w')" and e: "\<forall>e. r = Some e \<longrightarrow> errno_ok e"
    and w': "ok w'" "backing w' k = (if r = None then None else backing (ioworld io) k)"
      "\<forall>j. keys j \<longrightarrow> j \<noteq> k \<longrightarrow> backing w' j = backing (ioworld io) j" by blast
  let ?c = "if r = None then map_option (\<lambda>c. snd (cache_del c k)) (iocache io) else iocache io"
  have body: "del_body k (storage i) (iocache io) (ioworld io) = Ret (r, ?c, w')"
    using del by (auto simp: del_body_def split: option.split)
  from routed [OF body] obtain io' where io': "io_del env io k = Ret (Some (r, io'))"
    "same_refs io io'" "iocache io' = ?c" "ioworld io' = w'" by (auto simp: io_del_def)
  have "coh io'"
  proof (rule coherent_update [OF coh io'(2)])
    show "ok (ioworld io')" using io'(4) w'(1) by simp
    show "case iocache io' of None \<Rightarrow> True | Some c \<Rightarrow> cache_inv c"
      using io'(3) D(5) cache_del_item(2) by (auto split: option.splits if_splits)
    fix c j it
    assume c: "iocache io' = Some c" and j: "keys j" "item_at c j = Some it"
    obtain c0 where c0: "iocache io = Some c0" using c io'(3) by (cases "iocache io") (auto split: if_splits)
    then have inv: "cache_inv c0" using D(5) by simp
    have "item_at c0 j = Some it \<and> (r = None \<longrightarrow> j \<noteq> k)"
      using c c0 j io'(3) cache_del_item(3) [OF inv, of k] by (auto split: if_splits)
    with D(6) [OF c0 j(1)] w'(2,3) j(1) io'(4)
    show "\<exists>v. cvalue it = Some v \<and> value_ok v \<and> backing (ioworld io') j = Some v"
      by (cases "j = k") auto
  qed
  with io' w' e show ?thesis by blast
qed

lemma get_coherent:
  assumes coh: "coh io" and env: "env_ok env" and k: "keys k" and i: "List.find (serves k) route = Some i"
  shows "\<exists>r io'. io_get env io k = Ret (Some (r, io')) \<and> coh io' \<and> same_refs io io' \<and>
    backing (ioworld io') = backing (ioworld io) \<and>
    (case backing (ioworld io) k of None \<Rightarrow> \<exists>e. r = Inl e \<and> errno_ok e | Some v \<Rightarrow> \<exists>d. r = Inr (v, d))"
proof (cases "iocache io")
  case None
  then show ?thesis using routed_get [OF assms] by (simp add: io_get_def)
next
  case (Some c)
  note D = coherentD [OF coh]
  have inv: "cache_inv c" using D(5) Some by simp
  have mem: "e_get_mem env" using env by (simp add: env_ok_def)
  have hit: "\<exists>v. cvalue it = Some v \<and> value_ok v \<and> backing (ioworld io) k = Some v" if "item_at c k = Some it" for it
    by (rule D(6) [OF Some k that])
  obtain r c' where get: "cache_get (e_get_mem env) (e_now env) c k = Ret (r, c')"
    and r: "r = Inl ENOENT \<or> (\<exists>v d. r = Inr (v, d) \<and> backing (ioworld io) k = Some v)"
  proof (cases "item_at c k")
    case None
    with that [of "Inl ENOENT" c] show thesis by (simp add: cache_get_def item_at_def)
  next
    case (Some it)
    then obtain v where "cvalue it = Some v" "value_ok v" "backing (ioworld io) k = Some v" using hit by blast
    with that Some mem show thesis
      by (cases "duration_is_outdate it (e_now env)") (simp_all add: cache_get_def item_at_def Let_def value_dup_eq)
  qed
  let ?io = "io\<lparr>iocache := Some c'\<rparr>"
  have refs: "same_refs io ?io" using D(1) by (simp add: same_refs_def io_ok_def)
  have coh': "coh ?io"
    by (rule coherent_update [OF coh refs]) (use D(2,6) Some inv cache_get_state [OF get] in auto)
  show ?thesis
  proof (cases "r = Inl ENOENT")
    case True
    then have eq: "io_get env io k = io_routed env Inl (get_body env k) ?io k"
      using Some get by (simp add: io_get_def)
    have "same_refs io io'" if "same_refs ?io io'" for io'
      using that by (simp add: same_refs_def)
    then show ?thesis unfolding eq using routed_get [OF coh' env k i] by auto
  next
    case False
    with r Some get coh' refs show ?thesis by (auto simp: io_get_def)
  qed
qed

end

section \<open>Properties\<close>

text \<open>
  C25: a request that runs to its end leaves nothing behind, on every path: whatever the storage
  does, the reference counts of the route table and the named mutexes are what they were before.
  When no storage serves the key the result is \<open>ENOENT\<close>; when the lock cannot be allocated it is
  \<open>ENOMEM\<close>; otherwise it is the storage's own result.
\<close>

theorem io_set_balanced:
  assumes "io_ok io" "name_free (nmtx_ns io) key"
    and "\<And>i. List.find (serves key) (ioroute io) = Some i \<Longrightarrow>
      \<exists>c' w'. set_body env key v (storage i) (iocache io) (ioworld io) = Ret (res i, c', w')"
  shows "\<exists>r io'. io_set env io key v = Ret (Some (r, io')) \<and> same_refs io io' \<and>
    r = (case List.find (serves key) (ioroute io) of
           None \<Rightarrow> Some ENOENT
         | Some i \<Rightarrow> if e_lock_mem env 0 \<and> e_lock_mem env 1 then res i else Some ENOMEM)"
proof (cases "List.find (serves key) (ioroute io)")
  case None
  have "same_refs io io" using assms(1) by (simp add: same_refs_def io_ok_def)
  with io_routed_none [OF assms(1) None, of env Some "set_body env key v"] None show ?thesis
    by (simp add: io_set_def)
next
  case (Some i)
  show ?thesis
  proof (cases "e_lock_mem env 0 \<and> e_lock_mem env 1")
    case True
    with assms(3) [OF Some] io_routed_some [OF assms(1,2) Some, of env "set_body env key v" _ _ _ Some] Some
    show ?thesis by (fastforce simp: io_set_def)
  next
    case False
    have "same_refs io io" using assms(1) by (simp add: same_refs_def io_ok_def)
    with io_routed_nomem [OF assms(1) Some False, of Some "set_body env key v"] Some False show ?thesis
      by (auto simp: io_set_def)
  qed
qed

theorem io_set_balanced_witness:
  "\<exists>io'. io_set \<lparr>e_thread = 1, e_now = 5, e_get_mem = True, e_lock_mem = mem_ok, e_lock_addr = 9,
        e_set_mem = mem_ok, e_now1 = 5, e_now2 = 5\<rparr>
      \<lparr>nmtx_ns = Null, iocache = None,
       ioroute = [\<lparr>addr = 7, storage = nil_storage ''s'', prefix = [''*''], nref = 2\<rparr>], ioworld = 0\<rparr>
      ''k'' \<lparr>vtype = 1, vlength = 0, vdata = []\<rparr> = Ret (Some (Some EOPNOTSUPP, io')) \<and>
     ioroute io' = [\<lparr>addr = 7, storage = nil_storage ''s'', prefix = [''*''], nref = 2\<rparr>]"
proof -
  let ?env = "\<lparr>e_thread = 1, e_now = 5, e_get_mem = True, e_lock_mem = mem_ok, e_lock_addr = 9,
        e_set_mem = mem_ok, e_now1 = 5, e_now2 = 5\<rparr>"
  let ?route = "[\<lparr>addr = 7, storage = nil_storage ''s'', prefix = [''*''], nref = 2\<rparr>]"
  let ?io = "\<lparr>nmtx_ns = Null, iocache = None, ioroute = ?route, ioworld = 0\<rparr>"
  have "io_ok ?io" using nt.inv_empty by (simp add: io_ok_def route_ok_def)
  moreover have "name_free (nmtx_ns ?io) ''k''" by (simp add: name_free_def)
  ultimately show ?thesis
    using io_set_balanced [of ?io "''k''" ?env "\<lparr>vtype = 1, vlength = 0, vdata = []\<rparr>" "\<lambda>_. Some EOPNOTSUPP"]
    by (auto simp: serves_def set_body_def storage_set_def same_refs_def)
qed

end
