(* ===== verification/Builtin.thy ===== *)
theory Builtin
  imports Storage
begin

text \<open>
  The built-in storages that need no server: \<^verbatim>\<open>lib/builtin/file.c\<close>, \<^verbatim>\<open>lib/builtin/null.c\<close> and
  \<^verbatim>\<open>lib/builtin/tcp.c\<close>. The file storage keeps the packed bytes of a value in a file named by its key;
  the file system is a map from paths to contents with the ways in which it can fail.
\<close>

section \<open>Files\<close>

record fs =
  files :: "string \<Rightarrow> byte list option"
  fopen_err :: "string \<Rightarrow> bool \<Rightarrow> errno option" \<comment> \<open>opening a path, for writing if \<open>True\<close>\<close>
  unlink_err :: "string \<Rightarrow> errno option"
  room :: "nat option" \<comment> \<open>how many bytes an \<^verbatim>\<open>fwrite\<close> can write; \<open>None\<close> is no limit\<close>

abbreviation PATH_MAX :: nat where "PATH_MAX \<equiv> 4096"

definition file_path :: "nat \<Rightarrow> string \<Rightarrow> string \<Rightarrow> string" where
  "file_path sz root key = snprintf sz (root @ ''/'' @ key)"

definition file_get :: "bool \<Rightarrow> string \<Rightarrow> fs \<Rightarrow> string \<Rightarrow> (errno + value_t \<times> timestamp) \<times> fs" where
  "file_get mem root w key =
     (let path = file_path PATH_MAX root key
      in case fopen_err w path False of
          Some e \<Rightarrow> (Inl e, w)
        | None \<Rightarrow>
            (case files w path of
               None \<Rightarrow> (Inl ENOENT, w)
             | Some bs \<Rightarrow>
                 if length bs < 5 then (Inl EIO, w)
                 else
                   let (ty, len) = value_head bs; data = drop 5 bs
                   in if \<not> mem then (Inl ENOMEM, w)
                      else if unat len = 0 \<or> length data < unat len then (Inl EIO, w)
                      else (Inr (\<lparr>vtype = ty, vlength = len, vdata = take (unat len) data\<rparr>, 0), w)))"

definition file_set :: "string \<Rightarrow> fs \<Rightarrow> string \<Rightarrow> value_t \<Rightarrow> errno option \<times> fs" where
  "file_set root w key v =
     (let path = file_path 256 root key
      in case fopen_err w path True of
          Some e \<Rightarrow> (Some e, w)
        | None \<Rightarrow>
            let bs = value_bytes v
            in case room w of
                None \<Rightarrow> (None, w\<lparr>files := (files w)(path \<mapsto> bs)\<rparr>)
              | Some n \<Rightarrow>
                  (if length bs \<le> n then None else Some EIO, w\<lparr>files := (files w)(path \<mapsto> take n bs)\<rparr>))"

definition file_del :: "string \<Rightarrow> fs \<Rightarrow> string \<Rightarrow> errno option \<times> fs" where
  "file_del root w key =
     (let path = file_path 256 root key
      in case unlink_err w path of
          Some e \<Rightarrow> (Some e, w)
        | None \<Rightarrow>
            if files w path = None then (Some ENOENT, w)
            else (None, w\<lparr>files := (files w)(path := None)\<rparr>))"

text \<open>
  \<open>dir_exists\<close> is the outcome of \<^verbatim>\<open>access\<close>, \<open>mkdir\<close> that of the attempt to create the directory.
\<close>

definition constructor_file ::
  "alloc \<Rightarrow> bool \<Rightarrow> errno option \<Rightarrow> bool \<Rightarrow> string \<Rightarrow> string \<Rightarrow> errno + fs storage_ctx" where
  "constructor_file mem dir_exists mkdir get_mem name dir =
     (if \<not> dir_exists \<and> mkdir \<noteq> None then Inl (the mkdir)
      else if \<not> mem 0 then Inl ENOMEM
      else if \<not> mem 1 then Inl ENOMEM
      else Inr \<lparr>sname = name, get_fn = Some (\<lambda>w k. Ret (file_get get_mem dir w k)),
             set_fn = Some (\<lambda>w k v. Ret (file_set dir w k v)), del_fn = Some (\<lambda>w k. Ret (file_del dir w k)), destructor = Some (\<lambda>w. w)\<rparr>)"

section \<open>The null and the tcp storage\<close>

definition null_set :: "'w \<Rightarrow> string \<Rightarrow> value_t \<Rightarrow> errno option \<times> 'w" where
  "null_set w key v = (None, w)"

definition null_del :: "'w \<Rightarrow> string \<Rightarrow> errno option \<times> 'w" where
  "null_del w key = (None, w)"

definition constructor_null :: "bool \<Rightarrow> string \<Rightarrow> errno + 'w storage_ctx" where
  "constructor_null mem name =
     (if \<not> mem then Inl ENOMEM
      else Inr \<lparr>sname = name, get_fn = None, set_fn = Some (\<lambda>w k v. Ret (null_set w k v)), del_fn = Some (\<lambda>w k. Ret (null_del w k)), destructor = None\<rparr>)"

text \<open>The tcp storage is not implemented: its constructor allocates and then refuses.\<close>

definition constructor_tcp :: "alloc \<Rightarrow> string \<Rightarrow> string \<Rightarrow> 16 word \<Rightarrow> errno + 'w storage_ctx" where
  "constructor_tcp mem name ip port = (if mem 0 \<and> mem 1 then Inl EOPNOTSUPP else Inl ENOMEM)"

section \<open>The file storage keeps the contract\<close>

definition file_storage :: "string \<Rightarrow> string \<Rightarrow> fs storage_ctx" where
  "file_storage name dir =
     \<lparr>sname = name, get_fn = Some (\<lambda>w k. Ret (file_get True dir w k)),
      set_fn = Some (\<lambda>w k v. Ret (file_set dir w k v)), del_fn = Some (\<lambda>w k. Ret (file_del dir w k)), destructor = Some (\<lambda>w. w)\<rparr>"

lemma constructor_file_storage:
  "constructor_file mem_ok True None True name dir = Inr (file_storage name dir)"
  by (simp add: constructor_file_def file_storage_def)

text \<open>The keys whose path is not cut, and the values that a file can give back.\<close>

definition file_keys :: "string \<Rightarrow> string \<Rightarrow> bool" where
  "file_keys dir k \<longleftrightarrow> length dir + 1 + length k < 256"

definition file_vals :: "value_t \<Rightarrow> bool" where
  "file_vals v \<longleftrightarrow> value_wf v \<and> vlength v \<noteq> 0"

definition file_contents :: "string \<Rightarrow> fs \<Rightarrow> string \<Rightarrow> value_t option" where
  "file_contents dir w k =
     (case fst (file_get True dir w k) of Inl e \<Rightarrow> None | Inr (v, d) \<Rightarrow> Some v)"

text \<open>Files can be read and written in full, and what lies under a key is a well-formed value.\<close>

definition file_ok :: "string \<Rightarrow> fs \<Rightarrow> bool" where
  "file_ok dir w \<longleftrightarrow> room w = None \<and> (\<forall>p. fopen_err w p False = None) \<and>
     (\<forall>k v. file_keys dir k \<longrightarrow> file_contents dir w k = Some v \<longrightarrow> file_vals v)"

lemma file_path_full:
  "file_keys dir k \<Longrightarrow> 256 \<le> sz \<Longrightarrow> file_path sz dir k = dir @ ''/'' @ k"
  unfolding file_path_def by (rule snprintf_fits) (simp add: file_keys_def)

lemma log_value_wf: "value_wf v \<Longrightarrow> log_value v = Ret ()"
  using value_fmt_wf [of v 256 "\<lambda>_. []" "\<lambda>_. []" False] by (auto simp: log_value_def)

lemma file_vals_value_ok: "file_vals v \<Longrightarrow> value_ok v"
  by (simp add: file_vals_def value_wf_def)

text \<open>What a get makes of the bytes of a file.\<close>

definition file_value :: "byte list \<Rightarrow> value_t option" where
  "file_value bs =
     (let (ty, len) = value_head bs; data = drop 5 bs
      in if 5 \<le> length bs \<and> unat len \<noteq> 0 \<and> unat len \<le> length data
         then Some \<lparr>vtype = ty, vlength = len, vdata = take (unat len) data\<rparr> else None)"

lemma file_value_bytes: "file_vals v \<Longrightarrow> file_value (value_bytes v) = Some v"
  using value_head_bytes [of v "[]"] drop_value_bytes [of v "[]"]
  by (auto simp: file_value_def file_vals_def value_wf_def value_ok_def unat_eq_0 Let_def)

lemma file_get_value:
  assumes "fopen_err w (file_path PATH_MAX dir k) False = None"
  shows "snd (file_get True dir w k) = w"
    and "file_contents dir w k = Option.bind (files w (file_path PATH_MAX dir k)) file_value"
    and "file_contents dir w k = Some v \<Longrightarrow> \<exists>d. file_get True dir w k = (Inr (v, d), w)"
    and "file_contents dir w k = None \<Longrightarrow> \<exists>e. file_get True dir w k = (Inl e, w)"
  using assms
  by (auto simp: file_contents_def file_get_def file_value_def Let_def not_less split: option.splits prod.splits if_splits)

lemma file_contents_update:
  assumes "file_ok dir w" "file_keys dir k" "file_keys dir j"
  shows "file_contents dir (w\<lparr>files := (files w)(file_path 256 dir k := b)\<rparr>) j =
    (if j = k then Option.bind b file_value else file_contents dir w j)"
  using assms file_get_value(2) [of w dir j]
    file_get_value(2) [of "w\<lparr>files := (files w)(file_path 256 dir k := b)\<rparr>" dir j]
  by (simp add: file_ok_def file_path_full)

lemma file_ok_update:
  assumes "file_ok dir w" "file_keys dir k" "\<And>v. Option.bind b file_value = Some v \<Longrightarrow> file_vals v"
  shows "file_ok dir (w\<lparr>files := (files w)(file_path 256 dir k := b)\<rparr>)"
  using assms file_contents_update [OF assms(1,2)] unfolding file_ok_def by (auto split: if_splits)

text \<open>The errors of the file system are error numbers proper.\<close>

definition file_good :: "string \<Rightarrow> fs \<Rightarrow> bool" where
  "file_good dir w \<longleftrightarrow> file_ok dir w \<and>
     (\<forall>p b e. fopen_err w p b = Some e \<longrightarrow> errno_ok e) \<and> (\<forall>p e. unlink_err w p = Some e \<longrightarrow> errno_ok e)"

lemma file_goodD:
  assumes "file_good dir w"
  shows "file_ok dir w" "fopen_err w p b = Some e \<Longrightarrow> errno_ok e" "unlink_err w p = Some e \<Longrightarrow> errno_ok e"
    "file_ok dir (w\<lparr>files := f\<rparr>) \<Longrightarrow> file_good dir (w\<lparr>files := f\<rparr>)"
  using assms by (auto simp: file_good_def)

lemma file_get_errno:
  assumes "file_good dir w" "file_get True dir w k = (Inl e, w')"
  shows "errno_ok e"
  using assms file_goodD(2) [OF assms(1)]
  by (auto simp: file_get_def Let_def split: option.splits prod.splits if_splits)

interpretation fst: kv_storage "file_storage name dir" "file_good dir" "file_contents dir" "file_keys dir" file_vals
  for name dir
proof
  fix w k v
  assume good: "file_good dir w" and k: "file_keys dir k" and v: "file_contents dir w k = Some v"
  note w = file_goodD(1) [OF good]
  have vals: "file_vals v" using w k v by (auto simp: file_ok_def)
  obtain d where "file_get True dir w k = (Inr (v, d), w)"
    using file_get_value(3) [of w dir k v] w v by (auto simp: file_ok_def)
  with vals good show "file_vals v \<and> (\<exists>w' d. storage_get (file_storage name dir) w k = Ret (Inr (v, d), w') \<and>
      file_good dir w' \<and> file_contents dir w' = file_contents dir w)"
    by (simp add: storage_get_def file_storage_def file_vals_def log_value_wf)
next
  fix w k
  assume good: "file_good dir w" and k: "file_keys dir k" and v: "file_contents dir w k = None"
  note w = file_goodD(1) [OF good]
  obtain e where "file_get True dir w k = (Inl e, w)"
    using file_get_value(4) [of w dir k] w v by (auto simp: file_ok_def)
  with good file_get_errno [OF good this] show "\<exists>w' e. storage_get (file_storage name dir) w k = Ret (Inl e, w') \<and>
      errno_ok e \<and> file_good dir w' \<and> file_contents dir w' = file_contents dir w"
    by (simp add: storage_get_def file_storage_def)
next
  fix w k v
  assume good: "file_good dir w" and k: "file_keys dir k" and v: "file_vals v"
  note w = file_goodD(1) [OF good]
  have log: "log_value v = Ret ()" using v by (simp add: file_vals_def log_value_wf)
  let ?w = "w\<lparr>files := (files w)(file_path 256 dir k \<mapsto> value_bytes v)\<rparr>"
  show "\<exists>r w'. storage_set (file_storage name dir) w k v = Ret (r, w') \<and> (\<forall>e. r = Some e \<longrightarrow> errno_ok e) \<and>
      file_good dir w' \<and> file_contents dir w' k = (if r = None then Some v else file_contents dir w k) \<and>
      (\<forall>j. file_keys dir j \<longrightarrow> j \<noteq> k \<longrightarrow> file_contents dir w' j = file_contents dir w j)"
  proof (cases "fopen_err w (file_path 256 dir k) True")
    case (Some e)
    with good log file_goodD(2) [OF good Some] show ?thesis
      by (simp add: storage_set_def file_storage_def file_set_def Let_def)
  next
    case None
    then have "storage_set (file_storage name dir) w k v = Ret (None, ?w)"
      using w log by (simp add: storage_set_def file_storage_def file_set_def Let_def file_ok_def)
    moreover have "file_ok dir ?w" using w k v by (intro file_ok_update) (auto simp: file_value_bytes)
    ultimately show ?thesis
      using w k v file_goodD(4) [OF good] by (auto simp: file_contents_update file_value_bytes)
  qed
next
  fix w k
  assume good: "file_good dir w" and k: "file_keys dir k"
  note w = file_goodD(1) [OF good]
  let ?w = "w\<lparr>files := (files w)(file_path 256 dir k := None)\<rparr>"
  have del: "storage_del (file_storage name dir) w k = Ret (file_del dir w k)"
    by (simp add: storage_del_def file_storage_def)
  show "\<exists>r w'. storage_del (file_storage name dir) w k = Ret (r, w') \<and> (\<forall>e. r = Some e \<longrightarrow> errno_ok e) \<and>
      file_good dir w' \<and> file_contents dir w' k = (if r = None then None else file_contents dir w k) \<and>
      (\<forall>j. file_keys dir j \<longrightarrow> j \<noteq> k \<longrightarrow> file_contents dir w' j = file_contents dir w j)"
  proof (cases "file_del dir w k = (None, ?w)")
    case True
    moreover have "file_ok dir ?w" using w k by (intro file_ok_update) auto
    ultimately show ?thesis using w k del file_goodD(4) [OF good] by (auto simp: file_contents_update)
  next
    case False
    then obtain e where e: "file_del dir w k = (Some e, w)"
      by (auto simp: file_del_def Let_def split: option.splits if_splits)
    then have "errno_ok e"
      using file_goodD(3) [OF good] by (auto simp: file_del_def Let_def split: option.splits if_splits)
    with good del e show ?thesis by simp
  qed
qed (simp add: file_vals_def)

section \<open>Properties\<close>

text \<open>
  C36: the file storage gives back what was stored. After a set of a well-formed, nonempty value
  under a key whose path fits, on a file system without errors, a get through the storage wrapper
  returns the value with duration 0 and a get after a del fails; a value of length 0 is written but
  cannot be read back: the get reports \<open>EIO\<close>.
\<close>

theorem file_roundtrip:
  assumes "file_ok dir w" "file_keys dir k" "value_wf v" "fopen_err w (file_path 256 dir k) True = None"
    and "unlink_err w (file_path 256 dir k) = None"
  shows "\<exists>w' w''. storage_set (file_storage name dir) w k v = Ret (None, w') \<and>
    storage_get (file_storage name dir) w' k =
      Ret (if vlength v = 0 then Inl EIO else Inr (v, 0), w') \<and>
    storage_del (file_storage name dir) w' k = Ret (None, w'') \<and>
    storage_get (file_storage name dir) w'' k = Ret (Inl ENOENT, w'')"
proof -
  let ?p = "dir @ ''/'' @ k"
  let ?w = "w\<lparr>files := (files w)(?p \<mapsto> value_bytes v)\<rparr>" and ?w2 = "w\<lparr>files := (files w)(?p := None)\<rparr>"
  have path: "file_path 256 dir k = ?p" "file_path PATH_MAX dir k = ?p"
    using assms(2) by (simp_all add: file_path_full)
  have log: "log_value v = Ret ()" using assms(3) by (rule log_value_wf)
  then have log': "log_value \<lparr>vtype = vtype v, vlength = vlength v, vdata = vdata v\<rparr> = Ret ()"
    by (metis value_t.surjective old.unit.exhaust)
  have len: "length (vdata v) = unat (vlength v)" using assms(3) by (simp add: value_wf_def value_ok_def)
  have "storage_set (file_storage name dir) w k v = Ret (None, ?w)"
    using assms(1,4) log path by (simp add: storage_set_def file_storage_def file_set_def Let_def file_ok_def)
  moreover have "storage_get (file_storage name dir) ?w k =
      Ret (if vlength v = 0 then Inl EIO else Inr (v, 0), ?w)"
    using assms(1) log' path len value_head_bytes [of v "[]"] drop_value_bytes [of v "[]"]
    by (auto simp: storage_get_def file_storage_def file_get_def Let_def file_ok_def unat_eq_0)
  moreover have "storage_del (file_storage name dir) ?w k = Ret (None, ?w2)"
    using assms(5) path by (simp add: storage_del_def file_storage_def file_del_def Let_def)
  moreover have "storage_get (file_storage name dir) ?w2 k = Ret (Inl ENOENT, ?w2)"
    using assms(1) path by (simp add: storage_get_def file_storage_def file_get_def Let_def file_ok_def)
  ultimately show ?thesis by blast
qed

abbreviation empty_fs :: fs where
  "empty_fs \<equiv> \<lparr>files = (\<lambda>_. None), fopen_err = (\<lambda>_ _. None), unlink_err = (\<lambda>_. None), room = None\<rparr>"

lemma empty_fs_ok: "file_ok dir empty_fs" "file_good dir empty_fs"
  by (simp_all add: file_good_def file_ok_def file_contents_def file_get_def Let_def)

theorem file_roundtrip_witness:
  "\<exists>w'. storage_set (file_storage ''f'' ''/d'') empty_fs ''k'' \<lparr>vtype = 1, vlength = 1, vdata = [7]\<rparr> = Ret (None, w') \<and>
     storage_get (file_storage ''f'' ''/d'') w' ''k'' = Ret (Inr (\<lparr>vtype = 1, vlength = 1, vdata = [7]\<rparr>, 0), w')"
  using file_roundtrip [OF empty_fs_ok(1), of "''/d''" "''k''" "\<lparr>vtype = 1, vlength = 1, vdata = [7]\<rparr>" "''f''"]
  by (auto simp: file_keys_def value_wf_def value_ok_def)

text \<open>
  The null storage accepts every well-formed value and forgets it: a set and a del succeed
  without effect, a get is not supported. The tcp storage can never be constructed.
\<close>

theorem null_tcp_storage:
  assumes "constructor_null True name = Inr st" "value_wf v"
  shows "storage_set st w k v = Ret (None, w) \<and> storage_del st w k = Ret (None, w) \<and>
    storage_get st w k = Ret (Inl EOPNOTSUPP, w) \<and>
    (\<forall>mem. \<exists>e. constructor_tcp mem name ip port = (Inl e :: errno + 'w storage_ctx))"
  using assms
  by (auto simp: constructor_null_def storage_set_def storage_del_def storage_get_def null_set_def
      null_del_def log_value_wf constructor_tcp_def)

theorem null_tcp_storage_witness:
  "\<exists>st. constructor_null True ''n'' = Inr st \<and>
     storage_set st (0 :: nat) ''k'' \<lparr>vtype = 1, vlength = 0, vdata = []\<rparr> = Ret (None, 0)"
proof -
  obtain st :: "nat storage_ctx" where st: "constructor_null True ''n'' = Inr st" by (simp add: constructor_null_def)
  from null_tcp_storage [OF st, of "\<lparr>vtype = 1, vlength = 0, vdata = []\<rparr>"] st show ?thesis
    by (auto simp: value_wf_def value_ok_def)
qed

end
