(* ===== verification/Thread_Pool.thy ===== *)
theory Thread_Pool
  imports Propd_Prelude
begin

text \<open>
  The thread pool, \<^verbatim>\<open>lib/infra/thread_pool.c\<close>: a bounded ring buffer of tasks filled by
  \<^verbatim>\<open>thread_pool_submit\<close> and emptied by the workers. Indices are \<^verbatim>\<open>unsigned short\<close>, kept as \<open>16 word\<close>. The
  queue's mutex makes a push and a pop atomic; a push to a full queue and a pop of an empty one wait
  (\<open>None\<close>) until a step of another thread makes room or brings a task.
\<close>

section \<open>The ring buffer\<close>

record 'a task =
  routine :: 'a \<comment> \<open>\<^verbatim>\<open>routine\<close> and its \<^verbatim>\<open>arg\<close>\<close>
  created :: timestamp
  waiter :: "nat option" \<comment> \<open>\<^verbatim>\<open>result\<close> and \<^verbatim>\<open>done\<close> of a synchronous submission\<close>
  task_id :: "16 word"

record 'a task_queue =
  num :: "16 word"
  slots :: "'a task list"
  head :: "16 word"
  tail :: "16 word"
  count :: "16 word"

text \<open>\<^verbatim>\<open>calloc\<close> fills the array with \<open>zero\<close>.\<close>

definition task_queue_init :: "bool \<Rightarrow> 'a task \<Rightarrow> 16 word \<Rightarrow> 'a task_queue option" where
  "task_queue_init mem zero n =
     (if mem then Some \<lparr>num = n, slots = replicate (unat n) zero, head = 0, tail = 0, count = 0\<rparr> else None)"

definition task_queue_deinit :: "'a task_queue \<Rightarrow> 'a task_queue" where
  "task_queue_deinit q = (if num q \<noteq> 0 then q\<lparr>num := 0, slots := []\<rparr> else q)"

definition task_queue_push :: "'a task_queue \<Rightarrow> 'a task \<Rightarrow> 'a task_queue option" where
  "task_queue_push q task =
     (if num q \<le> count q then None
      else
        let task = task\<lparr>task_id := tail q\<rparr>
        in Some (q\<lparr>slots := (slots q)[unat (tail q) := task],
             tail := of_nat ((unat (tail q) + 1) mod unat (num q)), count := count q + 1\<rparr>))"

definition task_queue_pop :: "'a task_queue \<Rightarrow> ('a task \<times> 'a task_queue) option" where
  "task_queue_pop q =
     (if count q = 0 then None
      else Some (slots q ! unat (head q),
        q\<lparr>head := of_nat ((unat (head q) + 1) mod unat (num q)), count := count q - 1\<rparr>))"

section \<open>Creation\<close>

text \<open>
  \<open>ncpu\<close> is what \<^verbatim>\<open>sysconf\<close> returns. The number of threads and the depth of the queue.
\<close>

definition thread_pool_nums :: "int \<Rightarrow> 16 word \<Rightarrow> 16 word \<Rightarrow> 16 word \<Rightarrow> 16 word \<Rightarrow> 16 word \<times> 16 word" where
  "thread_pool_nums ncpu thread_num min_if_auto max_if_auto task_num =
     (let n = (if ncpu < 0 then 0 else of_int ncpu);
          thread_num = (if thread_num = 0
            then (if n < min_if_auto then min_if_auto else if max_if_auto < n then max_if_auto else n)
            else thread_num);
          task_num = (if task_num = 0 then thread_num else task_num)
      in (thread_num, task_num))"

text \<open>
  \<open>thread\<close> is the result of the \<open>i\<close>-th \<^verbatim>\<open>pthread_create\<close>. On any failure the threads created so far are
  cancelled and everything is freed.
\<close>

definition thread_pool_create ::
  "alloc \<Rightarrow> (nat \<Rightarrow> errno option) \<Rightarrow> 'a task \<Rightarrow> int \<Rightarrow> 16 word \<Rightarrow> 16 word \<Rightarrow> 16 word \<Rightarrow> 16 word \<Rightarrow>
   errno + nat \<times> 'a task_queue" where
  "thread_pool_create mem thread zero ncpu thread_num min_if_auto max_if_auto task_num =
     (let (threads, tasks) = thread_pool_nums ncpu thread_num min_if_auto max_if_auto task_num
      in if \<not> mem 0 \<or> \<not> mem 1 \<or> \<not> mem 2 then Inl ENOMEM
         else case task_queue_init (mem 3) zero tasks of
             None \<Rightarrow> Inl ENOMEM
           | Some q \<Rightarrow>
               (case List.find (\<lambda>i. thread i \<noteq> None) [0..<unat threads] of
                  Some i \<Rightarrow> Inl (the (thread i))
                | None \<Rightarrow> Inr (unat threads, q)))"

text \<open>The task \<^verbatim>\<open>thread_pool_submit\<close> builds; \<open>w\<close> is the submitter's result cell when \<^verbatim>\<open>sync\<close>.\<close>

definition make_task :: "'a \<Rightarrow> timestamp \<Rightarrow> bool \<Rightarrow> nat \<Rightarrow> 'a task" where
  "make_task r now sync w = \<lparr>routine = r, created = now, waiter = (if sync then Some w else None), task_id = 0\<rparr>"

section \<open>A bounded queue as an interface\<close>

text \<open>
  What the pool relies on: a push to a queue with room appends, a pop of a nonempty queue takes the
  first element; \<open>elem\<close> is what is kept of an element.
\<close>

locale bounded_fifo =
  fixes inv :: "'q \<Rightarrow> bool" and contents :: "'q \<Rightarrow> 'e list" and cap :: "'q \<Rightarrow> nat"
    and push :: "'q \<Rightarrow> 't \<Rightarrow> 'q option" and pop :: "'q \<Rightarrow> ('t \<times> 'q) option" and elem :: "'t \<Rightarrow> 'e"
  assumes cap_law: "inv q \<Longrightarrow> length (contents q) \<le> cap q"
    and push_full: "inv q \<Longrightarrow> length (contents q) = cap q \<Longrightarrow> push q t = None"
    and push_room: "inv q \<Longrightarrow> length (contents q) < cap q \<Longrightarrow>
      \<exists>q'. push q t = Some q' \<and> inv q' \<and> cap q' = cap q \<and> contents q' = contents q @ [elem t]"
    and pop_empty: "inv q \<Longrightarrow> contents q = [] \<Longrightarrow> pop q = None"
    and pop_first: "inv q \<Longrightarrow> contents q \<noteq> [] \<Longrightarrow>
      \<exists>t q'. pop q = Some (t, q') \<and> inv q' \<and> cap q' = cap q \<and> contents q = elem t # contents q'"
begin

lemma push_Some: "inv q \<Longrightarrow> push q t = Some q' \<Longrightarrow>
    inv q' \<and> cap q' = cap q \<and> contents q' = contents q @ [elem t] \<and> length (contents q) < cap q"
  using cap_law [of q] push_full [of q t] push_room [of q t] by fastforce

lemma pop_Some: "inv q \<Longrightarrow> pop q = Some (t, q') \<Longrightarrow>
    inv q' \<and> cap q' = cap q \<and> contents q = elem t # contents q'"
  using pop_empty [of q] pop_first [of q] by fastforce

fun push_all :: "'q \<Rightarrow> 't list \<Rightarrow> 'q option" where
  "push_all q [] = Some q"
| "push_all q (t # ts) = Option.bind (push q t) (\<lambda>q'. push_all q' ts)"

fun pop_n :: "nat \<Rightarrow> 'q \<Rightarrow> ('t list \<times> 'q) option" where
  "pop_n 0 q = Some ([], q)"
| "pop_n (Suc n) q = Option.bind (pop q) (\<lambda>(t, q'). map_option (\<lambda>(ts, q''). (t # ts, q'')) (pop_n n q'))"

lemma push_all_room:
  "inv q \<Longrightarrow> length (contents q) + length ts \<le> cap q \<Longrightarrow>
     \<exists>q'. push_all q ts = Some q' \<and> inv q' \<and> cap q' = cap q \<and> contents q' = contents q @ map elem ts"
proof (induction ts arbitrary: q)
  case (Cons t ts)
  then obtain q' where "push q t = Some q'" "inv q'" "cap q' = cap q" "contents q' = contents q @ [elem t]"
    using push_room [of q t] by auto
  with Cons.IH [of q'] Cons.prems show ?case by auto
qed simp

lemma pop_n_take:
  "inv q \<Longrightarrow> n \<le> length (contents q) \<Longrightarrow>
     \<exists>ts q'. pop_n n q = Some (ts, q') \<and> inv q' \<and> map elem ts = take n (contents q) \<and> contents q' = drop n (contents q)"
proof (induction n arbitrary: q)
  case (Suc n)
  then have "contents q \<noteq> []" by auto
  then obtain t q' where "pop q = Some (t, q')" "inv q'" "contents q = elem t # contents q'"
    using pop_first [of q] Suc.prems by blast
  with Suc.IH [of q'] Suc.prems show ?case by auto
qed simp

end

section \<open>The ring buffer is a bounded queue\<close>

definition task_elem :: "'a task \<Rightarrow> 'a \<times> timestamp \<times> nat option" where
  "task_elem t = (routine t, created t, waiter t)"

definition queue_contents :: "'a task_queue \<Rightarrow> ('a \<times> timestamp \<times> nat option) list" where
  "queue_contents q =
     map (\<lambda>i. task_elem (slots q ! ((unat (head q) + i) mod unat (num q)))) [0..<unat (count q)]"

definition queue_cap :: "'a task_queue \<Rightarrow> nat" where
  "queue_cap q = unat (num q)"

definition queue_inv :: "'a task_queue \<Rightarrow> bool" where
  "queue_inv q \<longleftrightarrow> length (slots q) = unat (num q) \<and> count q \<le> num q \<and>
     (num q = 0 \<or> head q < num q \<and> unat (tail q) = (unat (head q) + unat (count q)) mod unat (num q))"

lemma ring_neq: "i < c \<Longrightarrow> c < n \<Longrightarrow> (h + i) mod n \<noteq> (h + c) mod (n :: nat)"
proof
  assume i: "i < c" "c < n" and eq: "(h + i) mod n = (h + c) mod n"
  then have "n dvd (h + c) - (h + i)" using mod_eq_dvd_iff_nat [of "h + i" "h + c" n] by simp
  with i show False by (auto dest: dvd_imp_le)
qed

lemma unat_of_nat_mod [simp]: "unat (of_nat (x mod unat (n :: 16 word)) :: 16 word) = (if n = 0 then x mod 65536 else x mod unat n)"
proof (cases "n = 0")
  case False
  then have "x mod unat n < unat n" by (simp add: unat_gt_0)
  moreover have "unat n < 2 ^ LENGTH(16)" by (rule unsigned_less)
  ultimately show ?thesis using False by (simp add: unat_of_nat)
qed (simp add: unat_of_nat)

lemma unat_succ: "c < (n :: 16 word) \<Longrightarrow> unat (c + 1) = unat c + 1"
proof -
  assume "c < n"
  then have "unat c < unat n" by (simp add: word_less_nat_alt)
  moreover have "unat n < 2 ^ LENGTH(16)" by (rule unsigned_less)
  ultimately show ?thesis by (simp add: unat_word_ariths)
qed

lemma unat_pred: "c \<noteq> (0 :: 16 word) \<Longrightarrow> unat (c - 1) = unat c - 1"
  by (simp add: unat_minus_one)

lemma queue_push_room:
  assumes inv: "queue_inv q" and room: "count q < num q"
  shows "\<exists>q'. task_queue_push q t = Some q' \<and> queue_inv q' \<and> num q' = num q \<and>
    queue_contents q' = queue_contents q @ [task_elem t]"
proof -
  define n h c where "n = unat (num q)" and "h = unat (head q)" and "c = unat (count q)"
  have c: "c < n" using room by (simp add: n_def c_def word_less_nat_alt)
  then have n0: "num q \<noteq> 0" by (auto simp: n_def)
  have slots: "length (slots q) = n" and tail: "unat (tail q) = (h + c) mod n"
    using inv n0 by (simp_all add: queue_inv_def n_def h_def c_def)
  let ?t = "t\<lparr>task_id := tail q\<rparr>"
  let ?q = "q\<lparr>slots := (slots q)[unat (tail q) := ?t],
    tail := of_nat ((unat (tail q) + 1) mod unat (num q)), count := count q + 1\<rparr>"
  have push: "task_queue_push q t = Some ?q" using room by (simp add: task_queue_push_def Let_def not_le)
  have count: "unat (count q + 1) = c + 1" using unat_succ [OF room] by (simp add: c_def)
  have "count q + 1 \<le> num q" using c count by (simp add: word_le_nat_alt n_def)
  moreover have "((h + c) mod n + 1) mod n = (h + (c + 1)) mod n" by (simp add: mod_Suc_eq)
  ultimately have "queue_inv ?q"
    using inv n0 slots tail count by (simp add: queue_inv_def n_def h_def c_def)
  moreover have "queue_contents ?q = queue_contents q @ [task_elem t]"
  proof -
    have "(slots q)[(h + c) mod n := ?t] ! ((h + i) mod n) = slots q ! ((h + i) mod n)" if "i < c" for i
      using ring_neq [OF that c, of h] by simp
    moreover have "(slots q)[(h + c) mod n := ?t] ! ((h + c) mod n) = ?t"
      using slots c by simp
    ultimately show ?thesis
      unfolding queue_contents_def by (simp add: count tail n_def h_def c_def task_elem_def)
  qed
  ultimately show ?thesis using push by simp
qed

lemma queue_pop_first:
  assumes inv: "queue_inv q" and some: "count q \<noteq> 0"
  shows "\<exists>t q'. task_queue_pop q = Some (t, q') \<and> queue_inv q' \<and> num q' = num q \<and>
    queue_contents q = task_elem t # queue_contents q'"
proof -
  define n h c where "n = unat (num q)" and "h = unat (head q)" and "c = unat (count q)"
  have c: "0 < c" "c \<le> n" using inv some by (auto simp: queue_inv_def n_def c_def word_le_nat_alt unat_gt_0)
  then have n0: "num q \<noteq> 0" by (auto simp: n_def)
  have h: "h < n" "unat (tail q) = (h + c) mod n"
    using inv n0 by (simp_all add: queue_inv_def n_def h_def c_def word_less_nat_alt)
  let ?q = "q\<lparr>head := of_nat ((unat (head q) + 1) mod unat (num q)), count := count q - 1\<rparr>"
  have pop: "task_queue_pop q = Some (slots q ! h, ?q)" using some by (simp add: task_queue_pop_def h_def)
  have count: "unat (count q - 1) = c - 1" using unat_pred [OF some] by (simp add: c_def)
  have head: "unat (head ?q) = (h + 1) mod n" using n0 by (simp add: n_def h_def)
  have "((h + 1) mod n + (c - 1)) mod n = ((h + 1) + (c - 1)) mod n" by (rule mod_add_left_eq)
  also have "(h + 1) + (c - 1) = h + c" using c by simp
  finally have "((h + 1) mod n + (c - 1)) mod n = (h + c) mod n" .
  moreover have "count q - 1 \<le> num q" using c count by (simp add: word_le_nat_alt n_def)
  moreover have "head ?q < num q" using head n0 c by (simp add: word_less_nat_alt n_def)
  ultimately have "queue_inv ?q"
    using inv n0 head count h(2) by (simp add: queue_inv_def n_def h_def c_def)
  moreover have "queue_contents q = task_elem (slots q ! h) # queue_contents ?q"
  proof -
    have "[0..<c] = 0 # map Suc [0..<c - 1]"
      using c by (metis map_Suc_upt One_nat_def Suc_diff_1 upt_conv_Cons)
    moreover have "((h + 1) mod n + i) mod n = (h + Suc i) mod n" for i by (simp add: mod_add_left_eq)
    ultimately show ?thesis
      unfolding queue_contents_def using h(1) head count
      by (simp add: n_def [symmetric] h_def [symmetric] c_def [symmetric] comp_def)
  qed
  ultimately show ?thesis using pop by simp
qed

lemma length_queue_contents [simp]: "length (queue_contents q) = unat (count q)"
  by (simp add: queue_contents_def)

interpretation tq: bounded_fifo queue_inv queue_contents queue_cap task_queue_push task_queue_pop task_elem
proof
  fix q :: "'a task_queue" and t
  assume inv: "queue_inv q"
  show "length (queue_contents q) \<le> queue_cap q"
    using inv by (simp add: queue_inv_def queue_cap_def word_le_nat_alt)
  show "task_queue_push q t = None" if "length (queue_contents q) = queue_cap q"
    using that by (simp add: task_queue_push_def queue_cap_def word_le_nat_alt)
  show "\<exists>q'. task_queue_push q t = Some q' \<and> queue_inv q' \<and> queue_cap q' = queue_cap q \<and>
      queue_contents q' = queue_contents q @ [task_elem t]" if "length (queue_contents q) < queue_cap q"
    using queue_push_room [OF inv, of t] that by (auto simp: queue_cap_def word_less_nat_alt)
  show "task_queue_pop q = None" if "queue_contents q = []"
    using that by (simp add: task_queue_pop_def queue_contents_def unat_eq_0)
  show "\<exists>t q'. task_queue_pop q = Some (t, q') \<and> queue_inv q' \<and> queue_cap q' = queue_cap q \<and>
      queue_contents q = task_elem t # queue_contents q'" if "queue_contents q \<noteq> []"
    using queue_pop_first [OF inv] that by (auto simp: queue_cap_def queue_contents_def unat_eq_0)
qed

lemma queue_init: "task_queue_init True zero n = Some q \<Longrightarrow> queue_inv q \<and> queue_contents q = [] \<and> num q = n"
  by (auto simp: task_queue_init_def queue_inv_def queue_contents_def word_gt_0)

section \<open>The pool at work\<close>

text \<open>
  The queue, what each worker runs, the results delivered to synchronous submitters, and the
  history: the tasks in the order they were submitted and in the order workers took them. \<open>run\<close> is
  what a routine returns. A synchronous submission brings its own result cell, not used before.
\<close>

record 'a pool =
  queue :: "'a task_queue"
  workers :: nat
  running :: "nat \<Rightarrow> 'a task option"
  results :: "nat \<Rightarrow> int option"
  submitted :: "('a \<times> timestamp \<times> nat option) list"
  started :: "('a \<times> timestamp \<times> nat option) list"

inductive pool_step :: "('a \<Rightarrow> int) \<Rightarrow> 'a pool \<Rightarrow> 'a pool \<Rightarrow> bool" for run :: "'a \<Rightarrow> int" where
  submit: "sync \<longrightarrow> Some w \<notin> (\<lambda>(_, _, w). w) ` set (submitted s) \<Longrightarrow>
    task_queue_push (queue s) (make_task r now sync w) = Some q' \<Longrightarrow>
    pool_step run s (s\<lparr>queue := q', submitted := submitted s @ [task_elem (make_task r now sync w)]\<rparr>)"
| take: "i < workers s \<Longrightarrow> running s i = None \<Longrightarrow> task_queue_pop (queue s) = Some (t, q') \<Longrightarrow>
    pool_step run s (s\<lparr>queue := q', running := (running s)(i \<mapsto> t), started := started s @ [task_elem t]\<rparr>)"
| finish: "running s i = Some t \<Longrightarrow>
    pool_step run s (s\<lparr>running := (running s)(i := None),
      results := (case waiter t of None \<Rightarrow> results s | Some w \<Rightarrow> (results s)(w \<mapsto> run (routine t)))\<rparr>)"

definition pool_inv :: "('a \<Rightarrow> int) \<Rightarrow> 'a pool \<Rightarrow> bool" where
  "pool_inv run s \<longleftrightarrow>
     queue_inv (queue s) \<and> started s @ queue_contents (queue s) = submitted s \<and>
     distinct (filter (\<lambda>w. w \<noteq> None) (map (\<lambda>(_, _, w). w) (submitted s))) \<and>
     (\<forall>i t. running s i = Some t \<longrightarrow> task_elem t \<in> set (started s)) \<and>
     (\<forall>w r. results s w = Some r \<longrightarrow> (\<exists>f now. (f, now, Some w) \<in> set (started s) \<and> r = run f))"

lemma pool_inv_step: "pool_step run s s' \<Longrightarrow> pool_inv run s \<Longrightarrow> pool_inv run s'"
proof (induction rule: pool_step.induct)
  case (submit sync w s r now q')
  then have "queue_inv q' \<and> queue_contents q' = queue_contents (queue s) @ [task_elem (make_task r now sync w)]"
    using tq.push_Some [of "queue s"] by (auto simp: pool_inv_def)
  with submit show ?case
    by (auto simp: pool_inv_def task_elem_def make_task_def image_iff)
next
  case (take i s t q')
  then have "queue_inv q' \<and> queue_contents (queue s) = task_elem t # queue_contents q'"
    using tq.pop_Some [of "queue s"] by (auto simp: pool_inv_def)
  with take show ?case unfolding pool_inv_def by (fastforce split: if_splits)
next
  case (finish s i t)
  then have "task_elem t \<in> set (started s)" by (auto simp: pool_inv_def)
  then have "waiter t = Some w \<Longrightarrow> (routine t, created t, Some w) \<in> set (started s)" for w
    by (simp add: task_elem_def)
  with finish show ?case by (fastforce simp: pool_inv_def split: option.splits if_splits)
qed

definition pool_init :: "nat \<Rightarrow> 'a task_queue \<Rightarrow> 'a pool" where
  "pool_init n q = \<lparr>queue = q, workers = n, running = (\<lambda>_. None), results = (\<lambda>_. None), submitted = [], started = []\<rparr>"

lemma pool_create_inv:
  "thread_pool_create mem thread zero ncpu a b c d = Inr (n, q) \<Longrightarrow> pool_inv run (pool_init n q)"
  using queue_init [of zero "snd (thread_pool_nums ncpu a b c d)" q]
  by (auto simp: thread_pool_create_def pool_inv_def pool_init_def Let_def task_queue_init_def
      split: prod.splits if_splits option.splits)

lemma pool_reach_inv:
  "(pool_step run)\<^sup>*\<^sup>* s s' \<Longrightarrow> pool_inv run s \<Longrightarrow> pool_inv run s'"
  by (induction rule: rtranclp_induct) (auto intro: pool_inv_step)

lemma filter_distinct_inj:
  "distinct (filter P (map g xs)) \<Longrightarrow> x \<in> set xs \<Longrightarrow> y \<in> set xs \<Longrightarrow> g x = g y \<Longrightarrow> P (g x) \<Longrightarrow> x = y"
proof (induction xs)
  case (Cons a xs)
  show ?case
  proof (cases "P (g a)")
    case True
    then have "g a \<notin> g ` set xs" using Cons.prems(1) by auto
    with Cons show ?thesis by (cases "x = a"; cases "y = a") (auto simp: image_iff True)
  qed (use Cons in auto)
qed simp

section \<open>Properties\<close>

text \<open>
  C21: the ring buffer implements a first-in first-out queue of \<open>num\<close> tasks, also when its indices
  wrap: from an initialised queue, pushing no more tasks than fit never waits, and popping then
  gives exactly those tasks in order; a push to a full queue and a pop of an empty one wait.
\<close>

theorem task_queue_fifo:
  assumes "queue_inv q" "unat (count q) + length ts \<le> unat (num q)"
  shows "\<exists>q'. tq.push_all q ts = Some q' \<and> queue_inv q' \<and>
    queue_contents q' = queue_contents q @ map task_elem ts \<and>
    (\<exists>us q''. tq.pop_n (unat (count q) + length ts) q' = Some (us, q'') \<and>
      map task_elem us = queue_contents q @ map task_elem ts \<and> task_queue_pop q'' = None) \<and>
    (unat (count q) + length ts = unat (num q) \<longrightarrow> task_queue_push q' t = None)"
proof -
  obtain q' where q': "tq.push_all q ts = Some q'" "queue_inv q'" "queue_cap q' = queue_cap q"
    "queue_contents q' = queue_contents q @ map task_elem ts"
    using tq.push_all_room [OF assms(1), of ts] assms(2) by (auto simp: queue_cap_def)
  then have len: "length (queue_contents q') = unat (count q) + length ts" by simp
  then obtain us q'' where us: "tq.pop_n (unat (count q) + length ts) q' = Some (us, q'')" "queue_inv q''"
    "map task_elem us = queue_contents q'" "queue_contents q'' = []"
    using tq.pop_n_take [OF q'(2), of "unat (count q) + length ts"] by auto
  moreover have "task_queue_pop q'' = None" by (rule tq.pop_empty [OF us(2,4)])
  moreover have "task_queue_push q' t = None" if "unat (count q) + length ts = unat (num q)"
    by (rule tq.push_full [OF q'(2)]) (use that len q'(3) in \<open>simp add: queue_cap_def\<close>)
  ultimately show ?thesis using q' by auto
qed

theorem task_queue_fifo_witness:
  "\<exists>q'. tq.push_all \<lparr>num = 2, slots = [make_task 1 0 False 0, make_task 2 0 False 0], head = 1, tail = 1, count = 0\<rparr>
       [make_task (5 :: nat) 0 False 0, make_task 6 0 False 0] = Some q' \<and>
     queue_contents q' = [(5, 0, None), (6, 0, None)]"
proof -
  let ?q = "\<lparr>num = 2, slots = [make_task 1 0 False 0, make_task 2 0 False 0], head = 1, tail = 1, count = 0\<rparr>"
  let ?ts = "[make_task (5 :: nat) 0 False 0, make_task 6 0 False 0]"
  have "queue_inv ?q" by (simp add: queue_inv_def word_less_nat_alt)
  moreover have "unat (count ?q) + length ?ts \<le> unat (num ?q)" by simp
  ultimately have "\<exists>q'. tq.push_all ?q ?ts = Some q' \<and> queue_contents q' = queue_contents ?q @ map task_elem ?ts"
    using task_queue_fifo [of ?q ?ts] by blast
  moreover have "queue_contents ?q @ map task_elem ?ts = [(5, 0, None), (6, 0, None)]"
    by (simp add: queue_contents_def task_elem_def make_task_def)
  ultimately show ?thesis by simp
qed

text \<open>
  C22: in every run of a pool, tasks are started in the order of their submission, none twice and
  none lost (what was submitted is what was started followed by what is still queued), no more are
  queued than the queue's depth, and what a synchronous submitter reads in its cell is what its own
  routine returned.
\<close>

theorem thread_pool_runs:
  assumes "thread_pool_create mem thread zero ncpu a b c d = Inr (n, q)"
    and "(pool_step run)\<^sup>*\<^sup>* (pool_init n q) s"
  shows "started s @ queue_contents (queue s) = submitted s \<and>
    length (queue_contents (queue s)) \<le> unat (num (queue s)) \<and>
    (\<forall>f now w r. (f, now, Some w) \<in> set (submitted s) \<longrightarrow> results s w = Some r \<longrightarrow> r = run f)"
proof -
  have inv: "pool_inv run s" using pool_reach_inv [OF assms(2) pool_create_inv [OF assms(1)]] .
  have "r = run f" if sub: "(f, now, Some w) \<in> set (submitted s)" and res: "results s w = Some r" for f now w r
  proof -
    obtain f' now' where f': "(f', now', Some w) \<in> set (started s)" "r = run f'"
      using inv res unfolding pool_inv_def by blast
    moreover have "set (started s) \<subseteq> set (submitted s)"
      using inv unfolding pool_inv_def by (metis set_append Un_upper1)
    ultimately have "(f', now', Some w) \<in> set (submitted s)" by blast
    then have "(f', now', Some w) = (f, now, Some w)"
      using filter_distinct_inj [of "\<lambda>w. w \<noteq> None" "\<lambda>(_, _, w). w" "submitted s"] inv sub
      by (fastforce simp: pool_inv_def)
    with f' show ?thesis by simp
  qed
  moreover have "length (queue_contents (queue s)) \<le> unat (num (queue s))"
    using tq.cap_law inv by (fastforce simp: pool_inv_def queue_cap_def)
  ultimately show ?thesis using inv by (auto simp: pool_inv_def)
qed

theorem thread_pool_runs_witness:
  "\<exists>q. thread_pool_create mem_ok (\<lambda>_. None) (make_task (0 :: nat) 0 False 0) 4 0 1 8 0 = Inr (4, q) \<and>
     started (pool_init 4 q) @ queue_contents (queue (pool_init 4 q)) = submitted (pool_init 4 q)"
proof -
  obtain q where q: "thread_pool_create mem_ok (\<lambda>_. None) (make_task (0 :: nat) 0 False 0) 4 0 1 8 0 = Inr (4, q)"
    by (simp add: thread_pool_create_def thread_pool_nums_def task_queue_init_def find_None_iff Let_def
        word_less_nat_alt split: option.split)
  from thread_pool_runs [OF q rtranclp.rtrancl_refl] q show ?thesis by auto
qed

text \<open>
  A thread count given as 0 is chosen between the two bounds, as near to the number of
  processors as they allow, and a queue depth given as 0 is the thread count, as the header says.
\<close>

theorem thread_pool_nums_bounds:
  assumes "0 \<le> ncpu" "ncpu < 65536" "min_if_auto \<le> max_if_auto"
  shows "(let (threads, tasks) = thread_pool_nums ncpu thread_num min_if_auto max_if_auto task_num
    in unat threads = (if thread_num \<noteq> 0 then unat thread_num
         else max (unat min_if_auto) (min (unat max_if_auto) (nat ncpu))) \<and>
       tasks = (if task_num = 0 then threads else task_num))"
proof -
  have n: "unat (word_of_int ncpu :: 16 word) = nat ncpu"
    using assms(1,2) by (simp add: unat_eq_nat_uint uint_word_of_int_eq take_bit_int_eq_self)
  have m: "unat min_if_auto \<le> unat max_if_auto" using assms(3) by (simp add: word_le_nat_alt)
  show ?thesis
    using n m assms(1) by (auto simp: thread_pool_nums_def Let_def word_less_nat_alt)
qed

theorem thread_pool_nums_bounds_witness:
  "thread_pool_nums 4 0 1 3 0 = (3, 3)"
  using thread_pool_nums_bounds [of 4 1 3 0 0]
  by (auto simp: Let_def word_le_nat_alt word_unat_eq_iff split: prod.splits)

end
