(* ===== verification/Memio.thy ===== *)
theory Memio
  imports Storage
begin

unbundle bit_operations_syntax

text \<open>
  Positions in a memory region, \<^verbatim>\<open>lib/memio/\<close>, and the storage that reads them,
  \<^verbatim>\<open>lib/builtin/memory.c\<close>. The region is the list of its bytes; an access past its end, a shift by 32 or
  more and the use of bytes that were never written are \<open>UB\<close>.
\<close>

section \<open>Masks\<close>

text \<open>\<^verbatim>\<open>__builtin_ffs(mask) - 1\<close> as \<^verbatim>\<open>uint32_t\<close>.\<close>

definition MaskShift :: "32 word \<Rightarrow> nat" where
  "MaskShift m = (case List.find (\<lambda>n. bit m n) [0..<32] of None \<Rightarrow> 4294967295 | Some n \<Rightarrow> n)"

definition shr32 :: "32 word \<Rightarrow> nat \<Rightarrow> 32 word c_out" where
  "shr32 w n = (if n < 32 then Ret (drop_bit n w) else UB)"

definition shl32 :: "32 word \<Rightarrow> nat \<Rightarrow> 32 word c_out" where
  "shl32 w n = (if n < 32 then Ret (push_bit n w) else UB)"

definition MaskMax :: "32 word \<Rightarrow> 32 word c_out" where
  "MaskMax m = shr32 m (MaskShift m)"

definition MaskRead :: "32 word \<Rightarrow> 32 word \<Rightarrow> 32 word c_out" where
  "MaskRead m data = shr32 (data AND m) (MaskShift m)"

definition MaskWrite :: "32 word \<Rightarrow> 32 word \<Rightarrow> 32 word \<Rightarrow> 32 word c_out" where
  "MaskWrite m data v = c_bind (shl32 v (MaskShift m)) (\<lambda>x. Ret ((data AND NOT m) OR (x AND m)))"

lemma unat_drop_bit_div: "unat (drop_bit n (w :: 32 word)) = unat w div 2 ^ n"
  unfolding unat_drop_bit_eq by (rule drop_bit_eq_div)

lemma unat_drop_bit_le: "unat (drop_bit n (w :: 32 word)) \<le> unat w"
  unfolding unat_drop_bit_div by simp

lemma MaskMax_le: "MaskMax m = Ret x \<Longrightarrow> unat x \<le> unat m"
  by (auto simp: MaskMax_def shr32_def unat_drop_bit_le split: if_splits)

function MaskLength :: "32 word \<Rightarrow> nat c_out" where
  "MaskLength m =
     (case MaskMax m of
        UB \<Rightarrow> UB
      | Ret x \<Rightarrow>
          if drop_bit 8 x \<noteq> 0 then (case MaskLength (drop_bit 8 x) of UB \<Rightarrow> UB | Ret n \<Rightarrow> Ret (1 + n))
          else Ret 1)"
  by pat_completeness auto
termination
proof (relation "measure unat")
  fix m x :: "32 word"
  assume "MaskMax m = Ret x" "drop_bit 8 x \<noteq> 0"
  then have le: "unat x \<le> unat m" and "unat (drop_bit 8 x) \<noteq> 0" by (auto simp: MaskMax_le unat_eq_0)
  then have "unat x div 2 ^ 8 \<noteq> 0" unfolding unat_drop_bit_div by blast
  then have "unat x div 2 ^ 8 < unat x" by (cases "unat x") auto
  with le show "(drop_bit 8 x, m) \<in> measure unat" by (simp add: unat_drop_bit_div)
qed simp

declare MaskLength.simps [simp del]

section \<open>Positions\<close>

record pos =
  pkey :: "32 word"
  pname :: string
  poffset :: "32 word"
  plength :: "32 word"
  pmask :: "32 word"

text \<open>The \<open>n\<close> bytes at offset \<open>o\<close> of the region, and their replacement.\<close>

definition mem_read :: "byte list \<Rightarrow> nat \<Rightarrow> nat \<Rightarrow> byte list c_out" where
  "mem_read base off n = (if off + n \<le> length base then Ret (take n (drop off base)) else UB)"

definition mem_write :: "byte list \<Rightarrow> nat \<Rightarrow> byte list \<Rightarrow> byte list c_out" where
  "mem_write base off bs =
     (if off + length bs \<le> length base then Ret (take off base @ bs @ drop (off + length bs) base) else UB)"

text \<open>\<^verbatim>\<open>pos_read\<close> into a buffer of \<open>len\<close> bytes.\<close>

definition pos_read :: "pos \<Rightarrow> byte list \<Rightarrow> nat \<Rightarrow> (errno + byte list) c_out" where
  "pos_read p base len =
     (let off = unat (poffset p); n = unat (plength p)
      in if n \<le> 4 then
           c_bind (MaskLength (pmask p)) (\<lambda>ml.
             if len < ml then Ret (Inl ENOBUFS)
             else c_bind (mem_read base off n) (\<lambda>bs.
               c_bind (MaskRead (pmask p) (of_nat (le_nat bs))) (\<lambda>v.
                 Ret (Inr (take ml (le_bytes 4 (unat v)) @ replicate (len - ml) 0)))))
         else if len < n then Ret (Inl ENOBUFS)
         else c_bind (mem_read base off n) (\<lambda>bs. Ret (Inr (bs @ replicate (len - n) 0))))"

text \<open>\<^verbatim>\<open>pos_write\<close> of the bytes \<open>data\<close>: the new region.\<close>

definition pos_write :: "pos \<Rightarrow> byte list \<Rightarrow> byte list \<Rightarrow> (errno + byte list) c_out" where
  "pos_write p base data =
     (let off = unat (poffset p); n = unat (plength p)
      in if n \<le> 4 then
           if 4 < length data then Ret (Inl ENOBUFS)
           else c_bind (MaskMax (pmask p)) (\<lambda>mx.
             let v = of_nat (le_nat data)
             in if mx < v then Ret (Inl ENOBUFS)
                else c_bind (mem_read base off n) (\<lambda>bs.
                  c_bind (MaskWrite (pmask p) (of_nat (le_nat bs)) v) (\<lambda>raw.
                    c_bind (mem_write base off (take n (le_bytes 4 (unat raw)))) (\<lambda>base'. Ret (Inr base')))))
         else if n < length data then Ret (Inl ENOBUFS)
         else c_bind (mem_write base off (data @ replicate (n - length data) 0)) (\<lambda>base'. Ret (Inr base')))"

section \<open>Layouts\<close>

abbreviation LST_SEARCH_ID_END :: "32 word" where "LST_SEARCH_ID_END \<equiv> 4294967295"

text \<open>\<^verbatim>\<open>__lst_search\<close>: by number or by name, up to the end mark; a list without it is overrun.\<close>

fun lst_search :: "32 word + string \<Rightarrow> pos list \<Rightarrow> pos option c_out" where
  "lst_search idx [] = UB"
| "lst_search idx (p # ps) =
     (if pkey p = LST_SEARCH_ID_END then Ret None
      else case idx of
          Inl i \<Rightarrow> if pkey p = i then Ret (Some p) else lst_search idx ps
        | Inr st \<Rightarrow> if strcmp (pname p) st = 0 then Ret (Some p) else lst_search idx ps)"

definition pos_search :: "pos list \<Rightarrow> 32 word \<Rightarrow> pos option c_out" where
  "pos_search layout key = lst_search (Inl key) layout"

definition pos_search_by_name :: "pos list \<Rightarrow> string \<Rightarrow> pos option c_out" where
  "pos_search_by_name layout name = lst_search (Inr name) layout"

text \<open>
  An object of the parsed JSON array, as \<^verbatim>\<open>cJSON_GetObjectItem\<close> and \<^verbatim>\<open>cJSON_GetStringValue\<close> see it: a
  member is missing (\<open>None\<close>), not a string (\<open>Some None\<close>, a NULL that is then used), or a string.
\<close>

type_synonym json_item = "string \<Rightarrow> string option option"

definition strtoul0 :: "string option \<Rightarrow> 32 word c_out" where
  "strtoul0 s = (case s of None \<Rightarrow> UB | Some t \<Rightarrow>
     Ret (case strtoul t of None \<Rightarrow> 0 | Some (n, _) \<Rightarrow> of_int n))"

definition parse_pos :: "bool \<Rightarrow> 32 word \<Rightarrow> json_item \<Rightarrow> pos option c_out" where
  "parse_pos mem i item =
     (case (item ''name'', item ''offset'', item ''length'') of
        (Some name, Some offset, Some len) \<Rightarrow>
          (case name of
             None \<Rightarrow> UB
           | Some nm \<Rightarrow>
               if \<not> mem then Ret None
               else c_bind (strtoul0 offset) (\<lambda>off. c_bind (strtoul0 len) (\<lambda>l.
                 c_bind (case item ''mask'' of None \<Rightarrow> Ret 0 | Some m \<Rightarrow> strtoul0 m) (\<lambda>mk.
                   Ret (Some \<lparr>pkey = i, pname = nm, poffset = off, plength = l, pmask = mk\<rparr>)))))
      | _ \<Rightarrow> Ret None)"

fun parse_all :: "alloc \<Rightarrow> nat \<Rightarrow> json_item list \<Rightarrow> pos list option c_out" where
  "parse_all mem i [] = Ret (Some [])"
| "parse_all mem i (it # its) =
     c_bind (parse_pos (mem i) (of_nat i) it) (\<lambda>r.
       case r of
         None \<Rightarrow> Ret None
       | Some p \<Rightarrow> c_bind (parse_all mem (Suc i) its) (\<lambda>ps. Ret (map_option (Cons p) ps)))"

text \<open>
  \<^verbatim>\<open>layout_parse\<close>; \<open>json\<close> is what the file and the JSON parser give, \<open>None\<close> when that is not an array.
  The entry after the last one holds the end mark; \<^verbatim>\<open>calloc\<close> zeroed the rest of it.
\<close>

definition layout_parse :: "bool \<Rightarrow> alloc \<Rightarrow> json_item list option \<Rightarrow> pos list option c_out" where
  "layout_parse mem0 mem json =
     (case json of
        None \<Rightarrow> Ret None
      | Some items \<Rightarrow>
          if \<not> mem0 then Ret None
          else c_bind (parse_all mem 0 items) (\<lambda>ps.
            Ret (map_option (\<lambda>ps. ps @ [\<lparr>pkey = LST_SEARCH_ID_END, pname = [], poffset = 0, plength = 0, pmask = 0\<rparr>]) ps)))"

fun length_from :: "32 word \<Rightarrow> pos list \<Rightarrow> 32 word c_out" where
  "length_from len [] = UB"
| "length_from len (p # ps) =
     (if pkey p = LST_SEARCH_ID_END then Ret len
      else let end = poffset p + plength p in length_from (if len < end then end else len) ps)"

definition layout_length :: "pos list \<Rightarrow> 32 word c_out" where
  "layout_length layout = length_from 0 layout"

section \<open>The memory storage\<close>

text \<open>
  The region is the state. The result of \<^verbatim>\<open>pos_read\<close> is ignored: when it failed, the value's bytes are
  those of a fresh allocation, which nothing has written.
\<close>

definition memory_get ::
  "bool \<Rightarrow> pos list \<Rightarrow> byte list \<Rightarrow> string \<Rightarrow> ((errno + value_t \<times> timestamp) \<times> byte list) c_out" where
  "memory_get mem layout base key =
     c_bind (pos_search_by_name layout key) (\<lambda>r.
       case r of
         None \<Rightarrow> Ret (Inl ENOENT, base)
       | Some p \<Rightarrow>
           if \<not> mem then Ret (Inl ENOMEM, base)
           else c_bind (pos_read p base (unat (plength p))) (\<lambda>rd.
             case rd of
               Inl e \<Rightarrow> UB
             | Inr data \<Rightarrow>
                 Ret (Inr (\<lparr>vtype = (if 4 < plength p then value_data_t else value_u32_t),
                       vlength = plength p, vdata = data\<rparr>, INT64_MAX), base)))"

text \<open>\<open>dev\<close> is whether \<^verbatim>\<open>/dev/mem\<close> opens; the mapping itself is not checked for failure.\<close>

definition constructor_memory ::
  "alloc \<Rightarrow> bool \<Rightarrow> bool \<Rightarrow> string \<Rightarrow> pos list \<Rightarrow> (errno + byte list storage_ctx) c_out" where
  "constructor_memory mem dev get_mem name layout =
     (if \<not> mem 0 \<or> \<not> mem 1 then Ret (Inl ENOMEM)
      else if \<not> dev then Ret (Inl EIO)
      else c_bind (layout_length layout) (\<lambda>len.
        Ret (Inr \<lparr>sname = name, get_fn = Some (memory_get get_mem layout), set_fn = None, del_fn = None,
              destructor = Some (\<lambda>w. w)\<rparr>)))"

section \<open>Contiguous masks\<close>

text \<open>\<open>k\<close> one bits from bit \<open>s\<close> on: what the header asks of a mask.\<close>

definition field_mask :: "nat \<Rightarrow> nat \<Rightarrow> 32 word" where
  "field_mask s k = push_bit s (mask k)"

lemma bit_field_mask: "s + k \<le> 32 \<Longrightarrow> bit (field_mask s k) n \<longleftrightarrow> s \<le> n \<and> n < s + k"
  by (auto simp: field_mask_def bit_push_bit_iff bit_mask_iff)

lemma MaskShift_field: "0 < k \<Longrightarrow> s + k \<le> 32 \<Longrightarrow> MaskShift (field_mask s k) = s"
proof -
  assume k: "0 < k" "s + k \<le> 32"
  then have "List.find (\<lambda>n. bit (field_mask s k) n) [0..<32] = Some s"
    by (auto simp: find_Some_iff bit_field_mask intro!: exI [of _ s])
  then show ?thesis by (simp add: MaskShift_def)
qed

lemma MaskMax_field: "0 < k \<Longrightarrow> s + k \<le> 32 \<Longrightarrow> MaskMax (field_mask s k) = Ret (mask k)"
proof -
  assume k: "0 < k" "s + k \<le> 32"
  have "drop_bit s (field_mask s k) = mask k"
    by (rule bit_word_eqI) (use k in \<open>auto simp: bit_drop_bit_eq bit_field_mask bit_mask_iff\<close>)
  with k show ?thesis by (simp add: MaskMax_def shr32_def MaskShift_field)
qed

lemma MaskLength_mask: "0 < k \<Longrightarrow> k \<le> 32 \<Longrightarrow> MaskLength (mask k) = Ret ((k + 7) div 8)"
proof (induction k rule: less_induct)
  case (less k)
  have "MaskMax (mask k) = Ret (mask k)" using MaskMax_field [of k 0] less.prems by (simp add: field_mask_def)
  moreover have drop: "drop_bit 8 (mask k :: 32 word) = mask (k - 8)"
    by (rule bit_word_eqI) (use less.prems in \<open>auto simp: bit_drop_bit_eq bit_mask_iff\<close>)
  moreover have "(mask (k - 8) :: 32 word) = 0 \<longleftrightarrow> k \<le> 8" by (simp add: mask_eq_0_iff)
  moreover have "MaskLength (mask (k - 8)) = Ret ((k - 8 + 7) div 8)" if "8 < k"
    using less.IH [of "k - 8"] less.prems that by simp
  moreover have "1 + (k - 8 + 7) div 8 = (k + 7) div 8" if "8 < k"
    using that by (simp add: div_add_self2 [symmetric] less_imp_le)
  moreover have "(k + 7) div 8 = 1" if "k \<le> 8" using less.prems that by simp
  ultimately show ?case by (subst MaskLength.simps) (auto simp del: drop_bit_mask_eq)
qed

lemma MaskLength_field: "0 < k \<Longrightarrow> s + k \<le> 32 \<Longrightarrow> MaskLength (field_mask s k) = Ret ((k + 7) div 8)"
proof -
  assume k: "0 < k" "s + k \<le> 32"
  have "MaskLength (field_mask s k) = MaskLength (mask k)"
    using MaskMax_field [OF k] MaskMax_field [of k 0] k
    by (subst (1 2) MaskLength.simps) (simp add: field_mask_def)
  with k show ?thesis by (simp add: MaskLength_mask)
qed

lemma le_mask_iff: "(v :: 32 word) \<le> mask k \<longleftrightarrow> take_bit k v = v"
proof -
  have "take_bit k v = v \<longleftrightarrow> v AND mask k = v" by (simp add: take_bit_eq_mask)
  moreover have "v AND mask k = v \<Longrightarrow> v \<le> mask k" using word_and_le1 [of v "mask k"] by (simp add: and.commute)
  moreover have "v \<le> mask k \<Longrightarrow> take_bit k v = v"
  proof -
    assume "v \<le> mask k"
    show ?thesis
    proof (cases "k < 32")
      case True
      have pow: "(2 :: nat) ^ k < 2 ^ 32" using True by (rule power_strict_increasing) simp
      have "(mask k :: 32 word) = of_nat (2 ^ k - 1)"
        by (metis of_nat_mask_eq mask_eq_exp_minus_1)
      then have "unat (mask k :: 32 word) = (2 ^ k - 1) mod 2 ^ 32" by (simp only: unat_of_nat) simp
      then have "unat (mask k :: 32 word) = 2 ^ k - 1" using pow by simp
      moreover have "unat v \<le> unat (mask k :: 32 word)" using \<open>v \<le> mask k\<close> by (simp add: word_le_nat_alt)
      moreover have "0 < (2 :: nat) ^ k" by simp
      ultimately have "unat v < 2 ^ k" by linarith
      then show ?thesis by (simp add: word_unat_eq_iff unsigned_take_bit_eq take_bit_nat_eq_self)
    next
      case False
      then show ?thesis by (simp add: take_bit_word_eq_self)
    qed
  qed
  ultimately show ?thesis by blast
qed

lemma mask_write_read:
  assumes k: "0 < k" "s + k \<le> 32" and v: "v \<le> mask k"
  shows "\<exists>w. MaskWrite (field_mask s k) raw v = Ret w \<and> MaskRead (field_mask s k) w = Ret v \<and>
    w AND NOT (field_mask s k) = raw AND NOT (field_mask s k) \<and>
    (\<forall>j. s + k \<le> j \<longrightarrow> take_bit j raw = raw \<longrightarrow> take_bit j w = w)"
proof -
  let ?m = "field_mask s k"
  let ?w = "(raw AND NOT ?m) OR (push_bit s v AND ?m)"
  have bits: "bit v n \<Longrightarrow> n < k" for n using v by (auto simp: le_mask_iff bit_take_bit_iff dest: arg_cong [where f = "\<lambda>x. bit x n"])
  have "bit v n \<Longrightarrow> s + n < 32" for n using bits k by fastforce
  then have "drop_bit s (?w AND ?m) = v"
    by (intro bit_word_eqI)
      (use k bits in \<open>auto simp: bit_drop_bit_eq bit_and_iff bit_or_iff bit_not_iff bit_field_mask bit_push_bit_iff\<close>)
  moreover have "?w AND NOT ?m = raw AND NOT ?m"
    by (rule bit_word_eqI) (auto simp: bit_and_iff bit_or_iff bit_not_iff)
  moreover have "take_bit j ?w = ?w" if j: "s + k \<le> j" "take_bit j raw = raw" for j
  proof (rule bit_word_eqI)
    fix n
    have "bit raw n \<Longrightarrow> n < j" using j(2) by (auto simp: bit_take_bit_iff dest: arg_cong [where f = "\<lambda>x. bit x n"])
    then show "bit (take_bit j ?w) n = bit ?w n"
      using k j(1) by (auto simp: bit_take_bit_iff bit_and_iff bit_or_iff bit_not_iff bit_field_mask)
  qed
  ultimately show ?thesis
    using k by (simp add: MaskWrite_def MaskRead_def shl32_def shr32_def MaskShift_field)
qed

section \<open>Reads and writes\<close>

lemma take_le_bytes: "j \<le> i \<Longrightarrow> take j (le_bytes i n) = le_bytes j n"
proof (induction i arbitrary: j n)
  case (Suc i)
  then show ?case by (cases j) auto
qed simp

lemma le_nat_zeros [simp]: "le_nat (bs @ replicate n 0) = le_nat bs"
proof (induction bs)
  case Nil
  then show ?case by (induction n) auto
qed simp

lemma le_nat_zeros2 [simp]: "le_nat (bs @ replicate m 0 @ replicate n 0) = le_nat bs"
  by (metis append_assoc le_nat_zeros)

lemma mem_write_read:
  assumes "off + length bs \<le> length base"
  obtains base' where "mem_write base off bs = Ret base'" "length base' = length base"
    "take off base' = take off base" "drop (off + length bs) base' = drop (off + length bs) base"
    "mem_read base' off (length bs) = Ret bs"
  using assms by (auto simp: mem_write_def mem_read_def)

text \<open>A position that lies in the region, with a mask inside its bytes if it is an integer.\<close>

definition pos_fits :: "pos \<Rightarrow> nat \<Rightarrow> bool" where
  "pos_fits p sz \<longleftrightarrow> unat (poffset p) + unat (plength p) \<le> sz \<and>
     (unat (plength p) \<le> 4 \<longrightarrow>
        (\<exists>s k. pmask p = field_mask s k \<and> 0 < k \<and> s + k \<le> 8 * unat (plength p)))"

text \<open>The raw integer at a position, and the data a write to it accepts.\<close>

definition pos_raw :: "pos \<Rightarrow> byte list \<Rightarrow> 32 word" where
  "pos_raw p base = of_nat (le_nat (take (unat (plength p)) (drop (unat (poffset p)) base)))"

definition pos_accepts :: "pos \<Rightarrow> byte list \<Rightarrow> bool" where
  "pos_accepts p data \<longleftrightarrow>
     (if plength p \<le> 4 then length data \<le> 4 \<and> (of_nat (le_nat data) :: 32 word) \<le> drop_bit (MaskShift (pmask p)) (pmask p)
      else length data \<le> unat (plength p))"

lemma pow256: "(256 :: nat) ^ n = 2 ^ (8 * n)"
  by (simp add: power_mult)

lemma le_nat_take_bit: "length bs \<le> 4 \<Longrightarrow> take_bit (8 * length bs) (of_nat (le_nat bs) :: 32 word) = of_nat (le_nat bs)"
  using le_nat_bound [of bs] by (simp add: take_bit_of_nat take_bit_nat_eq_self pow256)

lemma pos_write_int:
  assumes n: "unat (plength p) = n" "n \<le> 4" and region: "unat (poffset p) + n \<le> length base"
    and m: "pmask p = field_mask s k" "0 < k" "s + k \<le> 8 * n"
    and data: "length data \<le> 4" "of_nat (le_nat data) \<le> (mask k :: 32 word)"
  shows "\<exists>base'. pos_write p base data = Ret (Inr base') \<and> length base' = length base \<and>
    take (unat (poffset p)) base' = take (unat (poffset p)) base \<and>
    drop (unat (poffset p) + n) base' = drop (unat (poffset p) + n) base \<and>
    pos_raw p base' AND NOT (pmask p) = pos_raw p base AND NOT (pmask p) \<and>
    (\<forall>len. n \<le> len \<longrightarrow> (\<exists>out. pos_read p base' len = Ret (Inr out) \<and> length out = len \<and> le_nat out = le_nat data))"
proof -
  let ?off = "unat (poffset p)" and ?v = "of_nat (le_nat data) :: 32 word" and ?ml = "(k + 7) div 8"
  have k: "s + k \<le> 32" "?ml \<le> n" using n(2) m(2,3) by auto
  define bs where "bs = take n (drop ?off base)"
  have bs: "length bs = n" "mem_read base ?off n = Ret bs" using region by (simp_all add: bs_def mem_read_def)
  obtain w where w: "MaskWrite (pmask p) (of_nat (le_nat bs)) ?v = Ret w" "MaskRead (pmask p) w = Ret ?v"
    "take_bit (8 * n) w = w" "w AND NOT (pmask p) = of_nat (le_nat bs) AND NOT (pmask p)"
    using mask_write_read [OF m(2) k(1) data(2), of "of_nat (le_nat bs)"] le_nat_take_bit [of bs] bs(1) n(2) m(1,3)
    by metis
  have len: "length (take n (le_bytes 4 (unat w))) = n" using n(2) by simp
  obtain base' where b': "mem_write base ?off (take n (le_bytes 4 (unat w))) = Ret base'" "length base' = length base"
    "take ?off base' = take ?off base" "drop (?off + n) base' = drop (?off + n) base"
    "mem_read base' ?off n = Ret (take n (le_bytes 4 (unat w)))"
    using mem_write_read [of ?off "take n (le_bytes 4 (unat w))" base] region unfolding len by blast
  have "take_bit (8 * n) (unat w) = unat w" using w(3) by (metis unsigned_take_bit_eq)
  then have "unat w mod 256 ^ n = unat w" by (simp only: take_bit_eq_mod pow256)
  then have "le_nat (take n (le_bytes 4 (unat w))) = unat w" using n(2) by (simp add: take_le_bytes)
  then have rawback: "of_nat (le_nat (take n (le_bytes 4 (unat w)))) = w" by simp
  moreover have "take n (drop ?off base') = take n (le_bytes 4 (unat w))" using b'(5) by (simp add: mem_read_def split: if_splits)
  ultimately have others: "pos_raw p base' AND NOT (pmask p) = pos_raw p base AND NOT (pmask p)"
    using w(4) n(1) by (simp add: pos_raw_def bs_def)
  have "le_nat data < 256 ^ 4"
  proof -
    have "(256 :: nat) ^ length data \<le> 256 ^ 4" using data(1) by (rule power_increasing) simp
    with le_nat_bound [of data] show ?thesis by (rule order.strict_trans2)
  qed
  then have v: "unat ?v = le_nat data" by (simp add: unat_of_nat)
  have "take_bit k ?v = ?v" using data(2) by (simp add: le_mask_iff)
  then have "take_bit k (unat ?v) = unat ?v" by (metis unsigned_take_bit_eq)
  then have "le_nat data = le_nat data mod 2 ^ k" unfolding v by (simp only: take_bit_eq_mod)
  then have "le_nat data < 2 ^ k" by (metis mod_less_divisor zero_less_numeral zero_less_power)
  also have "(2 :: nat) ^ k \<le> 2 ^ (8 * ?ml)" by (rule power_increasing) auto
  finally have small: "le_nat data mod 256 ^ ?ml = le_nat data" by (simp add: pow256)
  have wrote: "pos_write p base data = Ret (Inr base')"
    using n data MaskMax_field [OF m(2) k(1)] bs(2) w(1) b'(1) m(1) by (simp add: pos_write_def Let_def not_less)
  have "pos_read p base' len = Ret (Inr (le_bytes ?ml (le_nat data) @ replicate (len - ?ml) 0))" if "n \<le> len" for len
    using n that k MaskLength_field [OF m(2) k(1)] b'(5) w(2) m(1) rawback v
    by (simp add: pos_read_def Let_def take_le_bytes)
  then show ?thesis using wrote b' k(2) small others by auto
qed

lemma pos_write_data:
  assumes n: "unat (plength p) = n" "4 < n" and region: "unat (poffset p) + n \<le> length base"
    and data: "length data \<le> n"
  shows "\<exists>base'. pos_write p base data = Ret (Inr base') \<and> length base' = length base \<and>
    take (unat (poffset p)) base' = take (unat (poffset p)) base \<and>
    drop (unat (poffset p) + n) base' = drop (unat (poffset p) + n) base \<and>
    (\<forall>len. n \<le> len \<longrightarrow> (\<exists>out. pos_read p base' len = Ret (Inr out) \<and> length out = len \<and> le_nat out = le_nat data))"
proof -
  let ?off = "unat (poffset p)" and ?bs = "data @ replicate (n - length data) 0"
  have len: "length ?bs = n" using data by simp
  obtain base' where b': "mem_write base ?off ?bs = Ret base'" "length base' = length base"
    "take ?off base' = take ?off base" "drop (?off + n) base' = drop (?off + n) base" "mem_read base' ?off n = Ret ?bs"
    using mem_write_read [of ?off ?bs base] region unfolding len by blast
  have "pos_write p base data = Ret (Inr base')"
    using n data b'(1) by (simp add: pos_write_def Let_def)
  moreover have "pos_read p base' len = Ret (Inr (?bs @ replicate (len - n) 0))" if "n \<le> len" for len
    using n that b'(5) by (simp add: pos_read_def Let_def)
  ultimately show ?thesis using b' data by auto
qed

section \<open>Layouts and the memory storage\<close>

text \<open>A layout as the parser builds it: entries numbered from 0, then the end mark.\<close>

definition layout_ok :: "pos list \<Rightarrow> pos list \<Rightarrow> bool" where
  "layout_ok layout ps \<longleftrightarrow>
     (\<exists>q. layout = ps @ [q] \<and> pkey q = LST_SEARCH_ID_END) \<and> (\<forall>p \<in> set ps. pkey p \<noteq> LST_SEARCH_ID_END)"

lemma parse_pos_key: "parse_pos mem i it = Ret (Some p) \<Longrightarrow> pkey p = i"
  by (auto simp: parse_pos_def split: option.splits if_splits)

lemma parse_all_keys:
  "parse_all mem i its = Ret (Some ps) \<Longrightarrow> length ps = length its \<and> (\<forall>j < length ps. pkey (ps ! j) = of_nat (i + j))"
proof (induction mem i its arbitrary: ps rule: parse_all.induct)
  case (2 mem i it its)
  then obtain p qs where p: "parse_pos (mem i) (of_nat i) it = Ret (Some p)" and qs: "parse_all mem (Suc i) its = Ret (Some qs)"
    and ps: "ps = p # qs" by (auto split: option.splits)
  have "length qs = length its \<and> (\<forall>j < length qs. pkey (qs ! j) = of_nat (Suc i + j))"
    using 2 p qs by auto
  moreover have "pkey p = of_nat i" using p by (rule parse_pos_key)
  ultimately show ?case unfolding ps by (auto simp: nth_Cons split: nat.split)
qed simp

lemma layout_parse_ok:
  assumes "layout_parse mem0 mem (Some items) = Ret (Some layout)" "length items < 4294967295"
  obtains ps where "layout_ok layout ps" "length ps = length items" "parse_all mem 0 items = Ret (Some ps)"
proof -
  obtain ps where ps: "parse_all mem 0 items = Ret (Some ps)"
    "layout = ps @ [\<lparr>pkey = LST_SEARCH_ID_END, pname = [], poffset = 0, plength = 0, pmask = 0\<rparr>]"
    using assms(1) by (auto simp: layout_parse_def split: if_splits)
  note keys = parse_all_keys [OF ps(1)]
  have "pkey p \<noteq> LST_SEARCH_ID_END" if p: "p \<in> set ps" for p
  proof -
    obtain j where j: "j < length ps" "p = ps ! j" using p by (auto simp: in_set_conv_nth)
    then have "unat (pkey p) = j" using keys assms(2) by (simp add: unat_of_nat)
    then show ?thesis using j(1) keys assms(2) by auto
  qed
  then have "layout_ok layout ps" using ps(2) by (simp add: layout_ok_def)
  with that keys ps show ?thesis by blast
qed

lemma lst_search_name:
  "\<forall>p \<in> set ps. pkey p \<noteq> LST_SEARCH_ID_END \<Longrightarrow> pkey q = LST_SEARCH_ID_END \<Longrightarrow>
     lst_search (Inr name) (ps @ [q]) = Ret (List.find (\<lambda>p. pname p = name) ps)"
  by (induction ps) auto

lemma search_name: "layout_ok layout ps \<Longrightarrow> pos_search_by_name layout name = Ret (List.find (\<lambda>p. pname p = name) ps)"
  by (auto simp: layout_ok_def pos_search_by_name_def lst_search_name)

lemma lst_search_id:
  "\<forall>j < length ps. pkey (ps ! j) = of_nat (i + j) \<Longrightarrow> i + length ps < 4294967296 \<Longrightarrow> j < length ps \<Longrightarrow>
     lst_search (Inl (of_nat (i + j))) (ps @ qs) = Ret (Some (ps ! j))"
proof (induction ps arbitrary: i j)
  case (Cons p ps)
  have p: "pkey p = of_nat i" using Cons.prems(1) by (metis add_0_right length_Cons nth_Cons_0 zero_less_Suc)
  have "\<forall>j < length ps. pkey (ps ! j) = of_nat (Suc i + j)" using Cons.prems(1) by force
  then have IH: "lst_search (Inl (of_nat (Suc i + j'))) (ps @ qs) = Ret (Some (ps ! j'))" if "j' < length ps" for j'
    using Cons.IH [of "Suc i" j'] Cons.prems(2) that by simp
  have ne: "(of_nat i :: 32 word) \<noteq> LST_SEARCH_ID_END"
  proof
    assume "(of_nat i :: 32 word) = LST_SEARCH_ID_END"
    then have "unat (of_nat i :: 32 word) = 4294967295" by simp
    with Cons.prems(2) show False by (simp add: unat_of_nat)
  qed
  show ?case
  proof (cases j)
    case 0
    then show ?thesis by (simp add: p ne)
  next
    case (Suc j')
    have "(of_nat i :: 32 word) \<noteq> of_nat (i + j)"
    proof
      assume "(of_nat i :: 32 word) = of_nat (i + j)"
      then have "unat (of_nat i :: 32 word) = unat (of_nat (i + j) :: 32 word)" by simp
      with Suc Cons.prems(2,3) show False by (simp only: unat_of_nat) simp
    qed
    with Suc IH [of j'] Cons.prems(3) ne show ?thesis by (simp add: p)
  qed
qed simp

lemma length_from_end:
  "\<forall>p \<in> set ps. pkey p \<noteq> LST_SEARCH_ID_END \<Longrightarrow> pkey q = LST_SEARCH_ID_END \<Longrightarrow>
     \<exists>n. length_from len (ps @ [q]) = Ret n \<and> len \<le> n \<and> (\<forall>p \<in> set ps. poffset p + plength p \<le> n)"
proof (induction ps arbitrary: len)
  case (Cons p ps)
  let ?len = "if len < poffset p + plength p then poffset p + plength p else len"
  obtain n where "length_from ?len (ps @ [q]) = Ret n" "?len \<le> n" "\<forall>p \<in> set ps. poffset p + plength p \<le> n"
    using Cons.IH [of ?len] Cons.prems by auto
  moreover have "len \<le> ?len" "poffset p + plength p \<le> ?len" by (auto simp: not_less)
  ultimately show ?case using Cons.prems(1) by (auto simp: Let_def intro: order_trans)
qed simp

section \<open>Properties\<close>

text \<open>
  C32: a write to a position, integer field or byte string, is refused with \<open>ENOBUFS\<close> exactly if the
  value is larger than the mask or the space allows. Otherwise it changes nothing outside the
  position's bytes and, of an integer, nothing outside its mask, and a read then gives the value back,
  padded with zeros.
\<close>

theorem pos_write_read:
  assumes "pos_fits p (length base)"
  shows "if pos_accepts p data then
      \<exists>base'. pos_write p base data = Ret (Inr base') \<and> length base' = length base \<and>
        take (unat (poffset p)) base' = take (unat (poffset p)) base \<and>
        drop (unat (poffset p) + unat (plength p)) base' = drop (unat (poffset p) + unat (plength p)) base \<and>
        (plength p \<le> 4 \<longrightarrow> pos_raw p base' AND NOT (pmask p) = pos_raw p base AND NOT (pmask p)) \<and>
        (\<forall>len. unat (plength p) \<le> len \<longrightarrow>
          (\<exists>out. pos_read p base' len = Ret (Inr out) \<and> length out = len \<and> le_nat out = le_nat data))
    else pos_write p base data = Ret (Inl ENOBUFS)"
proof (cases "unat (plength p) \<le> 4")
  case True
  then have four: "plength p \<le> 4" by (simp add: word_le_nat_alt)
  from True assms obtain s k where m: "pmask p = field_mask s k" "0 < k" "s + k \<le> 8 * unat (plength p)"
    and region: "unat (poffset p) + unat (plength p) \<le> length base" by (auto simp: pos_fits_def)
  then have sk: "s + k \<le> 32" using True by simp
  note mx = MaskMax_field [OF m(2) sk]
  then have acc: "pos_accepts p data \<longleftrightarrow> length data \<le> 4 \<and> of_nat (le_nat data) \<le> (mask k :: 32 word)"
    using four sk m(2) by (simp add: pos_accepts_def m(1) MaskMax_def shr32_def MaskShift_field)
  show ?thesis
  proof (cases "pos_accepts p data")
    case True
    with pos_write_int [OF refl \<open>unat (plength p) \<le> 4\<close> region m, of data] four show ?thesis by (simp add: acc)
  next
    case False
    with True mx m(1) acc show ?thesis by (auto simp: pos_write_def Let_def not_le)
  qed
next
  case False
  then have four: "\<not> plength p \<le> 4" by (simp add: word_le_nat_alt)
  with False show ?thesis
    using pos_write_data [OF refl, of p base data] assms
    by (cases "length data \<le> unat (plength p)") (auto simp: pos_accepts_def pos_fits_def pos_write_def Let_def)
qed

theorem pos_write_read_witness:
  "\<exists>base' out. pos_write \<lparr>pkey = 0, pname = ''a'', poffset = 1, plength = 1, pmask = field_mask 4 4\<rparr> [1, 2, 3] [9] = Ret (Inr base') \<and>
     pos_read \<lparr>pkey = 0, pname = ''a'', poffset = 1, plength = 1, pmask = field_mask 4 4\<rparr> base' 2 = Ret (Inr out) \<and>
     le_nat out = 9"
proof -
  let ?p = "\<lparr>pkey = 0, pname = ''a'', poffset = 1, plength = 1, pmask = field_mask 4 4\<rparr>"
  have fits: "pos_fits ?p (length [1, 2, 3 :: byte])"
    unfolding pos_fits_def by (intro conjI impI exI [of _ 4]) simp_all
  have "(9 :: 32 word) \<le> mask 4" by (simp add: mask_eq_exp_minus_1 word_le_nat_alt)
  then have "pos_accepts ?p [9]"
    using MaskMax_field [of 4 4] by (simp add: pos_accepts_def MaskMax_def shr32_def MaskShift_field word_le_nat_alt)
  with pos_write_read [OF fits, of "[9]"] have "\<exists>base'. pos_write ?p [1, 2, 3] [9] = Ret (Inr base') \<and>
    (\<forall>len. unat (plength ?p) \<le> len \<longrightarrow> (\<exists>out. pos_read ?p base' len = Ret (Inr out) \<and> length out = len \<and>
      le_nat out = le_nat [9]))" unfolding if_P [OF \<open>pos_accepts ?p [9]\<close>] by blast
  then obtain base' where b: "pos_write ?p [1, 2, 3] [9] = Ret (Inr base')"
    "\<forall>len. unat (plength ?p) \<le> len \<longrightarrow> (\<exists>out. pos_read ?p base' len = Ret (Inr out) \<and> length out = len \<and>
      le_nat out = le_nat [9])" by blast
  from b(2) [rule_format, of 2] obtain out where "pos_read ?p base' 2 = Ret (Inr out)" "le_nat out = le_nat [9]" by auto
  with b(1) show ?thesis by auto
qed

text \<open>
  A parsed layout is safe to search: with fewer than \<open>2 ^ 32 - 1\<close> entries the searches by
  name and by number stay inside it and find the first entry of that name and the entry of that
  number, and its length covers the end of every
  entry, as long as offset and length of the entry do not wrap.
\<close>

theorem layout_search:
  assumes "layout_parse mem0 mem (Some items) = Ret (Some layout)" "length items < 4294967295"
  shows "\<exists>ps len. parse_all mem 0 items = Ret (Some ps) \<and>
    pos_search_by_name layout name = Ret (List.find (\<lambda>p. pname p = name) ps) \<and>
    (\<forall>j < length ps. pos_search layout (of_nat j) = Ret (Some (ps ! j))) \<and>
    layout_length layout = Ret len \<and>
    (\<forall>p \<in> set ps. unat (poffset p) + unat (plength p) < 4294967296 \<longrightarrow>
       unat (poffset p) + unat (plength p) \<le> unat len)"
proof -
  obtain ps where ps: "layout_ok layout ps" "parse_all mem 0 items = Ret (Some ps)" "length ps = length items"
    using layout_parse_ok [OF assms] by blast
  obtain q where q: "layout = ps @ [q]" "pkey q = LST_SEARCH_ID_END" "\<forall>p \<in> set ps. pkey p \<noteq> LST_SEARCH_ID_END"
    using ps(1) by (auto simp: layout_ok_def)
  obtain n where n: "layout_length layout = Ret n" "\<forall>p \<in> set ps. poffset p + plength p \<le> n"
    using length_from_end [OF q(3,2), of 0] unfolding layout_length_def q(1) by blast
  have "pos_search layout (of_nat j) = Ret (Some (ps ! j))" if "j < length ps" for j
    using lst_search_id [of ps 0 j "[q]"] parse_all_keys [OF ps(2)] ps(3) assms(2) that
    by (simp add: pos_search_def q(1))
  moreover have "unat (poffset p) + unat (plength p) \<le> unat n"
    if "p \<in> set ps" "unat (poffset p) + unat (plength p) < 4294967296" for p
  proof -
    have "unat (poffset p + plength p) = unat (poffset p) + unat (plength p)"
      using that(2) by (simp add: unat_word_ariths)
    then show ?thesis using n(2) that(1) by (metis word_le_nat_alt)
  qed
  ultimately show ?thesis using ps n(1) search_name [OF ps(1)] by blast
qed

theorem layout_search_witness:
  "\<exists>layout. layout_parse True mem_ok (Some []) = Ret (Some layout) \<and> pos_search_by_name layout ''k'' = Ret None"
proof -
  obtain layout where l: "layout_parse True mem_ok (Some []) = Ret (Some layout)" by (simp add: layout_parse_def)
  from layout_search [OF l, of "''k''"] l show ?thesis by auto
qed

lemma memory_get_found:
  assumes "layout_ok layout ps" "List.find (\<lambda>p. pname p = key) ps = Some p"
  shows "memory_get True layout base key = c_bind (pos_read p base (unat (plength p))) (\<lambda>rd.
     case rd of Inl e \<Rightarrow> UB | Inr data \<Rightarrow>
       Ret (Inr (\<lparr>vtype = (if 4 < plength p then value_data_t else value_u32_t), vlength = plength p, vdata = data\<rparr>,
         INT64_MAX), base))"
  using assms by (simp add: memory_get_def search_name)

lemma pos_read_fits:
  assumes "pos_fits p (length base)"
  shows "\<exists>out. pos_read p base (unat (plength p)) = Ret (Inr out) \<and> length out = unat (plength p)"
proof (cases "unat (plength p) \<le> 4")
  case True
  with assms obtain s k where m: "pmask p = field_mask s k" "0 < k" "s + k \<le> 8 * unat (plength p)"
    and region: "unat (poffset p) + unat (plength p) \<le> length base" by (auto simp: pos_fits_def)
  then have k: "s + k \<le> 32" "(k + 7) div 8 \<le> unat (plength p)" using True by auto
  obtain v where "MaskRead (pmask p) (of_nat (le_nat (take (unat (plength p)) (drop (unat (poffset p)) base)))) = Ret v"
    using m k by (simp add: MaskRead_def shr32_def MaskShift_field)
  with True m k region MaskLength_field [OF m(2) k(1)] show ?thesis
    by (simp add: pos_read_def mem_read_def take_le_bytes)
next
  case False
  with assms show ?thesis by (auto simp: pos_fits_def pos_read_def mem_read_def)
qed

text \<open>
  C33: a get from the memory storage. For an entry that fits the region and has at least 4 bytes it
  returns a well-formed value of the entry's length, valid for ever; an unknown key is \<open>ENOENT\<close>; for
  an integer entry of fewer than 4 bytes the storage wrapper prints a \<^verbatim>\<open>u32\<close> value that is too short,
  and for one without a mask the read shifts by 32 or more: both undefined.
\<close>

theorem memory_get_outcomes:
  assumes "layout_ok layout ps" "constructor_memory mem_ok True True name layout = Ret (Inr st)"
  shows "case List.find (\<lambda>p. pname p = key) ps of
      None \<Rightarrow> storage_get st base key = Ret (Inl ENOENT, base)
    | Some p \<Rightarrow>
        (pos_fits p (length base) \<and> 4 \<le> plength p \<longrightarrow>
           (\<exists>v. storage_get st base key = Ret (Inr (v, INT64_MAX), base) \<and> value_wf v \<and> vlength v = plength p)) \<and>
        (plength p < 4 \<longrightarrow> storage_get st base key = UB) \<and>
        (plength p \<le> 4 \<and> pmask p = 0 \<longrightarrow> storage_get st base key = UB)"
proof (cases "List.find (\<lambda>p. pname p = key) ps")
  case None
  with assms show ?thesis by (auto simp: constructor_memory_def storage_get_def memory_get_def search_name)
next
  case (Some p)
  have st: "get_fn st = Some (memory_get True layout)" using assms(2) by (auto simp: constructor_memory_def)
  note get = memory_get_found [OF assms(1) Some, of base]
  have "\<exists>v. storage_get st base key = Ret (Inr (v, INT64_MAX), base) \<and> value_wf v \<and> vlength v = plength p"
    if fits: "pos_fits p (length base)" and four: "4 \<le> plength p"
  proof -
    from pos_read_fits [OF fits] obtain out where out: "pos_read p base (unat (plength p)) = Ret (Inr out)"
      "length out = unat (plength p)" by blast
    let ?v = "\<lparr>vtype = (if 4 < plength p then value_data_t else value_u32_t), vlength = plength p, vdata = out\<rparr>"
    have "value_wf ?v" using out(2) four by (auto simp: value_wf_def value_ok_def not_less)
    moreover from this have "log_value ?v = Ret ()"
      using value_fmt_wf [of ?v 256 "\<lambda>_. []" "\<lambda>_. []" False] by (auto simp: log_value_def)
    ultimately show ?thesis using st get out(1) by (auto simp: storage_get_def)
  qed
  moreover have "storage_get st base key = UB" if short: "plength p < 4"
  proof -
    have "log_value \<lparr>vtype = value_u32_t, vlength = plength p, vdata = data\<rparr> = UB" for data
      using short by (auto simp: log_value_def value_fmt_def value_to_u32_def value_to_def word_less_nat_alt)
    moreover have "\<not> 4 < plength p" using short by (auto simp: word_less_nat_alt)
    ultimately show ?thesis
      using st get by (cases "pos_read p base (unat (plength p))") (auto simp: storage_get_def split: sum.split)
  qed
  moreover have "storage_get st base key = UB" if "plength p \<le> 4" "pmask p = 0"
  proof -
    have "List.find (\<lambda>n. bit (0 :: 32 word) n) [0..<32] = None" by (simp only: find_None_iff) simp
    then have "MaskShift 0 = 4294967295" by (simp only: MaskShift_def option.case)
    then have "MaskLength 0 = UB" by (subst MaskLength.simps) (simp add: MaskMax_def shr32_def)
    then show ?thesis using that st get by (simp add: storage_get_def pos_read_def word_le_nat_alt)
  qed
  ultimately show ?thesis using Some by simp
qed

theorem memory_get_outcomes_witness:
  "\<exists>st. constructor_memory mem_ok True True ''m'' [\<lparr>pkey = 0, pname = ''a'', poffset = 0, plength = 2, pmask = 255\<rparr>,
       \<lparr>pkey = LST_SEARCH_ID_END, pname = [], poffset = 0, plength = 0, pmask = 0\<rparr>] = Ret (Inr st) \<and>
     storage_get st [1, 2, 3, 4] ''a'' = UB"
proof -
  let ?p = "\<lparr>pkey = 0, pname = ''a'', poffset = 0, plength = 2, pmask = 255\<rparr>"
  let ?l = "[?p, \<lparr>pkey = LST_SEARCH_ID_END, pname = [], poffset = 0, plength = 0, pmask = 0\<rparr>]"
  have ok: "layout_ok ?l [?p]" by (simp add: layout_ok_def)
  obtain st where st: "constructor_memory mem_ok True True ''m'' ?l = Ret (Inr st)"
    by (auto simp: constructor_memory_def layout_length_def)
  from memory_get_outcomes [OF ok st, where key = "''a''" and base = "[1, 2, 3, 4]"] st show ?thesis
    by (auto simp: word_less_nat_alt)
qed

end
