(* ===== verification/Io_Protocol.thy ===== *)
theory Io_Protocol
  imports Io
begin

text \<open>
  The request protocol between daemons, \<^verbatim>\<open>lib/io_server.c\<close> (the worker that serves a connection) and
  \<^verbatim>\<open>lib/builtin/unix.c\<close> (the storage that forwards to another daemon). A connection is a pair of byte
  streams; a \<^verbatim>\<open>recv\<close> takes what it asks for when that many bytes are there, otherwise what is there,
  and a \<^verbatim>\<open>send\<close> to a peer that is still there succeeds. Structs travel as their packed little-endian
  bytes.
\<close>

section \<open>Integers and packages on the wire\<close>

definition wire_i64 :: "int \<Rightarrow> byte list" where
  "wire_i64 x = le_bytes 8 (nat (x mod 2 ^ 64))"

definition unwire_i64 :: "byte list \<Rightarrow> int" where
  "unwire_i64 bs = i64 (int (le_nat bs))"

definition wire_int :: "int \<Rightarrow> byte list" where
  "wire_int x = le_bytes 4 (nat (x mod 2 ^ 32))"

definition unwire_int :: "byte list \<Rightarrow> int" where
  "unwire_int bs = signed_take_bit 31 (int (le_nat bs))"

abbreviation io_get_t :: byte where "io_get_t \<equiv> 0"
abbreviation io_set_t :: byte where "io_set_t \<equiv> 1"
abbreviation io_del_t :: byte where "io_del_t \<equiv> 2"

abbreviation NAME_MAX :: nat where "NAME_MAX \<equiv> 255"

text \<open>\<^verbatim>\<open>strncpy\<close> into the key field: cut at its size, padded with NUL.\<close>

definition key_field :: "string \<Rightarrow> byte list" where
  "key_field key = take NAME_MAX (map of_char key @ replicate NAME_MAX 0)"

text \<open>\<^verbatim>\<open>struct io_package\<close>: type, creation time, key, header of the value; 269 bytes.\<close>

definition io_package :: "byte \<Rightarrow> timestamp \<Rightarrow> string \<Rightarrow> byte \<Rightarrow> 32 word \<Rightarrow> byte list" where
  "io_package ty created key vt vl = ty # wire_i64 created @ key_field key @ vt # le_bytes 4 (unat vl)"

abbreviation PKG_SIZE :: nat where "PKG_SIZE \<equiv> 269"

section \<open>The worker of the server\<close>

text \<open>\<^verbatim>\<open>cred_check\<close> accepts everybody.\<close>

definition cred_check :: "byte \<Rightarrow> string \<Rightarrow> int" where
  "cred_check ty key = 0"

text \<open>
  The handlers: the bytes they send before the result, the result, what is left of the input.
  \<open>Ret None\<close> when the request waits for its key.
\<close>

definition srv_get ::
  "io_env \<Rightarrow> 'w io_ctx \<Rightarrow> string \<Rightarrow> (byte list \<times> int \<times> 'w io_ctx) option c_out" where
  "srv_get env io key =
     (if cred_check io_get_t key \<noteq> 0 then Ret (Some (wire_i64 0 @ [0, 0, 0, 0, 0], cred_check io_get_t key, io))
      else c_bind (io_get env io key) (\<lambda>r.
        Ret (map_option (\<lambda>(r, io').
          case r of
            Inl e \<Rightarrow> (wire_i64 0 @ [0, 0, 0, 0, 0], errno_code e, io')
          | Inr (v, d) \<Rightarrow> (wire_i64 d @ value_bytes v, 0, io')) r)))"

definition result_code :: "errno option \<Rightarrow> int" where
  "result_code r = (case r of None \<Rightarrow> 0 | Some e \<Rightarrow> errno_code e)"

text \<open>
  The data of a value is received with one \<^verbatim>\<open>recv\<close> of its length. For a value of length 0 the model goes on at
  once; in the kernel a \<^verbatim>\<open>recv\<close> of 0 bytes waits until something else arrives or the client hangs up.
\<close>

definition srv_set ::
  "io_env \<Rightarrow> bool \<Rightarrow> 'w io_ctx \<Rightarrow> string \<Rightarrow> byte \<Rightarrow> 32 word \<Rightarrow> byte list \<Rightarrow>
   (int \<times> byte list \<times> 'w io_ctx) option c_out" where
  "srv_set env mem io key vt vl input =
     (if \<not> mem then Ret (Some (errno_code ENOMEM, [], io))
      else if length input < unat vl then Ret (Some (errno_code EIO, [], io))
      else if cred_check io_set_t key \<noteq> 0 then Ret (Some (cred_check io_set_t key, drop (unat vl) input, io))
      else c_bind (io_set env io key \<lparr>vtype = vt, vlength = vl, vdata = take (unat vl) input\<rparr>) (\<lambda>r.
        Ret (map_option (\<lambda>(r, io'). (result_code r, drop (unat vl) input, io')) r)))"

definition srv_del :: "io_env \<Rightarrow> 'w io_ctx \<Rightarrow> string \<Rightarrow> (int \<times> 'w io_ctx) option c_out" where
  "srv_del env io key =
     (if cred_check io_del_t key \<noteq> 0 then Ret (Some (cred_check io_del_t key, io))
      else c_bind (io_del env io key) (\<lambda>r. Ret (map_option (\<lambda>(r, io'). (result_code r, io')) r)))"

text \<open>
  One turn of the worker's loop on the bytes received: what it sends, what is left, the new state. A
  header that arrives only in part is used all the same, its tail being what the stack holds there
  (\<open>stack\<close>, 269 bytes); the key is read to its NUL, past its field if it has none there.
\<close>

definition worker_turn ::
  "io_env \<Rightarrow> bool \<Rightarrow> byte list \<Rightarrow> 'w io_ctx \<Rightarrow> byte list \<Rightarrow> (byte list \<times> byte list \<times> 'w io_ctx) option c_out" where
  "worker_turn env mem stack io input =
     (let pkg = take PKG_SIZE (input @ drop (length input) stack); rest = drop PKG_SIZE input;
            ty = hd pkg; (vt, vl) = value_head (drop 264 pkg)
        in c_bind (cstring_at (drop 9 pkg)) (\<lambda>key.
             if ty = io_get_t then
               c_bind (srv_get env io key) (\<lambda>r.
                 Ret (map_option (\<lambda>(out, result, io'). (out @ wire_int result, rest, io')) r))
             else if ty = io_set_t then
               c_bind (srv_set env mem io key vt vl rest) (\<lambda>r.
                 Ret (map_option (\<lambda>(result, rest', io'). (wire_int result, rest', io')) r))
             else if ty = io_del_t then
               c_bind (srv_del env io key) (\<lambda>r.
                 Ret (map_option (\<lambda>(result, io'). (wire_int result, rest, io')) r))
             else Ret (Some (wire_int 0, rest, io))))"

text \<open>
  The loop: until the peer has closed its side (no bytes left). Each turn meets an environment of its
  own (clock, allocations); a list too short for the input ends the run as a wait does.
\<close>

fun worker ::
  "io_env list \<Rightarrow> bool \<Rightarrow> byte list \<Rightarrow> 'w io_ctx \<Rightarrow> byte list \<Rightarrow> (byte list \<times> 'w io_ctx) option c_out" where
  "worker [] mem stack io input = (if input = [] then Ret (Some ([], io)) else Ret None)"
| "worker (env # envs) mem stack io input =
     (if input = [] then Ret (Some ([], io))
      else c_bind (worker_turn env mem stack io input) (\<lambda>r.
        case r of
          None \<Rightarrow> Ret None
        | Some (out, rest, io') \<Rightarrow>
            c_bind (worker envs mem stack io' rest) (\<lambda>r'.
              Ret (map_option (\<lambda>(out', io''). (out @ out', io'')) r'))))"

section \<open>The client\<close>

text \<open>\<^verbatim>\<open>io_begin\<close>: what is sent for a request; a value is given for a set.\<close>

definition io_begin :: "byte \<Rightarrow> timestamp \<Rightarrow> string \<Rightarrow> value_t option \<Rightarrow> byte list" where
  "io_begin ty created key v =
     (case v of
        None \<Rightarrow> io_package ty created key value_undef 0
      | Some v \<Rightarrow> io_package ty created key (vtype v) (vlength v) @ vdata v)"

text \<open>\<^verbatim>\<open>io_end\<close>: the result, \<open>None\<close> for success, and what is left of the answer.\<close>

definition io_end :: "byte list \<Rightarrow> errno option \<times> byte list" where
  "io_end resp =
     (if length resp < 4 then (Some EIO, [])
      else
        let result = unwire_int (take 4 resp)
        in (if result = 0 then None else Some (errno_of result), drop 4 resp))"

text \<open>The reading of the answer to a get; its error exit discards what is left of the answer.\<close>

definition unix_get :: "bool \<Rightarrow> byte list \<Rightarrow> (errno + value_t \<times> timestamp) \<times> byte list" where
  "unix_get mem resp =
     (if length resp < 8 then (Inl EIO, [])
      else
        let d = unwire_i64 (take 8 resp); resp = drop 8 resp
        in if length resp < 5 then (Inl EIO, [])
           else
             let (vt, vl) = value_head resp; resp = drop 5 resp
             in if \<not> mem then (Inl ENOMEM, [])
                else if length resp < unat vl then (Inl EIO, [])
                else
                  (case io_end (drop (unat vl) resp) of
                     (Some e, rest) \<Rightarrow> (Inl e, [])
                   | (None, rest) \<Rightarrow> (Inr (\<lparr>vtype = vt, vlength = vl, vdata = take (unat vl) resp\<rparr>, d), rest)))"

text \<open>
  A request over a fresh or a shared connection to a daemon whose state is \<open>io\<close>: the request's bytes,
  the turn of that daemon's worker, the reading of its answer. \<open>conn\<close> is the outcome of
  \<^verbatim>\<open>io_connect\<close>, \<open>None\<close> on a shared connection, \<open>mem\<close> whether the other daemon has memory for the value
  and \<open>cmem\<close> whether the client has. The result comes with what is left of the answer and of the
  request.
\<close>

definition remote_get ::
  "errno option \<Rightarrow> io_env \<Rightarrow> bool \<Rightarrow> byte list \<Rightarrow> timestamp \<Rightarrow> 'w io_ctx \<Rightarrow> string \<Rightarrow>
   ((errno + value_t \<times> timestamp) \<times> byte list \<times> byte list \<times> 'w io_ctx) option c_out" where
  "remote_get conn env cmem stack created io key =
     (case conn of
        Some e \<Rightarrow> Ret (Some (Inl e, [], [], io))
      | None \<Rightarrow>
          c_bind (worker_turn env True stack io (io_begin io_get_t created key None)) (\<lambda>r.
            Ret (map_option (\<lambda>(out, rest, io'). case unix_get cmem out of (a, left) \<Rightarrow> (a, left, rest, io')) r)))"

definition remote_set ::
  "errno option \<Rightarrow> io_env \<Rightarrow> bool \<Rightarrow> byte list \<Rightarrow> timestamp \<Rightarrow> 'w io_ctx \<Rightarrow> string \<Rightarrow> value_t \<Rightarrow>
   (errno option \<times> byte list \<times> byte list \<times> 'w io_ctx) option c_out" where
  "remote_set conn env mem stack created io key v =
     (case conn of
        Some e \<Rightarrow> Ret (Some (Some e, [], [], io))
      | None \<Rightarrow>
          c_bind (worker_turn env mem stack io (io_begin io_set_t created key (Some v))) (\<lambda>r.
            Ret (map_option (\<lambda>(out, rest, io'). case io_end out of (a, left) \<Rightarrow> (a, left, rest, io')) r)))"

definition remote_del ::
  "errno option \<Rightarrow> io_env \<Rightarrow> byte list \<Rightarrow> timestamp \<Rightarrow> 'w io_ctx \<Rightarrow> string \<Rightarrow>
   (errno option \<times> byte list \<times> byte list \<times> 'w io_ctx) option c_out" where
  "remote_del conn env stack created io key =
     (case conn of
        Some e \<Rightarrow> Ret (Some (Some e, [], [], io))
      | None \<Rightarrow>
          c_bind (worker_turn env True stack io (io_begin io_del_t created key None)) (\<lambda>r.
            Ret (map_option (\<lambda>(out, rest, io'). case io_end out of (a, left) \<Rightarrow> (a, left, rest, io')) r)))"

text \<open>
  The storage that forwards. \<open>ask target request w\<close> is what the rest of the system does with a
  request: the error of \<^verbatim>\<open>io_connect\<close> or the answer the target sends, and the new state.
\<close>

type_synonym 'w unix_peer = "string \<Rightarrow> byte list \<Rightarrow> 'w \<Rightarrow> ((errno + byte list) \<times> 'w) c_out"

definition forward :: "'w unix_peer \<Rightarrow> string \<Rightarrow> byte list \<Rightarrow> (errno \<Rightarrow> 'r) \<Rightarrow> (byte list \<Rightarrow> 'r) \<Rightarrow> 'w \<Rightarrow> ('r \<times> 'w) c_out" where
  "forward ask target request err read w =
     c_bind (ask target request w) (\<lambda>(r, w'). Ret (case r of Inl e \<Rightarrow> err e | Inr resp \<Rightarrow> read resp, w'))"

text \<open>\<open>cmem\<close> is whether a get finds memory for the value.\<close>

definition unix_storage :: "'w unix_peer \<Rightarrow> bool \<Rightarrow> timestamp \<Rightarrow> string \<Rightarrow> 'w storage_ctx" where
  "unix_storage ask cmem created name =
     \<lparr>sname = name,
      get_fn = Some (\<lambda>w key. forward ask name (io_begin io_get_t created key None) Inl (\<lambda>resp. fst (unix_get cmem resp)) w),
      set_fn = Some (\<lambda>w key v. forward ask name (io_begin io_set_t created key (Some v)) Some (\<lambda>resp. fst (io_end resp)) w),
      del_fn = Some (\<lambda>w key. forward ask name (io_begin io_del_t created key None) Some (\<lambda>resp. fst (io_end resp)) w),
      destructor = Some (\<lambda>w. w)\<rparr>"

text \<open>\<open>conn\<close> is the outcome of \<^verbatim>\<open>io_connect\<close> when the connection is shared.\<close>

definition constructor_unix ::
  "'w unix_peer \<Rightarrow> bool \<Rightarrow> timestamp \<Rightarrow> alloc \<Rightarrow> errno option \<Rightarrow> string \<Rightarrow> bool \<Rightarrow> errno + 'w storage_ctx" where
  "constructor_unix ask cmem created mem conn name shared =
     (if \<not> mem 0 \<or> \<not> mem 1 then Inl ENOMEM
      else if shared \<and> conn \<noteq> None then Inl (the conn)
      else if \<not> shared \<and> \<not> mem 2 then Inl ENOMEM
      else Inr (unix_storage ask cmem created name))"

text \<open>The type argument of the unix storage on the command line: \<open>True\<close> for a shared connection.\<close>

definition unix_parse :: "string \<Rightarrow> errno + bool" where
  "unix_parse type_s =
     (if type_s = [] then Inr False
      else if strcmp type_s ''temp'' = 0 then Inr False
      else if strcmp type_s ''long'' = 0 then Inr True
      else Inl EINVAL)"

section \<open>Lemmas\<close>

lemma length_wire [simp]: "length (wire_i64 x) = 8" "length (wire_int x) = 4"
  by (simp_all add: wire_i64_def wire_int_def)

lemma unwire_wire_i64_mod: "unwire_i64 (wire_i64 x) = i64 x"
proof -
  have "unwire_i64 (wire_i64 x) = i64 (x mod 2 ^ 64)" by (simp add: unwire_i64_def wire_i64_def)
  also have "x mod 2 ^ 64 = take_bit 64 x" by (simp only: take_bit_eq_mod)
  also have "i64 (take_bit 64 x) = i64 x" by (simp add: i64_def signed_take_bit_take_bit)
  finally show ?thesis .
qed

lemma unwire_wire_i64 [simp]: "in_i64 x \<Longrightarrow> unwire_i64 (wire_i64 x) = x"
  by (simp add: unwire_wire_i64_mod)

lemma unwire_wire_int: "unwire_int (wire_int x) = signed_take_bit 31 x"
proof -
  have "unwire_int (wire_int x) = signed_take_bit 31 (x mod 2 ^ 32)" by (simp add: unwire_int_def wire_int_def)
  also have "x mod 2 ^ 32 = take_bit 32 x" by (simp only: take_bit_eq_mod)
  also have "signed_take_bit 31 (take_bit 32 x) = signed_take_bit 31 x" by (simp add: signed_take_bit_take_bit)
  finally show ?thesis .
qed

text \<open>An error number that survives the trip as an \<^verbatim>\<open>int\<close>.\<close>

definition wire_errno :: "errno \<Rightarrow> bool" where
  "wire_errno e \<longleftrightarrow> errno_of (errno_code e) = e \<and> errno_code e \<noteq> 0 \<and> signed_take_bit 31 (errno_code e) = errno_code e"

lemma wire_errno_named: "wire_errno ENOENT" "wire_errno EIO" "wire_errno ENOMEM" "wire_errno EOPNOTSUPP" "wire_errno ENXIO"
  by (simp_all add: wire_errno_def errno_of_def signed_take_bit_int_eq_self_iff)

lemma io_end_error: "wire_errno e \<Longrightarrow> io_end (wire_int (errno_code e)) = (Some e, [])"
  by (simp add: io_end_def unwire_wire_int wire_errno_def)

lemma io_end_ok: "io_end (wire_int 0) = (None, [])"
  by (simp add: io_end_def unwire_wire_int)

lemma length_key_field [simp]: "length (key_field key) = 255"
  by (simp add: key_field_def)

lemma key_field_short: "length key < 255 \<Longrightarrow> key_field key = map of_char key @ replicate (255 - length key) 0"
  by (simp add: key_field_def)

lemma cstring_key_field:
  assumes "no_nul key" "length key < 255"
  shows "cstring_at (key_field key @ bs) = Ret key"
proof -
  obtain n where n: "255 - length key = Suc n" using assms(2) by (cases "255 - length key") auto
  have "takeWhile (\<lambda>b. b \<noteq> 0) (key_field key @ bs) = map of_char key"
    unfolding key_field_short [OF assms(2)] n append_assoc
    by (subst takeWhile_append2) (auto dest: of_char_neq_0 [OF assms(1)])
  moreover have "0 \<in> set (key_field key @ bs)" using n by (simp add: key_field_short [OF assms(2)])
  ultimately show ?thesis by (simp add: cstring_at_def comp_def)
qed

lemma package_parts:
  fixes ty vt :: byte and vl :: "32 word" and key :: string and created :: timestamp
  defines "pkg \<equiv> io_package ty created key vt vl"
  shows "length pkg = PKG_SIZE" "hd pkg = ty" "drop 9 pkg = key_field key @ vt # le_bytes 4 (unat vl)"
    "value_head (drop 264 pkg) = (vt, vl)"
proof -
  have pkg: "pkg = (ty # wire_i64 created) @ key_field key @ vt # le_bytes 4 (unat vl)"
    by (simp add: pkg_def io_package_def)
  show "length pkg = PKG_SIZE" "hd pkg = ty" by (simp_all add: pkg)
  show d9: "drop 9 pkg = key_field key @ vt # le_bytes 4 (unat vl)"
    unfolding pkg by (subst drop_append) simp
  have "drop 264 pkg = drop 255 (drop 9 pkg)" by simp
  also have "\<dots> = vt # le_bytes 4 (unat vl)" unfolding d9 by (subst drop_append) simp
  finally show "value_head (drop 264 pkg) = (vt, vl)"
    using le_nat_word(1) [of vl] by (simp add: value_head_def)
qed

lemma worker_turn_package:
  assumes "no_nul key" "length key < 255"
  shows "worker_turn env mem stack io (io_package ty created key vt vl @ rest) =
    (if ty = io_get_t then
       c_bind (srv_get env io key) (\<lambda>r.
         Ret (map_option (\<lambda>(out, result, io'). (out @ wire_int result, rest, io')) r))
     else if ty = io_set_t then
       c_bind (srv_set env mem io key vt vl rest) (\<lambda>r.
         Ret (map_option (\<lambda>(result, rest', io'). (wire_int result, rest', io')) r))
     else if ty = io_del_t then
       c_bind (srv_del env io key) (\<lambda>r.
         Ret (map_option (\<lambda>(result, io'). (wire_int result, rest, io')) r))
     else Ret (Some (wire_int 0, rest, io)))"
  using package_parts [of ty created key vt vl] cstring_key_field [OF assms]
  by (simp add: worker_turn_def Let_def)

lemma unix_get_value:
  assumes "value_ok v" "in_i64 d"
  shows "unix_get True (wire_i64 d @ value_bytes v @ wire_int 0) = (Inr (v, d), [])"
  using assms value_head_bytes [of v "wire_int 0"] drop_value_bytes [of v "wire_int 0"]
  by (simp add: unix_get_def Let_def io_end_ok value_ok_def)

lemma unix_get_error:
  assumes "wire_errno e"
  shows "unix_get True (wire_i64 0 @ [0, 0, 0, 0, 0] @ wire_int (errno_code e)) = (Inl e, [])"
  using io_end_error [OF assms] by (simp add: unix_get_def Let_def value_head_def)

lemma result_end: "(\<And>e. r = Some e \<Longrightarrow> wire_errno e) \<Longrightarrow> io_end (wire_int (result_code r)) = (r, [])"
  by (cases r) (auto simp: result_code_def io_end_ok io_end_error)

lemma srv_set_value:
  assumes "value_ok v"
  shows "srv_set env True io key (vtype v) (vlength v) (vdata v @ rest) =
    c_bind (io_set env io key v) (\<lambda>r. Ret (map_option (\<lambda>(r, io'). (result_code r, rest, io')) r))"
proof -
  have len: "unat (vlength v) = length (vdata v)" using assms by (simp add: value_ok_def)
  have v: "\<lparr>vtype = vtype v, vlength = vlength v, vdata = vdata v\<rparr> = v" by simp
  have "take (unat (vlength v)) (vdata v @ rest) = vdata v" "drop (unat (vlength v)) (vdata v @ rest) = rest"
    by (simp_all add: len)
  then show ?thesis by (simp add: srv_set_def cred_check_def len del: value_t.surjective) (simp only: v)
qed

section \<open>Requests as a client sends them\<close>

datatype request = Req_get string | Req_set string value_t | Req_del string

fun request_bytes :: "timestamp \<Rightarrow> request \<Rightarrow> byte list" where
  "request_bytes created (Req_get key) = io_begin io_get_t created key None"
| "request_bytes created (Req_set key v) = io_begin io_set_t created key (Some v)"
| "request_bytes created (Req_del key) = io_begin io_del_t created key None"

fun request_ok :: "request \<Rightarrow> bool" where
  "request_ok (Req_get key) = (no_nul key \<and> length key < 255)"
| "request_ok (Req_set key v) = (no_nul key \<and> length key < 255 \<and> value_ok v)"
| "request_ok (Req_del key) = (no_nul key \<and> length key < 255)"

text \<open>The answer of the daemon to one request, and to a sequence of them.\<close>

fun answer :: "io_env \<Rightarrow> 'w io_ctx \<Rightarrow> request \<Rightarrow> (byte list \<times> 'w io_ctx) option c_out" where
  "answer env io (Req_get key) = c_bind (io_get env io key) (\<lambda>r.
     Ret (map_option (\<lambda>(r, io').
       case r of
         Inl e \<Rightarrow> (wire_i64 0 @ [0, 0, 0, 0, 0] @ wire_int (errno_code e), io')
       | Inr (v, d) \<Rightarrow> (wire_i64 d @ value_bytes v @ wire_int 0, io')) r))"
| "answer env io (Req_set key v) = c_bind (io_set env io key v) (\<lambda>r.
     Ret (map_option (\<lambda>(r, io'). (wire_int (result_code r), io')) r))"
| "answer env io (Req_del key) = c_bind (io_del env io key) (\<lambda>r.
     Ret (map_option (\<lambda>(r, io'). (wire_int (result_code r), io')) r))"

fun answers :: "io_env list \<Rightarrow> 'w io_ctx \<Rightarrow> request list \<Rightarrow> (byte list \<times> 'w io_ctx) option c_out" where
  "answers (env # envs) io (r # rs) =
     c_bind (answer env io r) (\<lambda>a.
       case a of
         None \<Rightarrow> Ret None
       | Some (out, io') \<Rightarrow>
           c_bind (answers envs io' rs) (\<lambda>a'. Ret (map_option (\<lambda>(out', io''). (out @ out', io'')) a')))"
| "answers envs io rs = Ret (Some ([], io))"

lemma worker_turn_answer:
  assumes "request_ok r"
  shows "worker_turn env True stack io (request_bytes created r @ rest) =
    c_bind (answer env io r) (\<lambda>a. Ret (map_option (\<lambda>(out, io'). (out, rest, io')) a))"
proof (cases r)
  case (Req_get key)
  with assms have k: "no_nul key" "length key < 255" by simp_all
  show ?thesis
    by (cases "io_get env io key")
      (auto simp: Req_get io_begin_def worker_turn_package [OF k] srv_get_def cred_check_def
        map_option_case split: option.splits sum.splits prod.splits)
next
  case (Req_set key v)
  with assms have k: "no_nul key" "length key < 255" and v: "value_ok v" by simp_all
  show ?thesis
    by (cases "io_set env io key v")
      (auto simp: Req_set io_begin_def worker_turn_package [OF k] srv_set_value [OF v]
        map_option_case split: option.splits prod.splits)
next
  case (Req_del key)
  with assms have k: "no_nul key" "length key < 255" by simp_all
  show ?thesis
    by (cases "io_del env io key")
      (auto simp: Req_del io_begin_def worker_turn_package [OF k] srv_del_def cred_check_def
        map_option_case split: option.splits prod.splits)
qed

section \<open>Properties\<close>

abbreviation bare_io :: "nat io_ctx" where
  "bare_io \<equiv> \<lparr>nmtx_ns = Null, iocache = None, ioroute = [], ioworld = 0\<rparr>"

abbreviation bare_env :: io_env where
  "bare_env \<equiv> \<lparr>e_thread = 1, e_now = 5, e_get_mem = True, e_lock_mem = mem_ok, e_lock_addr = 9,
     e_set_mem = mem_ok, e_now1 = 5, e_now2 = 5\<rparr>"

lemma bare_io_requests:
  "io_get bare_env bare_io ''k'' = Ret (Some (Inl ENOENT, bare_io))"
  "io_set bare_env bare_io ''k'' v = Ret (Some (Some ENOENT, bare_io))"
  "io_del bare_env bare_io ''k'' = Ret (Some (Some ENOENT, bare_io))"
proof -
  have ok: "io_ok bare_io" using nt.inv_empty by (simp add: io_ok_def route_ok_def)
  have none: "List.find (serves ''k'') (ioroute bare_io) = None" by simp
  show "io_get bare_env bare_io ''k'' = Ret (Some (Inl ENOENT, bare_io))"
    "io_set bare_env bare_io ''k'' v = Ret (Some (Some ENOENT, bare_io))"
    "io_del bare_env bare_io ''k'' = Ret (Some (Some ENOENT, bare_io))"
    using io_routed_none [OF ok none] by (simp_all add: io_get_def io_set_def io_del_def)
qed


text \<open>
  A get through a connection is a get on the daemon at its other end. For a key shorter than
  255 characters the value and the duration, or the error number, that \<^verbatim>\<open>io_get\<close> gives there arrive
  unchanged, the daemon's state is what \<^verbatim>\<open>io_get\<close> leaves, and no byte of the request or of the answer
  is left over, so that a shared connection stays in step.
\<close>

theorem remote_get_correct:
  assumes "no_nul key" "length key < 255" "io_get env io key = Ret (Some (r, io'))"
    and "case r of Inl e \<Rightarrow> wire_errno e | Inr (v, d) \<Rightarrow> value_ok v \<and> in_i64 d"
  shows "remote_get None env True stack created io key = Ret (Some (r, [], [], io'))"
proof -
  note turn = worker_turn_package [OF assms(1,2), of env True stack io io_get_t created value_undef 0 "[]"]
  show ?thesis
  proof (cases r)
    case (Inl e)
    with assms(3,4) unix_get_error [of e] turn show ?thesis
      by (simp add: remote_get_def io_begin_def srv_get_def cred_check_def)
  next
    case (Inr vd)
    obtain v d where "vd = (v, d)" by (cases vd)
    with Inr assms(3,4) unix_get_value [of v d] turn show ?thesis
      by (simp add: remote_get_def io_begin_def srv_get_def cred_check_def)
  qed
qed

theorem remote_get_correct_witness:
  "remote_get None bare_env True [] 0 bare_io ''k'' = Ret (Some (Inl ENOENT, [], [], bare_io))"
  by (rule remote_get_correct [OF _ _ bare_io_requests(1)]) (simp_all add: no_nul_def wire_errno_named)

text \<open>
  The same for a set and a del: the value arrives at the other daemon as it is, the result of
  \<^verbatim>\<open>io_set\<close> or \<^verbatim>\<open>io_del\<close> there comes back, and the connection stays in step; also when the daemon has no
  memory for the value, in which case it discards it and answers \<open>ENOMEM\<close>.
\<close>

theorem remote_set_del_correct:
  assumes "no_nul key" "length key < 255" "value_ok v"
    and "io_set env io key v = Ret (Some (r, io'))" "io_del env io key = Ret (Some (r2, io2))"
    and "\<And>e. r = Some e \<or> r2 = Some e \<Longrightarrow> wire_errno e"
  shows "remote_set None env True stack created io key v = Ret (Some (r, [], [], io')) \<and>
    remote_set None env False stack created io key v = Ret (Some (Some ENOMEM, [], [], io)) \<and>
    remote_del None env stack created io key = Ret (Some (r2, [], [], io2))"
proof -
  note turn = worker_turn_package [OF assms(1,2)]
  have "remote_set None env True stack created io key v = Ret (Some (r, [], [], io'))"
    using srv_set_value [OF assms(3), of env io key "[]"] assms(4) result_end [of r] assms(6)
    by (simp add: remote_set_def io_begin_def turn)
  moreover have "remote_set None env False stack created io key v = Ret (Some (Some ENOMEM, [], [], io))"
    using io_end_error [OF wire_errno_named(3)]
    by (simp add: remote_set_def io_begin_def turn srv_set_def)
  moreover have "remote_del None env stack created io key = Ret (Some (r2, [], [], io2))"
    using assms(5) result_end [of r2] assms(6) turn [of env True stack io io_del_t created value_undef 0 "[]"]
    by (simp add: remote_del_def io_begin_def srv_del_def cred_check_def)
  ultimately show ?thesis by blast
qed

theorem remote_set_del_correct_witness:
  "remote_set None bare_env True [] 0 bare_io ''k'' \<lparr>vtype = 1, vlength = 1, vdata = [7]\<rparr> =
     Ret (Some (Some ENOENT, [], [], bare_io))"
  using remote_set_del_correct [OF _ _ _ bare_io_requests(2,3), of "\<lparr>vtype = 1, vlength = 1, vdata = [7]\<rparr>" "[]" 0]
  by (auto simp: no_nul_def wire_errno_named value_ok_def)

text \<open>
  A connection served to its end. Any sequence of gets, sets and dels with short keys and well
  formed values, sent one after the other without waiting, is cut into its requests again: the worker
  takes one turn per request and sends, in their order, the answers of \<^verbatim>\<open>io_get\<close>, \<^verbatim>\<open>io_set\<close> and
  \<^verbatim>\<open>io_del\<close> on the states they meet one after the other.
\<close>

theorem worker_serves:
  fixes io :: "'w io_ctx"
  assumes "\<And>r. r \<in> set rs \<Longrightarrow> request_ok r" "length envs = length rs"
  shows "worker envs True stack io (concat (map (request_bytes created) rs)) = answers envs io rs"
  using assms
proof (induction rs arbitrary: envs io)
  case (Cons r rs)
  obtain env envs' where envs: "envs = env # envs'" "length envs' = length rs"
    using Cons.prems(2) by (cases envs) auto
  have ne: "request_bytes created r \<noteq> []" by (cases r) (auto simp: io_begin_def io_package_def)
  have IH: "worker envs' True stack io (concat (map (request_bytes created) rs)) = answers envs' io rs" for io :: "'w io_ctx"
    by (rule Cons.IH [OF _ envs(2)]) (simp add: Cons.prems(1))
  have "worker_turn env True stack io (request_bytes created r @ concat (map (request_bytes created) rs)) =
      c_bind (answer env io r) (\<lambda>a.
        Ret (map_option (\<lambda>(out, io'). (out, concat (map (request_bytes created) rs), io')) a))"
    by (rule worker_turn_answer) (simp add: Cons.prems(1))
  with ne show ?case
    by (cases "answer env io r") (auto simp: envs(1) IH split: option.splits)
qed simp

theorem worker_serves_witness:
  "worker [bare_env, bare_env] True [] bare_io
     (concat (map (request_bytes 0) [Req_set ''k'' \<lparr>vtype = 1, vlength = 1, vdata = [7]\<rparr>, Req_del ''k''])) =
   Ret (Some (wire_int (errno_code ENOENT) @ wire_int (errno_code ENOENT), bare_io))"
proof -
  have "worker [bare_env, bare_env] True [] bare_io
     (concat (map (request_bytes 0) [Req_set ''k'' \<lparr>vtype = 1, vlength = 1, vdata = [7]\<rparr>, Req_del ''k''])) =
     answers [bare_env, bare_env] bare_io [Req_set ''k'' \<lparr>vtype = 1, vlength = 1, vdata = [7]\<rparr>, Req_del ''k'']"
    by (rule worker_serves) (auto simp: no_nul_def value_ok_def)
  also have "\<dots> = Ret (Some (wire_int (errno_code ENOENT) @ wire_int (errno_code ENOENT), bare_io))"
    by (simp add: bare_io_requests [simplified] result_code_def del: c_bind_Ret)
  finally show ?thesis .
qed

end
