(* ===== verification/Ctrl.thy ===== *)
theory Ctrl
  imports Io_Protocol
begin

text \<open>
  The control protocol, \<^verbatim>\<open>lib/ctrl_server.c\<close> and \<^verbatim>\<open>lib/ctrl_client.c\<close>: datagrams by which daemons
  register themselves as storages of each other. A package is a fixed part of 264 bytes (type, name,
  two counts) and, for a registration, fields of 255 bytes: the keys to cache at once, then the prefix
  patterns.
\<close>

section \<open>Packages\<close>

abbreviation ctrl_register_child_t :: byte where "ctrl_register_child_t \<equiv> 0"
abbreviation ctrl_register_parent_t :: byte where "ctrl_register_parent_t \<equiv> 1"
abbreviation ctrl_unregister_child_t :: byte where "ctrl_unregister_child_t \<equiv> 2"
abbreviation ctrl_unregister_parent_t :: byte where "ctrl_unregister_parent_t \<equiv> 3"
abbreviation ctrl_dump_db_route_t :: byte where "ctrl_dump_db_route_t \<equiv> 4"
abbreviation ctrl_dump_db_cache_t :: byte where "ctrl_dump_db_cache_t \<equiv> 5"

abbreviation CTRL_SIZE :: nat where "CTRL_SIZE \<equiv> 264"

definition ctrl_package_child :: "string \<Rightarrow> string list \<Rightarrow> string list \<Rightarrow> byte list" where
  "ctrl_package_child name cache_now prefixes =
     ctrl_register_child_t # key_field name @ le_bytes 4 (length cache_now) @ le_bytes 4 (length prefixes) @
     concat (map key_field (cache_now @ prefixes))"

text \<open>A package with a name only; \<open>junk\<close> are the eight bytes of it that are never written.\<close>

definition ctrl_package_name :: "byte \<Rightarrow> byte list \<Rightarrow> string \<Rightarrow> byte list" where
  "ctrl_package_name ty junk name = ty # key_field name @ junk"

section \<open>The client\<close>

text \<open>
  How far a request comes: no socket, no address for it, no memory for the package, a package that is not
  sent, or the datagram that comes back. \<open>send server package w\<close> is this outcome, with what the server
  did to the world.
\<close>

datatype ctrl_sent = No_socket errno | No_bind errno | No_package | Unsent | Reply "byte list"

type_synonym 'w ctrl_peer = "string \<Rightarrow> byte list \<Rightarrow> 'w \<Rightarrow> ctrl_sent \<times> 'w"

text \<open>
  One exchange: \<^verbatim>\<open>ctrl_init\<close>, \<^verbatim>\<open>ctrl_update\<close>, and \<^verbatim>\<open>ctrl_final0\<close> if the package was sent. The second result is the
  number of sockets left open: only \<^verbatim>\<open>ctrl_final0\<close>, and \<^verbatim>\<open>ctrl_init\<close> when it cannot bind, close the one that
  was made. \<^verbatim>\<open>ctrl_final0\<close> looks at the type of the package after \<^verbatim>\<open>ctrl_update\<close> has freed it; \<open>freed\<close> is the byte
  it finds there. If that is the type of a dump, it reads a length and writes it where no place was given:
  its \<^verbatim>\<open>assert\<close> fails, and without assertions it writes to NULL.
\<close>

definition ctrl_exchange :: "'w ctrl_peer \<Rightarrow> byte \<Rightarrow> string \<Rightarrow> byte list \<Rightarrow> 'w \<Rightarrow> (errno option \<times> nat \<times> 'w) c_out" where
  "ctrl_exchange send freed server pkg w =
     (case send server pkg w of
        (No_socket e, w') \<Rightarrow> Ret (Some e, 0, w')
      | (No_bind e, w') \<Rightarrow> Ret (Some e, 0, w')
      | (No_package, w') \<Rightarrow> Ret (Some ENOMEM, 1, w')
      | (Unsent, w') \<Rightarrow> Ret (Some EIO, 1, w')
      | (Reply reply, w') \<Rightarrow>
          if freed = ctrl_dump_db_route_t \<or> freed = ctrl_dump_db_cache_t then UB
          else Ret (fst (io_end reply), 0, w'))"

text \<open>The size of the fields is computed in 32 bits; a size that wraps makes the buffer too small.\<close>

definition ctrl_register_child ::
  "'w ctrl_peer \<Rightarrow> byte \<Rightarrow> string \<Rightarrow> string \<Rightarrow> string list \<Rightarrow> string list \<Rightarrow> 'w \<Rightarrow> (errno option \<times> nat \<times> 'w) c_out" where
  "ctrl_register_child send freed server name cache_now prefixes w =
     (if 2 ^ 32 \<le> (length prefixes + length cache_now) * NAME_MAX then UB
      else ctrl_exchange send freed server (ctrl_package_child name cache_now prefixes) w)"

definition ctrl_generic0 ::
  "'w ctrl_peer \<Rightarrow> byte \<Rightarrow> byte list \<Rightarrow> string \<Rightarrow> byte \<Rightarrow> string \<Rightarrow> 'w \<Rightarrow> (errno option \<times> nat \<times> 'w) c_out" where
  "ctrl_generic0 send freed junk server ty name w = ctrl_exchange send freed server (ctrl_package_name ty junk name) w"

definition ctrl_register_parent ::
  "'w ctrl_peer \<Rightarrow> byte \<Rightarrow> byte list \<Rightarrow> string \<Rightarrow> string \<Rightarrow> 'w \<Rightarrow> (errno option \<times> nat \<times> 'w) c_out" where
  "ctrl_register_parent send freed junk server name w = ctrl_generic0 send freed junk server ctrl_register_parent_t name w"

definition ctrl_unregister_child ::
  "'w ctrl_peer \<Rightarrow> byte \<Rightarrow> byte list \<Rightarrow> string \<Rightarrow> string \<Rightarrow> 'w \<Rightarrow> (errno option \<times> nat \<times> 'w) c_out" where
  "ctrl_unregister_child send freed junk server name w = ctrl_generic0 send freed junk server ctrl_unregister_child_t name w"

definition ctrl_unregister_parent ::
  "'w ctrl_peer \<Rightarrow> byte \<Rightarrow> byte list \<Rightarrow> string \<Rightarrow> string \<Rightarrow> 'w \<Rightarrow> (errno option \<times> nat \<times> 'w) c_out" where
  "ctrl_unregister_parent send freed junk server name w = ctrl_generic0 send freed junk server ctrl_unregister_parent_t name w"

section \<open>The server\<close>

text \<open>
  What handling a registration reads from its environment: one \<open>io_env\<close> for each key to cache, the
  outcomes of its allocations, the address of the route item, the memory the storage's requests find,
  the time stamp they carry.
\<close>

record ctrl_env =
  c_envs :: "io_env list"
  c_umem :: alloc
  c_cmem :: bool
  c_created :: timestamp
  c_calloc :: bool
  c_rmem :: alloc
  c_addr :: nat

text \<open>
  \<^verbatim>\<open>recvfrom\<close> into a buffer for \<open>num_prefix_max\<close> fields: a longer datagram is cut, behind a shorter one
  the buffer holds what \<^verbatim>\<open>malloc\<close> left there (\<open>heap\<close>).
\<close>

definition recv_package :: "nat \<Rightarrow> byte list \<Rightarrow> byte list \<Rightarrow> byte list" where
  "recv_package num_prefix_max heap dgram =
     take (CTRL_SIZE + num_prefix_max * NAME_MAX) (dgram @ drop (length dgram) heap)"

text \<open>Field \<open>i\<close> as a string: read to its NUL, past the field if it has none, \<open>UB\<close> past the buffer.\<close>

definition field_at :: "byte list \<Rightarrow> nat \<Rightarrow> string c_out" where
  "field_at pkg i = cstring_at (drop (CTRL_SIZE + NAME_MAX * i) pkg)"

fun update_keys ::
  "io_env list \<Rightarrow> 'w storage_ctx \<Rightarrow> string c_out list \<Rightarrow> 'w io_ctx \<Rightarrow> (errno option \<times> 'w io_ctx) option c_out" where
  "update_keys envs st [] io = Ret (Some (None, io))"
| "update_keys [] st (k # ks) io = Ret None"
| "update_keys (env # envs) st (k # ks) io =
     c_bind (if iocache io = None then Ret [] else k) (\<lambda>key. \<comment> \<open>without a cache the key is not looked at\<close>
       c_bind (io_update env io key st) (\<lambda>r.
         case r of
           None \<Rightarrow> Ret None
         | Some (Some e, io') \<Rightarrow> Ret (Some (Some e, io'))
         | Some (None, io') \<Rightarrow> update_keys envs st ks io'))"

fun read_all :: "'a c_out list \<Rightarrow> 'a list c_out" where
  "read_all [] = Ret []"
| "read_all (x # xs) = c_bind x (\<lambda>a. c_bind (read_all xs) (\<lambda>as. Ret (a # as)))"

text \<open>
  The part of \<^verbatim>\<open>register_child\<close> after the storage is made: the keys, then the route. The storage is
  destroyed when something failed. The patterns are read when the route item copies them.
\<close>

definition register_storage ::
  "ctrl_env \<Rightarrow> 'w io_ctx \<Rightarrow> 'w storage_ctx \<Rightarrow> string c_out list \<Rightarrow> string c_out list \<Rightarrow>
   (errno option \<times> 'w io_ctx) option c_out" where
  "register_storage ce io st cache_now prefixes =
     c_bind (update_keys (c_envs ce) st cache_now io) (\<lambda>r.
       case r of
         None \<Rightarrow> Ret None
       | Some (Some e, io) \<Rightarrow> Ret (Some (Some e, io\<lparr>ioworld := storage_destructor st (ioworld io)\<rparr>))
       | Some (None, io) \<Rightarrow>
           if prefixes = [] then Ret (Some (None, io))
           else if \<not> c_calloc ce then Ret (Some (Some ENOMEM, io\<lparr>ioworld := storage_destructor st (ioworld io)\<rparr>))
           else
             c_bind (if sname st \<in> rname ` set (ioroute io) \<or> \<not> c_rmem ce 0 then Ret [] else read_all prefixes) (\<lambda>ps.
               c_bind (route_register (c_rmem ce) (c_addr ce) (ioroute io) st (length prefixes) (Some (map Some ps))) (\<lambda>(r, route').
                 case r of
                   Some e \<Rightarrow> Ret (Some (Some e, io\<lparr>ioworld := storage_destructor st (ioworld io)\<rparr>))
                 | None \<Rightarrow> Ret (Some (None, io\<lparr>ioroute := route'\<rparr>)))))"

definition register_child ::
  "'w unix_peer \<Rightarrow> ctrl_env \<Rightarrow> 'w io_ctx \<Rightarrow> byte list \<Rightarrow> (errno option \<times> 'w io_ctx) option c_out" where
  "register_child ask ce io pkg =
     (let nc = le_nat (take 4 (drop 256 pkg)); np = le_nat (take 4 (drop 260 pkg))
      in if nc = 0 \<and> np = 0 then Ret (Some (Some EINVAL, io))
         else c_bind (cstring_at (drop 1 pkg)) (\<lambda>name.
           case constructor_unix ask (c_cmem ce) (c_created ce) (c_umem ce) None name False of
             Inl e \<Rightarrow> Ret (Some (Some e, io))
           | Inr st \<Rightarrow>
               register_storage ce io st (map (field_at pkg) [0..<nc])
                 (map (\<lambda>i. field_at pkg ((nc + i) mod 2 ^ 32)) [0..<np])))"

definition unregister_child :: "'w io_ctx \<Rightarrow> string \<Rightarrow> errno option \<times> 'w io_ctx" where
  "unregister_child io name =
     (case route_unregister (ioroute io) (if name = [] then None else Some name) (ioworld io) of
        (r, route', w') \<Rightarrow> (r, io\<lparr>ioroute := route', ioworld := w'\<rparr>))"

text \<open>The dumps are not written yet: they return -1.\<close>

definition dump_db :: "errno option" where
  "dump_db = Some (Eother (- 1))"

text \<open>
  The worker for one package, in a daemon called \<open>self\<close> with the keys and patterns it offers to its
  parents: the answer, \<open>None\<close> if it sends none, the sockets its own requests left open, and the new state.
\<close>

definition answer_with :: "nat \<Rightarrow> (errno option \<times> 'w io_ctx) \<Rightarrow> (byte list option \<times> nat \<times> 'w io_ctx) option c_out" where
  "answer_with kept = (\<lambda>(r, io). Ret (Some (Some (wire_int (result_code r)), kept, io)))"

text \<open>The assertion that the answer could be sent, which fails when the client is gone, is not part of the model.\<close>

definition ctrl_worker ::
  "'w unix_peer \<Rightarrow> 'w ctrl_peer \<Rightarrow> byte \<Rightarrow> byte list \<Rightarrow> ctrl_env \<Rightarrow> string \<Rightarrow> string list \<Rightarrow> string list \<Rightarrow>
   'w io_ctx \<Rightarrow> byte list \<Rightarrow> (byte list option \<times> nat \<times> 'w io_ctx) option c_out" where
  "ctrl_worker ask send freed junk ce self cache_now prefixes io pkg =
     (let ty = hd pkg
      in if ty = ctrl_register_child_t then
           c_bind (register_child ask ce io pkg) (\<lambda>r. case r of None \<Rightarrow> Ret None | Some a \<Rightarrow> answer_with 0 a)
         else if ty = ctrl_register_parent_t then
           c_bind (cstring_at (drop 1 pkg)) (\<lambda>parent.
             c_bind (ctrl_register_child send freed parent self cache_now prefixes (ioworld io)) (\<lambda>(r, kept, w').
               answer_with kept (r, io\<lparr>ioworld := w'\<rparr>)))
         else if ty = ctrl_unregister_child_t then
           c_bind (cstring_at (drop 1 pkg)) (\<lambda>name. answer_with 0 (unregister_child io name))
         else if ty = ctrl_unregister_parent_t then
           c_bind (cstring_at (drop 1 pkg)) (\<lambda>parent.
             c_bind (ctrl_unregister_child send freed junk parent self (ioworld io)) (\<lambda>(r, kept, w').
               answer_with kept (r, io\<lparr>ioworld := w'\<rparr>)))
         else if ty = ctrl_dump_db_route_t \<or> ty = ctrl_dump_db_cache_t then answer_with 0 (dump_db, io)
         else Ret (Some (None, 0, io)))"

section \<open>Lemmas\<close>

abbreviation field_ok :: "string \<Rightarrow> bool" where
  "field_ok s \<equiv> no_nul s \<and> length s < NAME_MAX"

lemma length_fields [simp]: "length (concat (map key_field xs)) = NAME_MAX * length xs"
  by (induction xs) auto

lemma drop_fields: "i \<le> length xs \<Longrightarrow> drop (NAME_MAX * i) (concat (map key_field xs)) = concat (map key_field (drop i xs))"
proof (induction xs arbitrary: i)
  case (Cons x xs)
  then show ?case by (cases i) (auto simp: drop_append)
qed simp

lemma field_at_fields:
  assumes "length hdr = CTRL_SIZE" "i < length xs" "field_ok (xs ! i)"
  shows "field_at (hdr @ concat (map key_field xs) @ rest) i = Ret (xs ! i)"
proof -
  have "drop (CTRL_SIZE + NAME_MAX * i) (hdr @ concat (map key_field xs) @ rest) =
      drop (NAME_MAX * i) (concat (map key_field xs)) @ rest"
    using assms(1,2) by simp
  also have "drop (NAME_MAX * i) (concat (map key_field xs)) = key_field (xs ! i) @ concat (map key_field (drop (Suc i) xs))"
    using drop_fields [of i xs] assms(2) by (simp add: Cons_nth_drop_Suc [OF assms(2), symmetric])
  finally show ?thesis
    using cstring_key_field [of "xs ! i" "concat (map key_field (drop (Suc i) xs)) @ rest"] assms(3)
    by (simp add: field_at_def)
qed

lemma recv_package_short:
  "length dgram \<le> CTRL_SIZE + n * NAME_MAX \<Longrightarrow> \<exists>rest. recv_package n heap dgram = dgram @ rest"
  by (simp add: recv_package_def)

lemma length_recv_package: "length (recv_package n heap dgram) \<le> CTRL_SIZE + n * NAME_MAX"
  by (simp add: recv_package_def)

text \<open>What the server finds in the fixed part of a registration, whatever was cut off behind it.\<close>

lemma child_header:
  assumes "field_ok name" "length cache_now < 2 ^ 32" "length prefixes < 2 ^ 32"
    and "take CTRL_SIZE pkg = take CTRL_SIZE (ctrl_package_child name cache_now prefixes)"
  shows "hd pkg = ctrl_register_child_t" "le_nat (take 4 (drop 256 pkg)) = length cache_now"
    "le_nat (take 4 (drop 260 pkg)) = length prefixes" "cstring_at (drop 1 pkg) = Ret name"
proof -
  define hdr where "hdr = ctrl_register_child_t # key_field name @ le_bytes 4 (length cache_now) @ le_bytes 4 (length prefixes)"
  have "take CTRL_SIZE (ctrl_package_child name cache_now prefixes) = hdr"
    by (simp add: ctrl_package_child_def hdr_def)
  then have pkg: "pkg = hdr @ drop CTRL_SIZE pkg" using assms(4) by (metis append_take_drop_id)
  obtain rest where rest: "pkg = ctrl_register_child_t # key_field name @ le_bytes 4 (length cache_now) @ le_bytes 4 (length prefixes) @ rest"
    using pkg by (simp add: hdr_def)
  show "hd pkg = ctrl_register_child_t" by (simp add: rest)
  have d: "drop 256 pkg = le_bytes 4 (length cache_now) @ le_bytes 4 (length prefixes) @ rest" by (simp add: rest)
  then show "le_nat (take 4 (drop 256 pkg)) = length cache_now" using assms(2) by simp
  have "drop 260 pkg = drop 4 (drop 256 pkg)" by simp
  also have "\<dots> = le_bytes 4 (length prefixes) @ rest" unfolding d by simp
  finally show "le_nat (take 4 (drop 260 pkg)) = length prefixes" using assms(3) by simp
  show "cstring_at (drop 1 pkg) = Ret name"
    using cstring_key_field [of name] assms(1) by (simp add: rest)
qed

lemma name_header:
  assumes "field_ok name" "length junk = 8"
  shows "hd (recv_package n heap (ctrl_package_name ty junk name)) = ty"
    "cstring_at (drop 1 (recv_package n heap (ctrl_package_name ty junk name))) = Ret name"
proof -
  obtain rest where "recv_package n heap (ctrl_package_name ty junk name) = ctrl_package_name ty junk name @ rest"
    using recv_package_short [of "ctrl_package_name ty junk name" n heap] assms(2) by (auto simp: ctrl_package_name_def)
  then show "hd (recv_package n heap (ctrl_package_name ty junk name)) = ty"
    "cstring_at (drop 1 (recv_package n heap (ctrl_package_name ty junk name))) = Ret name"
    using cstring_key_field [of name] assms(1) by (simp_all add: ctrl_package_name_def)
qed

lemma read_all_Ret [simp]: "read_all (map Ret xs) = Ret xs"
  by (induction xs) auto

lemma read_all_UB: "UB \<in> set xs \<Longrightarrow> read_all xs = UB"
proof (induction xs)
  case (Cons x xs)
  then show ?case by (cases x) auto
qed simp

text \<open>The fields of a registration that arrived whole are the strings that were sent.\<close>

lemma register_child_package:
  assumes "field_ok name" "\<forall>s \<in> set (cache_now @ prefixes). field_ok s"
    and "length (cache_now @ prefixes) \<le> n" "n * NAME_MAX < 2 ^ 32"
  shows "register_child ask ce io (recv_package n heap (ctrl_package_child name cache_now prefixes)) =
    (if cache_now = [] \<and> prefixes = [] then Ret (Some (Some EINVAL, io))
     else case constructor_unix ask (c_cmem ce) (c_created ce) (c_umem ce) None name False of
         Inl e \<Rightarrow> Ret (Some (Some e, io))
       | Inr st \<Rightarrow> register_storage ce io st (map Ret cache_now) (map Ret prefixes))"
proof -
  let ?xs = "cache_now @ prefixes" and ?nc = "length cache_now"
  define hdr where "hdr = ctrl_register_child_t # key_field name @ le_bytes 4 ?nc @ le_bytes 4 (length prefixes)"
  have dgram: "ctrl_package_child name cache_now prefixes = hdr @ concat (map key_field ?xs)"
    by (simp add: ctrl_package_child_def hdr_def)
  have hdr: "length hdr = CTRL_SIZE" by (simp add: hdr_def)
  have small: "?nc + length prefixes < 2 ^ 32" using assms(3,4) by simp
  have "length (ctrl_package_child name cache_now prefixes) = CTRL_SIZE + NAME_MAX * length ?xs"
    unfolding dgram length_append length_fields hdr ..
  also have "\<dots> \<le> CTRL_SIZE + n * NAME_MAX" using assms(3) by simp
  finally obtain rest where rest: "recv_package n heap (ctrl_package_child name cache_now prefixes) =
      hdr @ concat (map key_field ?xs) @ rest"
    using recv_package_short [of "ctrl_package_child name cache_now prefixes" n heap] unfolding dgram by auto
  define pkg where "pkg = hdr @ concat (map key_field ?xs) @ rest"
  have "take CTRL_SIZE pkg = take CTRL_SIZE (ctrl_package_child name cache_now prefixes)"
    by (simp add: pkg_def dgram hdr del: map_append)
  note head = child_header [OF assms(1) _ _ this]
  have field: "field_at pkg i = Ret (?xs ! i)" if "i < length ?xs" for i
    using field_at_fields [OF hdr that] assms(2) nth_mem [OF that] unfolding pkg_def by blast
  have e1: "map (field_at pkg) [0..<?nc] = map Ret cache_now"
    using field by (intro nth_equalityI) (simp_all add: nth_append)
  have e2: "map (\<lambda>i. field_at pkg ((?nc + i) mod 2 ^ 32)) [0..<length prefixes] = map Ret prefixes"
    using field small by (intro nth_equalityI) (simp_all add: nth_append)
  have "length cache_now < 2 ^ 32" "length prefixes < 2 ^ 32" using small by simp_all
  note head = head(2-4) [OF this]
  show ?thesis
    unfolding rest pkg_def [symmetric] register_child_def Let_def head c_bind.simps e1 e2 by simp
qed

lemma arraydup_num:
  "0 < length qs \<Longrightarrow> arraydup_cstring mem_ok (Some (map Some qs)) (length qs) = Ret (Some qs)"
proof -
  have "dup_cells mem_ok i (length qs) (map Some qs) = Ret (Some qs)" for i
    by (induction qs arbitrary: i) auto
  then show "0 < length qs \<Longrightarrow> ?thesis" by (simp add: arraydup_cstring_def)
qed

definition ctrl_env_ok :: "ctrl_env \<Rightarrow> bool" where
  "ctrl_env_ok ce \<longleftrightarrow> c_umem ce = mem_ok \<and> c_calloc ce \<and> c_rmem ce = mem_ok"

abbreviation child_storage :: "'w unix_peer \<Rightarrow> ctrl_env \<Rightarrow> string \<Rightarrow> 'w storage_ctx" where
  "child_storage ask ce name \<equiv> unix_storage ask (c_cmem ce) (c_created ce) name"

lemma constructor_child:
  "constructor_unix ask cm cr mem_ok None name False = Inr (unix_storage ask cm cr name)"
  "sname (unix_storage ask cm cr name) = name"
  "storage_destructor (unix_storage ask cm cr name) w = w"
  by (simp_all add: constructor_unix_def unix_storage_def storage_destructor_def)

lemma register_storage_prefixes:
  assumes "prefixes \<noteq> []" "ctrl_env_ok ce" "sname st = name" "storage_destructor st (ioworld io) = ioworld io"
  shows "register_storage ce io st [] (map Ret prefixes) =
    (if name \<in> rname ` set (ioroute io) then Ret (Some (Some EEXIST, io))
     else Ret (Some (None, io\<lparr>ioroute := \<lparr>addr = c_addr ce, storage = st, prefix = prefixes, nref = 0\<rparr> # ioroute io\<rparr>)))"
proof (cases "name \<in> rname ` set (ioroute io)")
  case True
  then obtain i where "i \<in> set (ioroute io)" "rname i = name" by blast
  with assms True show ?thesis by (auto simp: register_storage_def ctrl_env_ok_def route_register_def)
next
  case False
  then have "\<not> (\<exists>i \<in> set (ioroute io). rname i = name)" by blast
  with assms False arraydup_num [of prefixes] show ?thesis
    by (auto simp: register_storage_def ctrl_env_ok_def route_register_def route_item_create_def)
qed

section \<open>Properties\<close>

abbreviation plain_ce :: ctrl_env where
  "plain_ce \<equiv> \<lparr>c_envs = [], c_umem = mem_ok, c_cmem = True, c_created = 0, c_calloc = True, c_rmem = mem_ok, c_addr = 7\<rparr>"

abbreviation deaf_peer :: "nat unix_peer" where
  "deaf_peer \<equiv> \<lambda>target request w. Ret (Inl ENXIO, w)"

abbreviation deaf_ctrl :: "nat ctrl_peer" where
  "deaf_ctrl \<equiv> \<lambda>server pkg w. (Unsent, w)"

text \<open>
  A registration is understood as it was meant. For a name, keys and patterns shorter than 255
  characters, no more of them than the server has room for, the server finds in the package it
  receives, whatever its buffer held before, exactly the name, the keys and the patterns the client
  was given, and handles those; an empty registration is refused with \<open>EINVAL\<close>.
\<close>

theorem ctrl_register_decoded:
  assumes "field_ok name" "\<And>s. s \<in> set cache_now \<or> s \<in> set prefixes \<Longrightarrow> field_ok s"
    and "length cache_now + length prefixes \<le> n" "n * NAME_MAX < 2 ^ 32"
  shows "register_child ask ce io (recv_package n heap (ctrl_package_child name cache_now prefixes)) =
    (if cache_now = [] \<and> prefixes = [] then Ret (Some (Some EINVAL, io))
     else case constructor_unix ask (c_cmem ce) (c_created ce) (c_umem ce) None name False of
         Inl e \<Rightarrow> Ret (Some (Some e, io))
       | Inr st \<Rightarrow> register_storage ce io st (map Ret cache_now) (map Ret prefixes))"
  by (rule register_child_package) (use assms in auto)

theorem ctrl_register_decoded_witness:
  "register_child deaf_peer plain_ce bare_io (recv_package 1 [] (ctrl_package_child ''c'' [''k''] [])) =
     register_storage plain_ce bare_io (child_storage deaf_peer plain_ce ''c'') [Ret ''k''] []"
  using ctrl_register_decoded [of "''c''" "[''k'']" "[]" 1 deaf_peer plain_ce bare_io "[]"]
    constructor_child(1) [of deaf_peer True 0 "''c''"]
  by (simp add: no_nul_def)

text \<open>
  C34: registering and unregistering a child. The server answers a registration of patterns with
  \<open>EEXIST\<close>, changing nothing, if the name is in use; otherwise with 0, and from then on exactly the keys
  that one of the patterns matches go to the new storage, the others where they went before. While no
  request is using it, unregistering the name is answered with 0 and restores the table.
\<close>

theorem ctrl_register_unregister:
  assumes "field_ok name" "name \<noteq> []" "\<And>s. s \<in> set prefixes \<Longrightarrow> field_ok s" "prefixes \<noteq> []"
    and "length prefixes \<le> n" "n * NAME_MAX < 2 ^ 32" "length junk = 8"
    and "ctrl_env_ok ce" "route_ok (ioroute io)" "c_addr ce \<notin> addr ` set (ioroute io)"
  shows "\<exists>io'. ctrl_worker ask send freed junk ce self cs ps io (recv_package n heap (ctrl_package_child name [] prefixes)) =
      Ret (Some (Some (wire_int (if name \<in> rname ` set (ioroute io) then 17 else 0)), 0, io')) \<and>
    (if name \<in> rname ` set (ioroute io) then io' = io
     else
       (\<forall>key. fst (route_match True (ioroute io') key) =
          (if \<exists>p \<in> set prefixes. prefix_match p key then Inr (c_addr ce) else fst (route_match True (ioroute io) key))) \<and>
       route_ok (ioroute io') \<and>
       ctrl_worker ask send freed junk ce self cs ps io' (recv_package n heap (ctrl_package_name ctrl_unregister_child_t junk name)) =
         Ret (Some (Some (wire_int 0), 0, io)))"
proof -
  let ?pkg = "recv_package n heap (ctrl_package_child name [] prefixes)" and ?st = "child_storage ask ce name"
  have len: "length prefixes < 2 ^ 32" using assms(5,6) by simp
  have "take CTRL_SIZE ?pkg = take CTRL_SIZE (ctrl_package_child name [] prefixes)"
    by (simp add: recv_package_def ctrl_package_child_def)
  note ty = child_header(1) [OF assms(1) _ len this, simplified]
  have reg: "register_child ask ce io ?pkg = register_storage ce io ?st [] (map Ret prefixes)"
    using register_child_package [of name "[]" prefixes n ask ce io heap] assms(1-8)
      constructor_child(1) [of ask "c_cmem ce" "c_created ce" name]
    by (auto simp: ctrl_env_ok_def)
  note put = register_storage_prefixes [OF assms(4,8) constructor_child(2) [of ask "c_cmem ce" "c_created ce" name]
      constructor_child(3) [of ask "c_cmem ce" "c_created ce" name "ioworld io"]]
  show ?thesis
  proof (cases "name \<in> rname ` set (ioroute io)")
    case True
    with put reg show ?thesis by (simp add: ctrl_worker_def ty answer_with_def result_code_def)
  next
    case False
    let ?item = "\<lparr>addr = c_addr ce, storage = ?st, prefix = prefixes, nref = 0\<rparr>"
    let ?io = "io\<lparr>ioroute := ?item # ioroute io\<rparr>"
    have "ctrl_worker ask send freed junk ce self cs ps io ?pkg = Ret (Some (Some (wire_int 0), 0, ?io))"
      using False put reg by (simp add: ctrl_worker_def ty answer_with_def result_code_def)
    moreover have "fst (route_match True (ioroute ?io) key) =
        (if \<exists>p \<in> set prefixes. prefix_match p key then Inr (c_addr ce) else fst (route_match True (ioroute io) key))" for key
      by (simp add: case_prod_beta)
    moreover have ok: "route_ok (ioroute ?io)" using False assms(9,10) constructor_child(2) [of ask "c_cmem ce" "c_created ce" name]
      by (simp add: route_ok_def)
    moreover have "unregister_child ?io name = (None, io)"
      using unregister1_head [of ?item "ioroute io" "ioworld io"] ok assms(2) constructor_child(2,3) [of ask "c_cmem ce" "c_created ce" name]
      by (simp add: unregister_child_def route_unregister_def route_item_destroy_def)
    ultimately show ?thesis
      using False name_header [OF assms(1,7), of n heap ctrl_unregister_child_t]
      by (intro exI [of _ ?io]) (simp add: ctrl_worker_def answer_with_def result_code_def)
  qed
qed

theorem ctrl_register_unregister_witness:
  "\<exists>io'. ctrl_worker deaf_peer deaf_ctrl 0 (replicate 8 0) plain_ce ''p'' [] [] bare_io
      (recv_package 1 [] (ctrl_package_child ''c'' [] [''a.*''])) = Ret (Some (Some (wire_int 0), 0, io')) \<and>
    fst (route_match True (ioroute io') ''a.b'') = Inr 7"
proof -
  have "prefix_match ''a.*'' ''a.b''" by simp
  with ctrl_register_unregister [of "''c''" "[''a.*'']" 1 "replicate 8 0" plain_ce bare_io deaf_peer deaf_ctrl 0 "''p''" "[]" "[]" "[]"]
  show ?thesis by (auto simp: no_nul_def ctrl_env_ok_def route_ok_def)
qed

text \<open>
  C35: a registration with more patterns than the server has room for is not refused: the counts in
  the package are believed, the datagram was cut, and the server reads behind its buffer.
\<close>

theorem ctrl_register_overrun:
  assumes "field_ok name" "n < length prefixes" "length prefixes * NAME_MAX < 2 ^ 32"
    and "ctrl_env_ok ce" "name \<notin> rname ` set (ioroute io)"
  shows "register_child ask ce io (recv_package n heap (ctrl_package_child name [] prefixes)) = UB"
proof -
  define pkg where "pkg = recv_package n heap (ctrl_package_child name [] prefixes)"
  have len: "length prefixes < 2 ^ 32" using assms(3) by simp
  have "take CTRL_SIZE pkg = take CTRL_SIZE (ctrl_package_child name [] prefixes)"
    by (simp add: pkg_def recv_package_def ctrl_package_child_def)
  note head = child_header(2-4) [OF assms(1) _ len this, simplified list.size, OF zero_less_power, OF zero_less_numeral]
  have "length pkg \<le> CTRL_SIZE + n * NAME_MAX" unfolding pkg_def by (rule length_recv_package)
  then have "drop (CTRL_SIZE + NAME_MAX * n) pkg = []" by simp
  then have "field_at pkg n = UB" by (simp only: field_at_def cstring_at_def) simp
  moreover have "(0 + n) mod 2 ^ 32 = n" using assms(2) len by simp
  ultimately have "UB \<in> set (map (\<lambda>i. field_at pkg ((0 + i) mod 2 ^ 32)) [0..<length prefixes])"
    using assms(2) by (metis (no_types, lifting) atLeastLessThan_iff image_eqI set_map set_upt zero_le)
  from read_all_UB [OF this] have read: "read_all (map (\<lambda>i. field_at pkg ((0 + i) mod 2 ^ 32)) [0..<length prefixes]) = UB" .
  have ne: "prefixes \<noteq> []" using assms(2) by auto
  have st: "constructor_unix ask (c_cmem ce) (c_created ce) (c_umem ce) None name False = Inr (child_storage ask ce name)"
    using constructor_child(1) assms(4) by (simp add: ctrl_env_ok_def)
  show ?thesis
    unfolding pkg_def [symmetric] register_child_def Let_def head c_bind.simps st
    using ne assms(4,5) read by (simp add: register_storage_def ctrl_env_ok_def constructor_child(2))
qed

theorem ctrl_register_overrun_witness:
  "register_child deaf_peer plain_ce bare_io (recv_package 1 [] (ctrl_package_child ''c'' [] [''a'', ''b''])) = UB"
  using ctrl_register_overrun [of "''c''" 1 "[''a'', ''b'']" plain_ce bare_io deaf_peer "[]"]
  by (simp add: no_nul_def ctrl_env_ok_def)

text \<open>
  A request that could not be sent, or for which there was no memory, keeps its socket: the functions of the
  client return the error without closing it.
\<close>

theorem ctrl_client_keeps_socket:
  assumes "fst (send server (ctrl_package_name ctrl_unregister_child_t junk name) w) \<in> {No_package, Unsent}"
  shows "\<exists>e w'. ctrl_unregister_child send freed junk server name w = Ret (Some e, 1, w')"
  using assms by (auto simp: ctrl_unregister_child_def ctrl_generic0_def ctrl_exchange_def split: prod.splits)

theorem ctrl_client_keeps_socket_witness: "\<exists>e w'. ctrl_unregister_child deaf_ctrl 0 [] ''s'' ''n'' 0 = Ret (Some e, 1, w')"
  by (rule ctrl_client_keeps_socket) simp

text \<open>
  The client returns the result the server sent, provided the first byte of the package it has
  already freed does not happen to be the type of a dump when it looks at it again; otherwise its
  \<^verbatim>\<open>assert\<close> fails.
\<close>

theorem ctrl_client_result:
  assumes "send server (ctrl_package_name ctrl_register_parent_t junk name) w = (Reply (wire_int (result_code r)), w')"
    and "\<And>e. r = Some e \<Longrightarrow> wire_errno e"
  shows "ctrl_register_parent send freed junk server name w = (if freed \<in> {4, 5} then UB else Ret (r, 0, w'))"
  using assms result_end [of r] by (auto simp: ctrl_register_parent_def ctrl_generic0_def ctrl_exchange_def)

theorem ctrl_client_result_witness:
  "ctrl_register_parent (\<lambda>server pkg w. (Reply (wire_int 0), w)) 4 [] ''s'' ''n'' (0 :: nat) = UB \<and>
   ctrl_register_parent (\<lambda>server pkg w. (Reply (wire_int 0), w)) 0 [] ''s'' ''n'' (0 :: nat) = Ret (None, 0, 0)"
  using ctrl_client_result [of "\<lambda>server pkg w. (Reply (wire_int 0), w)" "''s''" "[]" "''n''" "0 :: nat" None 0 4]
    ctrl_client_result [of "\<lambda>server pkg w. (Reply (wire_int 0), w)" "''s''" "[]" "''n''" "0 :: nat" None 0 0]
  by (simp add: result_code_def)

end
