(* ===== verification/Io_Interleaved.thy ===== *)
theory Io_Interleaved
  imports Io
begin

text \<open>
  Requests of several threads at once. \<^verbatim>\<open>io_get\<close>, \<^verbatim>\<open>io_set\<close> and \<^verbatim>\<open>io_del\<close> of \<^verbatim>\<open>lib/io.c\<close> are cut where
  another thread can come in between. A call on the cache or on the route table holds the lock of its
  component and is one step; a call on a storage is taken to be one step as well, and the named mutex
  is locked and unlocked in the pieces of \<open>Named_Mutex\<close>. The cleaner of the cache is a further thread.
  Storages are not registered or unregistered meanwhile, so that \<^verbatim>\<open>io_update\<close>, which a registration
  calls, is not among the requests.

  The invariants are shown one at a time: the named mutexes (\<open>lock_inv\<close>), the reference counts of the
  route table (\<open>ref_inv\<close>), the storage a request refers to (\<open>rq_inv\<close>), and in \<open>io_backend\<close> the agreement
  of cache and storages. A value in the cache differs from the storage only while the thread that
  changed the storage is about to change the cache (\<open>pending\<close>).
\<close>

section \<open>The pieces of a request\<close>

datatype rq = RGet string | RSet string value_t | RDel string

fun rq_key :: "rq \<Rightarrow> string" where
  "rq_key (RGet k) = k"
| "rq_key (RSet k v) = k"
| "rq_key (RDel k) = k"

datatype rq_res = Got "errno + value_t \<times> timestamp" | Did "errno option"

fun rq_error :: "rq \<Rightarrow> errno \<Rightarrow> rq_res" where
  "rq_error (RGet k) e = Got (Inl e)"
| "rq_error r e = Did (Some e)"

text \<open>The call on the storage.\<close>

fun rq_serve :: "rq \<Rightarrow> 'w storage_ctx \<Rightarrow> 'w \<Rightarrow> (rq_res \<times> 'w) c_out" where
  "rq_serve (RGet k) st w = c_bind (storage_get st w k) (\<lambda>(r, w'). Ret (Got r, w'))"
| "rq_serve (RSet k v) st w = c_bind (storage_set st w k v) (\<lambda>(r, w'). Ret (Did r, w'))"
| "rq_serve (RDel k) st w = c_bind (storage_del st w k) (\<lambda>(r, w'). Ret (Did r, w'))"

text \<open>What the request does to the cache after that, if the storage succeeded.\<close>

fun rq_cache :: "io_env \<Rightarrow> rq \<Rightarrow> rq_res \<Rightarrow> cache option \<Rightarrow> cache option c_out" where
  "rq_cache env (RGet k) (Got (Inr (v, d))) cache = io_cache_set env cache k v d"
| "rq_cache env (RSet k v) (Did None) cache = io_cache_set env cache k v 0"
| "rq_cache env (RDel k) (Did None) cache = Ret (map_option (\<lambda>c. snd (cache_del c k)) cache)"
| "rq_cache env r x cache = Ret cache"

text \<open>Both in turn are the body of the request as it runs alone.\<close>

definition rq_body :: "io_env \<Rightarrow> rq \<Rightarrow> 'w storage_ctx \<Rightarrow> cache option \<Rightarrow> 'w \<Rightarrow> (rq_res \<times> cache option \<times> 'w) c_out" where
  "rq_body env r st cache w =
     c_bind (rq_serve r st w) (\<lambda>(x, w'). c_bind (rq_cache env r x cache) (\<lambda>cache'. Ret (x, cache', w')))"

lemma bodies_rq_body:
  "c_bind (get_body env k st cache w) (\<lambda>(y, c', w'). Ret (Got y, c', w')) = rq_body env (RGet k) st cache w"
  "c_bind (set_body env k v st cache w) (\<lambda>(y, c', w'). Ret (Did y, c', w')) = rq_body env (RSet k v) st cache w"
  "c_bind (del_body k st cache w) (\<lambda>(y, c', w'). Ret (Did y, c', w')) = rq_body env (RDel k) st cache w"
proof -
  show "c_bind (get_body env k st cache w) (\<lambda>(y, c', w'). Ret (Got y, c', w')) = rq_body env (RGet k) st cache w"
    by (cases "storage_get st w k") (auto simp: get_body_def rq_body_def c_bind_assoc split: sum.split)
  show "c_bind (set_body env k v st cache w) (\<lambda>(y, c', w'). Ret (Did y, c', w')) = rq_body env (RSet k v) st cache w"
    by (cases "storage_set st w k v") (auto simp: set_body_def rq_body_def c_bind_assoc split: option.split)
  show "c_bind (del_body k st cache w) (\<lambda>(y, c', w'). Ret (Did y, c', w')) = rq_body env (RDel k) st cache w"
    by (cases "storage_del st w k") (auto simp: del_body_def rq_body_def split: option.split)
qed

section \<open>Threads\<close>

text \<open>
  Where a thread is: at rest; in a request before the cache is looked at; before the route is
  searched; with a reference to the storage at an address; waiting for the key; holding the key; with
  the storage's answer; in its clean-up; with its result.
\<close>

datatype thr =
  Rest | Begun rq | Matching rq | Routed rq nat | Locking rq nat | Locked rq nat | Served rq nat rq_res
| Leaving rq nat rq_res | Ended rq_res

fun thr_ref :: "thr \<Rightarrow> nat option" where
  "thr_ref (Routed r a) = Some a"
| "thr_ref (Locking r a) = Some a"
| "thr_ref (Locked r a) = Some a"
| "thr_ref (Served r a x) = Some a"
| "thr_ref (Leaving r a x) = Some a"
| "thr_ref _ = None"

fun thr_rq :: "thr \<Rightarrow> rq option" where
  "thr_rq Rest = None"
| "thr_rq (Begun r) = Some r"
| "thr_rq (Matching r) = Some r"
| "thr_rq (Routed r a) = Some r"
| "thr_rq (Locking r a) = Some r"
| "thr_rq (Locked r a) = Some r"
| "thr_rq (Served r a x) = Some r"
| "thr_rq (Leaving r a x) = Some r"
| "thr_rq (Ended x) = None"

record 'w conc =
  c_nm :: nm_state
  c_route :: "'w route_list"
  c_cache :: "cache option"
  c_world :: "'w"
  c_thr :: "nat \<Rightarrow> thr"

text \<open>
  The clean-up runs \<^verbatim>\<open>named_mutex_unlock\<close>, if the key was locked, and then \<^verbatim>\<open>route_deref\<close>.
  The rule \<open>cache\<close> is for copies in the cache that find memory; without it \<^verbatim>\<open>cache_set\<close> may be undefined
  (\<open>cache_set_failed_replace\<close> of \<open>Cache\<close>).
\<close>

inductive io_step :: "(rq \<Rightarrow> bool) \<Rightarrow> 'w conc \<Rightarrow> 'w conc \<Rightarrow> bool" for ok_rq :: "rq \<Rightarrow> bool" where
  started: "c_thr s t = Rest \<Longrightarrow> ok_rq r \<Longrightarrow> io_step ok_rq s (s\<lparr>c_thr := (c_thr s)(t := Begun r)\<rparr>)"
| skip: "c_thr s t = Begun r \<Longrightarrow> c_cache s = None \<or> (\<forall>k. r \<noteq> RGet k) \<Longrightarrow>
    io_step ok_rq s (s\<lparr>c_thr := (c_thr s)(t := Matching r)\<rparr>)"
| miss: "c_thr s t = Begun (RGet k) \<Longrightarrow> c_cache s = Some c \<Longrightarrow> cache_get mem now c k = Ret (Inl ENOENT, c') \<Longrightarrow>
    io_step ok_rq s (s\<lparr>c_cache := Some c', c_thr := (c_thr s)(t := Matching (RGet k))\<rparr>)"
| hit: "c_thr s t = Begun (RGet k) \<Longrightarrow> c_cache s = Some c \<Longrightarrow> cache_get mem now c k = Ret (x, c') \<Longrightarrow> x \<noteq> Inl ENOENT \<Longrightarrow>
    io_step ok_rq s (s\<lparr>c_cache := Some c', c_thr := (c_thr s)(t := Ended (Got x))\<rparr>)"
| matched: "c_thr s t = Matching r \<Longrightarrow> route_match True (c_route s) (rq_key r) = (Inr a, route') \<Longrightarrow>
    io_step ok_rq s (s\<lparr>c_route := route', c_thr := (c_thr s)(t := Routed r a)\<rparr>)"
| unmatched: "c_thr s t = Matching r \<Longrightarrow> route_match True (c_route s) (rq_key r) = (Inl e, route') \<Longrightarrow>
    io_step ok_rq s (s\<lparr>c_route := route', c_thr := (c_thr s)(t := Ended (rq_error r e))\<rparr>)"
| enter: "c_thr s t = Routed r a \<Longrightarrow> b \<notin> mid ` set (inorder (ns (c_nm s))) \<Longrightarrow>
    lock_ref mem b (rq_key r) (ns (c_nm s)) = (Inr m, ns') \<Longrightarrow>
    io_step ok_rq s (s\<lparr>c_nm := (c_nm s)\<lparr>ns := ns', pcs := (pcs (c_nm s))(t := Waiting (rq_key r) m)\<rparr>,
      c_thr := (c_thr s)(t := Locking r a)\<rparr>)"
| enter_nomem: "c_thr s t = Routed r a \<Longrightarrow> lock_ref mem b (rq_key r) (ns (c_nm s)) = (Inl e, ns') \<Longrightarrow>
    io_step ok_rq s (s\<lparr>c_nm := (c_nm s)\<lparr>ns := ns'\<rparr>, c_thr := (c_thr s)(t := Leaving r a (rq_error r e))\<rparr>)"
| acquire: "c_thr s t = Locking r a \<Longrightarrow> pcs (c_nm s) t = Waiting k m \<Longrightarrow> mutex_lock t k m (ns (c_nm s)) = Ret (Some ns') \<Longrightarrow>
    io_step ok_rq s (s\<lparr>c_nm := (c_nm s)\<lparr>ns := ns', pcs := (pcs (c_nm s))(t := Holding k m)\<rparr>, c_thr := (c_thr s)(t := Locked r a)\<rparr>)"
| serve: "c_thr s t = Locked r a \<Longrightarrow> storage_at a (c_route s) = Ret st \<Longrightarrow> rq_serve r st (c_world s) = Ret (x, w') \<Longrightarrow>
    io_step ok_rq s (s\<lparr>c_world := w', c_thr := (c_thr s)(t := Served r a x)\<rparr>)"
| cache: "c_thr s t = Served r a x \<Longrightarrow> env_ok env \<Longrightarrow> rq_cache env r x (c_cache s) = Ret cache' \<Longrightarrow>
    io_step ok_rq s (s\<lparr>c_cache := cache', c_thr := (c_thr s)(t := Leaving r a x)\<rparr>)"
| find: "c_thr s t = Leaving r a x \<Longrightarrow> pcs (c_nm s) t = Holding k m \<Longrightarrow> unlock_find k (ns (c_nm s)) = Some m' \<Longrightarrow>
    io_step ok_rq s (s\<lparr>c_nm := (c_nm s)\<lparr>pcs := (pcs (c_nm s))(t := Found k m')\<rparr>\<rparr>)"
| release: "c_thr s t = Leaving r a x \<Longrightarrow> pcs (c_nm s) t = Found k m \<Longrightarrow> mutex_unlock k m (ns (c_nm s)) = Ret ns' \<Longrightarrow>
    io_step ok_rq s (s\<lparr>c_nm := (c_nm s)\<lparr>ns := ns', pcs := (pcs (c_nm s))(t := Released k m)\<rparr>\<rparr>)"
| unlocked: "c_thr s t = Leaving r a x \<Longrightarrow> pcs (c_nm s) t = Released k m \<Longrightarrow> unlock_deref k m (ns (c_nm s)) = Ret ns' \<Longrightarrow>
    io_step ok_rq s (s\<lparr>c_nm := (c_nm s)\<lparr>ns := ns', pcs := (pcs (c_nm s))(t := Idle)\<rparr>\<rparr>)"
| deref: "c_thr s t = Leaving r a x \<Longrightarrow> pcs (c_nm s) t = Idle \<Longrightarrow> route_deref a (c_route s) = Ret route' \<Longrightarrow>
    io_step ok_rq s (s\<lparr>c_route := route', c_thr := (c_thr s)(t := Ended x)\<rparr>)"
| finish: "c_thr s t = Ended x \<Longrightarrow> io_step ok_rq s (s\<lparr>c_thr := (c_thr s)(t := Rest)\<rparr>)"
| clean: "c_cache s = Some c \<Longrightarrow> cache_cleaner noticed now1 now2 (c, lst) = (c', lst') \<Longrightarrow> io_step ok_rq s (s\<lparr>c_cache := Some c'\<rparr>)"

text \<open>The daemon between requests, and back.\<close>

definition conc_init :: "'w io_ctx \<Rightarrow> 'w conc" where
  "conc_init io =
     \<lparr>c_nm = \<lparr>ns = nmtx_ns io, pcs = (\<lambda>_. Idle)\<rparr>, c_route = ioroute io, c_cache = iocache io, c_world = ioworld io,
      c_thr = (\<lambda>_. Rest)\<rparr>"

definition conc_io :: "'w conc \<Rightarrow> 'w io_ctx" where
  "conc_io s = \<lparr>nmtx_ns = ns (c_nm s), iocache = c_cache s, ioroute = c_route s, ioworld = c_world s\<rparr>"

section \<open>Locks\<close>

text \<open>What a thread has of the named mutexes at each place.\<close>

fun linked :: "thr \<Rightarrow> pc \<Rightarrow> bool" where
  "linked (Locking r a) p = (\<exists>m. p = Waiting (rq_key r) m)"
| "linked (Locked r a) p = (\<exists>m. p = Holding (rq_key r) m)"
| "linked (Served r a x) p = (\<exists>m. p = Holding (rq_key r) m)"
| "linked (Leaving r a x) p = (p = Idle \<or> (\<exists>m. p = Holding (rq_key r) m \<or> p = Found (rq_key r) m \<or> p = Released (rq_key r) m))"
| "linked _ p = (p = Idle)"

definition lock_inv :: "'w conc \<Rightarrow> bool" where
  "lock_inv s \<longleftrightarrow> nm_inv (c_nm s) \<and> (\<forall>t. linked (c_thr s t) (pcs (c_nm s) t))"

lemma linkedD: "lock_inv s \<Longrightarrow> linked (c_thr s t) (pcs (c_nm s) t)"
  by (simp add: lock_inv_def)

lemma outside_idle:
  assumes "\<forall>t. linked (T t) (P t)"
  shows "T t = Rest \<Longrightarrow> P t = Idle" "T t = Begun r \<Longrightarrow> P t = Idle" "T t = Matching r \<Longrightarrow> P t = Idle"
    "T t = Routed r a \<Longrightarrow> P t = Idle" "T t = Ended x \<Longrightarrow> P t = Idle"
  using spec [OF assms, of t] by simp_all

lemma io_step_nm: "io_step ok_rq s s' \<Longrightarrow> lock_inv s \<Longrightarrow> c_nm s' = c_nm s \<or> nm_step (c_nm s) (c_nm s')"
proof (induction rule: io_step.induct)
  case (enter s t r a b mem m ns')
  then have "pcs (c_nm s) t = Idle" by (auto simp: lock_inv_def intro: outside_idle)
  with enter show ?case by (auto intro: nm_step.enter)
next
  case (enter_nomem s t r a mem b e ns')
  then have "pcs (c_nm s) t = Idle" by (auto simp: lock_inv_def intro: outside_idle)
  with enter_nomem show ?case by (auto intro: nm_step.enter_nomem)
qed (auto intro: nm_step.intros)

lemma lock_inv_step:
  assumes "io_step ok_rq s s'" "lock_inv s"
  shows "lock_inv s'"
proof -
  have "nm_inv (c_nm s')" using io_step_nm [OF assms] assms(2) nm_inv_step by (auto simp: lock_inv_def)
  moreover have "linked (c_thr s' t) (pcs (c_nm s') t)" for t
    using assms
  proof (induction rule: io_step.induct)
    case (acquire s u r a k m ns')
    from linkedD [OF acquire(4), of u] acquire(1,2) have "k = rq_key r" by simp
    with acquire show ?case by (auto simp: lock_inv_def)
  next
    case (find s u r a x k m m')
    from linkedD [OF find(4), of u] find(1,2) have "k = rq_key r" by simp
    with find show ?case by (auto simp: lock_inv_def)
  next
    case (release s u r a x k m ns')
    from linkedD [OF release(4), of u] release(1,2) have "k = rq_key r" by simp
    with release show ?case by (auto simp: lock_inv_def)
  next
    case (serve s u r a st x w')
    from linkedD [OF serve(4), of u] serve(1) have "\<exists>m. pcs (c_nm s) u = Holding (rq_key r) m" by simp
    with serve show ?case by (auto simp: lock_inv_def)
  next
    case (cache s u r a x env cache')
    from linkedD [OF cache(4), of u] cache(1) have "\<exists>m. pcs (c_nm s) u = Holding (rq_key r) m" by simp
    with cache show ?case by (auto simp: lock_inv_def)
  qed (auto simp: lock_inv_def intro: outside_idle)
  ultimately show ?thesis by (simp add: lock_inv_def)
qed

section \<open>References\<close>

definition shape :: "'w route_item \<Rightarrow> 'w route_item" where
  "shape i = i\<lparr>nref := 0\<rparr>"

lemma shape_simps [simp]:
  "addr (shape i) = addr i" "storage (shape i) = storage i" "nref (shape i) = 0" "serves k (shape i) = serves k i"
  "shape (bump a d i) = shape i"
  by (simp_all add: shape_def serves_def bump_def)

lemma map_shape_bump [simp]: "map shape (map (bump a d) route) = map shape route"
  by (simp add: comp_def)

lemma find_shape: "List.find (serves k) (map shape route) = map_option shape (List.find (serves k) route)"
  by (induction route) auto

definition uses :: "(nat \<Rightarrow> thr) \<Rightarrow> nat \<Rightarrow> nat set" where
  "uses T a = {t. thr_ref (T t) = Some a}"

text \<open>The table is \<open>route\<close> but for its counts, which are the numbers of threads that refer to an item.\<close>

definition ref_inv :: "'w route_list \<Rightarrow> (nat \<Rightarrow> thr) \<Rightarrow> 'w route_list \<Rightarrow> bool" where
  "ref_inv route T tab \<longleftrightarrow>
     finite {t. T t \<noteq> Rest} \<and> map shape tab = route \<and> route_ok route \<and>
     (\<forall>i \<in> set tab. nref i = int (card (uses T (addr i))))"

text \<open>The requests under way are admissible, and a reference is to the storage that serves the key.\<close>

definition rq_inv :: "'w route_list \<Rightarrow> (rq \<Rightarrow> bool) \<Rightarrow> (nat \<Rightarrow> thr) \<Rightarrow> bool" where
  "rq_inv route ok_rq T \<longleftrightarrow>
     (\<forall>t r. thr_rq (T t) = Some r \<longrightarrow> ok_rq r \<and>
        (\<forall>a. thr_ref (T t) = Some a \<longrightarrow> (\<exists>i. List.find (serves (rq_key r)) route = Some i \<and> addr i = a)))"

lemma finite_threads: "finite {t. T t \<noteq> Rest} \<Longrightarrow> finite {u. (T(t := p)) u \<noteq> Rest}"
  by (rule finite_subset [of _ "insert t {u. T u \<noteq> Rest}"]) auto

lemma finite_uses: "finite {t. T t \<noteq> Rest} \<Longrightarrow> finite (uses T a)"
  by (rule finite_subset [of _ "{t. T t \<noteq> Rest}"]) (auto simp: uses_def)

lemma ref_inv_same: "ref_inv route T tab \<Longrightarrow> thr_ref p = thr_ref (T t) \<Longrightarrow> ref_inv route (T(t := p)) tab"
proof -
  assume "ref_inv route T tab" "thr_ref p = thr_ref (T t)"
  moreover from this(2) have "uses (T(t := p)) = uses T" by (auto simp: uses_def fun_eq_iff)
  ultimately show ?thesis using finite_threads [of T t p] by (simp add: ref_inv_def)
qed

lemma ref_inv_distinct: "ref_inv route T tab \<Longrightarrow> distinct (map addr tab)"
proof -
  assume "ref_inv route T tab"
  then have "distinct (map addr (map shape tab))" by (auto simp: ref_inv_def route_ok_def)
  then show ?thesis by (simp add: comp_def)
qed

lemma ref_inv_match:
  assumes inv: "ref_inv route T tab" and m: "route_match True tab k = (r, tab')" and t: "thr_ref (T t) = None"
  shows "case r of Inl e \<Rightarrow> tab' = tab | Inr a \<Rightarrow>
    (\<exists>i. List.find (serves k) route = Some i \<and> addr i = a) \<and> (\<forall>p. thr_ref p = Some a \<longrightarrow> ref_inv route (T(t := p)) tab')"
proof (cases "List.find (serves k) tab")
  case None
  with m route_match_fst [of True tab k] route_match_snd [OF ref_inv_distinct [OF inv], of True k] show ?thesis by auto
next
  case (Some i)
  with m route_match_fst [of True tab k] route_match_snd [OF ref_inv_distinct [OF inv], of True k]
  have r: "r = Inr (addr i)" "tab' = map (bump (addr i) 1) tab" by auto
  have "List.find (serves k) route = Some (shape i)" using inv find_shape [of k tab] Some by (auto simp: ref_inv_def)
  moreover have "ref_inv route (T(t := p)) tab'" if p: "thr_ref p = Some (addr i)" for p
  proof -
    have fin: "finite (uses T (addr i))" using inv by (auto simp: ref_inv_def intro: finite_uses)
    have "uses (T(t := p)) b = (if b = addr i then insert t (uses T b) else uses T b)" "t \<notin> uses T b" for b
      using t p by (auto simp: uses_def)
    with fin inv r(2) finite_threads [of T t p] show ?thesis by (auto simp: ref_inv_def)
  qed
  ultimately show ?thesis using r(1) by auto
qed

lemma ref_inv_deref:
  assumes inv: "ref_inv route T tab" and d: "route_deref a tab = Ret tab'" and t: "thr_ref (T t) = Some a" and p: "thr_ref p = None"
  shows "ref_inv route (T(t := p)) tab'"
proof -
  have r: "tab' = map (bump a (- 1)) tab"
    using d route_deref_eq [OF ref_inv_distinct [OF inv], of a] by (auto split: if_splits)
  have fin: "finite (uses T a)" using inv by (auto simp: ref_inv_def intro: finite_uses)
  have "uses (T(t := p)) b = (if b = a then uses T b - {t} else uses T b)" "t \<in> uses T b \<longleftrightarrow> b = a" for b
    using t p by (auto simp: uses_def)
  moreover from this(2) [of a] fin have "0 < card (uses T a)" by (auto simp: card_gt_0_iff)
  ultimately show ?thesis using inv r finite_threads [of T t p] by (auto simp: ref_inv_def)
qed

lemma ref_inv_step:
  assumes "io_step ok_rq s s'" "ref_inv route (c_thr s) (c_route s)"
  shows "ref_inv route (c_thr s') (c_route s')"
  using assms
proof (induction rule: io_step.induct)
  case (matched s t r a route')
  from ref_inv_match [OF matched(3,2), of t] matched(1) have "ref_inv route ((c_thr s)(t := Routed r a)) route'" by auto
  then show ?case by (simp add: fun_upd_def)
next
  case (unmatched s t r e route')
  from ref_inv_match [OF unmatched(3,2), of t] unmatched(1) have "route' = c_route s" by simp
  with ref_inv_same [OF unmatched(3), of "Ended (rq_error r e)" t] unmatched(1) show ?case by (simp add: fun_upd_def)
next
  case (deref s t r a x route')
  with ref_inv_deref [OF deref(4,3), of t "Ended x"] show ?case by (simp add: fun_upd_def)
qed (auto intro: ref_inv_same)

lemma rq_inv_upd:
  assumes "rq_inv route ok_rq T"
    "thr_rq p = None \<or> thr_rq p = thr_rq (T t) \<and> (thr_ref p = None \<or> thr_ref p = thr_ref (T t))"
  shows "rq_inv route ok_rq (T(t := p))"
  using assms unfolding rq_inv_def by (auto; metis)

lemma rq_inv_step:
  assumes "io_step ok_rq s s'" "rq_inv route ok_rq (c_thr s)" "ref_inv route (c_thr s) (c_route s)"
  shows "rq_inv route ok_rq (c_thr s')"
  using assms
proof (induction rule: io_step.induct)
  case (started s t r)
  then show ?case by (auto simp: rq_inv_def)
next
  case (matched s t r a route')
  from matched(1,3) have "ok_rq r" by (auto simp: rq_inv_def dest: spec [of _ t])
  with ref_inv_match [OF matched(4,2), of t] matched(1,3) show ?case by (auto simp: rq_inv_def)
qed (auto intro!: rq_inv_upd)

lemma storage_found:
  assumes inv: "ref_inv route T tab" and i: "List.find (serves k) route = Some i"
  shows "storage_at (addr i) tab = Ret (storage i) \<and> addr i \<in> addr ` set tab"
proof -
  have route: "map shape tab = route" using inv by (simp add: ref_inv_def)
  from i have "i \<in> set route" by (auto simp: find_Some_iff)
  then obtain j where j: "j \<in> set tab" "shape j = i" using route by auto
  have "List.find (\<lambda>x. addr x = addr j) tab = Some j"
    using ref_inv_distinct [OF inv] j(1) by (induction tab) (auto simp: image_iff)
  with j show ?thesis by (auto simp: storage_at_def)
qed

section \<open>Data\<close>

text \<open>The requests the storages are asked for.\<close>

fun admissible :: "(string \<Rightarrow> bool) \<Rightarrow> (value_t \<Rightarrow> bool) \<Rightarrow> rq \<Rightarrow> bool" where
  "admissible keys vals (RGet k) = keys k"
| "admissible keys vals (RSet k v) = (keys k \<and> vals v)"
| "admissible keys vals (RDel k) = keys k"

lemma admissible_key: "admissible keys vals r \<Longrightarrow> keys (rq_key r)"
  by (cases r) auto

text \<open>What a successful request says the storage has under its key; whether it put that there.\<close>

fun stores :: "rq \<Rightarrow> rq_res \<Rightarrow> value_t option option" where
  "stores (RGet k) (Got (Inr (v, d))) = Some (Some v)"
| "stores (RSet k v) (Did None) = Some (Some v)"
| "stores (RDel k) (Did None) = Some None"
| "stores r x = None"

fun writes :: "rq \<Rightarrow> bool" where
  "writes (RGet k) = False"
| "writes r = True"

text \<open>A thread that has changed the storage under a key and not yet the cache.\<close>

fun owes :: "thr \<Rightarrow> string \<Rightarrow> bool" where
  "owes (Served r a x) k = (rq_key r = k \<and> writes r \<and> stores r x \<noteq> None)"
| "owes _ k = False"

definition pending :: "(nat \<Rightarrow> thr) \<Rightarrow> string \<Rightarrow> bool" where
  "pending T k \<longleftrightarrow> (\<exists>t. owes (T t) k)"

definition served_ok :: "('w \<Rightarrow> string \<Rightarrow> value_t option) \<Rightarrow> (nat \<Rightarrow> thr) \<Rightarrow> 'w \<Rightarrow> bool" where
  "served_ok backing T w \<longleftrightarrow>
     (\<forall>t r a x b. T t = Served r a x \<longrightarrow> stores r x = Some b \<longrightarrow> backing w (rq_key r) = b)"

definition cached_ok ::
  "('w \<Rightarrow> string \<Rightarrow> value_t option) \<Rightarrow> (string \<Rightarrow> bool) \<Rightarrow> (nat \<Rightarrow> thr) \<Rightarrow> cache option \<Rightarrow> 'w \<Rightarrow> bool" where
  "cached_ok backing keys T cache w \<longleftrightarrow>
     (case cache of None \<Rightarrow> True | Some c \<Rightarrow> cache_inv c) \<and>
     (\<forall>c k i. cache = Some c \<longrightarrow> keys k \<longrightarrow> item_at c k = Some i \<longrightarrow>
        (\<exists>v. cvalue i = Some v \<and> value_ok v \<and> (pending T k \<or> backing w k = Some v)))"

text \<open>A request alone with its key.\<close>

definition alone :: "(nat \<Rightarrow> thr) \<Rightarrow> nat \<Rightarrow> string \<Rightarrow> bool" where
  "alone T t k \<longleftrightarrow> (\<forall>u r a x. T u = Served r a x \<longrightarrow> rq_key r = k \<longrightarrow> u = t)"

lemma lock_inv_alone:
  assumes "lock_inv s" "c_thr s t = Locked r a \<or> c_thr s t = Served r a x"
  shows "alone (c_thr s) t (rq_key r)"
proof -
  from assms(2) linkedD [OF assms(1), of t] have t: "pc_holds (pcs (c_nm s) t) = Some (rq_key r)" by auto
  have "u = t" if u: "c_thr s u = Served r' a' x'" "rq_key r' = rq_key r" for u r' a' x'
  proof (rule nm_exclusive [OF _ _ t])
    show "nm_inv (c_nm s)" using assms(1) by (simp add: lock_inv_def)
    from linkedD [OF assms(1), of u] u show "pc_holds (pcs (c_nm s) u) = Some (rq_key r)" by auto
  qed
  then show ?thesis by (auto simp: alone_def)
qed

text \<open>A step that is neither the storage's nor the cache's.\<close>

lemma pending_upd: "pending (T(t := p)) k \<longleftrightarrow> owes p k \<or> (\<exists>u. u \<noteq> t \<and> owes (T u) k)"
  unfolding pending_def by (metis fun_upd_apply)

lemma owes_served: "(\<forall>r a x. p \<noteq> Served r a x) \<Longrightarrow> \<not> owes p k"
  by (cases p) auto

lemma pending_other:
  assumes "\<forall>r a x. T t \<noteq> Served r a x" "\<forall>r a x. p \<noteq> Served r a x"
  shows "pending (T(t := p)) = pending T"
proof
  fix k
  have "\<not> owes (T t) k" "\<not> owes p k" using assms by (auto dest: owes_served)
  then show "pending (T(t := p)) k = pending T k" unfolding pending_upd unfolding pending_def by metis
qed

lemma data_other:
  assumes "\<forall>r a x. T t \<noteq> Served r a x" "\<forall>r a x. p \<noteq> Served r a x"
  shows "served_ok backing T w \<Longrightarrow> served_ok backing (T(t := p)) w"
    "cached_ok backing keys T cache w \<Longrightarrow> cached_ok backing keys (T(t := p)) cache w"
  using assms by (auto simp: served_ok_def cached_ok_def pending_other)

text \<open>The call on the cache.\<close>

lemma rq_cache_items:
  assumes inv: "case cache of None \<Rightarrow> True | Some c \<Rightarrow> cache_inv c" and env: "env_ok env"
    and v: "\<And>v. stores r x = Some (Some v) \<Longrightarrow> value_ok v"
  shows "\<exists>cache'. rq_cache env r x cache = Ret cache' \<and> (case cache' of None \<Rightarrow> True | Some c \<Rightarrow> cache_inv c) \<and>
    (\<forall>c'. cache' = Some c' \<longrightarrow> (\<exists>c. cache = Some c \<and>
       (\<forall>j. j \<noteq> rq_key r \<or> stores r x = None \<longrightarrow> item_at c' j = item_at c j) \<and>
       (\<forall>b. stores r x = Some b \<longrightarrow> map_option cvalue (item_at c' (rq_key r)) = map_option Some b)))"
proof -
  have set: "\<exists>cache'. io_cache_set env cache k v d = Ret cache' \<and> (case cache' of None \<Rightarrow> True | Some c \<Rightarrow> cache_inv c) \<and>
    (\<forall>c'. cache' = Some c' \<longrightarrow> (\<exists>c. cache = Some c \<and> (\<forall>j. j \<noteq> k \<longrightarrow> item_at c' j = item_at c j) \<and>
       map_option cvalue (item_at c' k) = Some (Some v)))" if "value_ok v" for k v d
    using inv that env by (cases rule: io_cache_set_items [of cache v env k d]) auto
  have del: "item_at (snd (cache_del c k)) = (item_at c)(k := None)" "cache_inv (snd (cache_del c k))" if "cache = Some c" for c k
    using inv that cache_del_item [of c k] by auto
  show ?thesis
  proof (cases "stores r x")
    case None
    then have "rq_cache env r x cache = Ret cache" by (cases "(r, x)" rule: stores.cases) auto
    with None inv show ?thesis by auto
  next
    case (Some b)
    then show ?thesis
    proof (cases "(r, x)" rule: stores.cases)
      case (1 k v d)
      with set [of v k d] v show ?thesis by auto
    next
      case (2 k v)
      with set [of v k 0] v show ?thesis by auto
    next
      case (3 k)
      with del show ?thesis by (cases cache) auto
    qed auto
  qed
qed


text \<open>
  No thread is about to do something undefined: what it calls next returns, with the memory the cache
  needs for a new item.
\<close>

definition thr_safe :: "'w conc \<Rightarrow> nat \<Rightarrow> bool" where
  "thr_safe s t \<longleftrightarrow> (case c_thr s t of
     Begun r \<Rightarrow> (\<forall>c mem now. c_cache s = Some c \<longrightarrow> cache_get mem now c (rq_key r) \<noteq> UB)
   | Locking r a \<Rightarrow> (\<exists>m. pcs (c_nm s) t = Waiting (rq_key r) m \<and> mutex_lock t (rq_key r) m (ns (c_nm s)) \<noteq> UB)
   | Locked r a \<Rightarrow> (\<exists>st. storage_at a (c_route s) = Ret st \<and> rq_serve r st (c_world s) \<noteq> UB)
   | Served r a x \<Rightarrow> (\<forall>env. env_ok env \<longrightarrow> rq_cache env r x (c_cache s) \<noteq> UB)
   | Leaving r a x \<Rightarrow> route_deref a (c_route s) \<noteq> UB \<and> (case pcs (c_nm s) t of
         Idle \<Rightarrow> True
       | Waiting k m \<Rightarrow> False
       | Holding k m \<Rightarrow> unlock_find k (ns (c_nm s)) = Some m
       | Found k m \<Rightarrow> mutex_unlock k m (ns (c_nm s)) \<noteq> UB
       | Released k m \<Rightarrow> unlock_deref k m (ns (c_nm s)) \<noteq> UB)
   | _ \<Rightarrow> True)"

definition moved :: "'w conc \<Rightarrow> 'w conc \<Rightarrow> nat \<Rightarrow> bool" where
  "moved s s' t \<longleftrightarrow> c_thr s' t \<noteq> c_thr s t \<or> pcs (c_nm s') t \<noteq> pcs (c_nm s) t"

context io_backend
begin

text \<open>The call on the storage: what the request reports is what the storage has from then on.\<close>

lemma serve_law:
  assumes r: "admissible keys vals r" and i: "List.find (serves (rq_key r)) route = Some i" and w: "ok w"
  shows "\<exists>x w'. rq_serve r (storage i) w = Ret (x, w') \<and> ok w' \<and>
    (\<forall>b. stores r x = Some b \<longrightarrow> backing w' (rq_key r) = b) \<and>
    (\<forall>j. keys j \<longrightarrow> \<not> (writes r \<and> stores r x \<noteq> None \<and> j = rq_key r) \<longrightarrow> backing w' j = backing w j)"
proof (cases r)
  case (RGet k)
  show ?thesis
  proof (cases "backing w k")
    case None
    with served_get_none [of k i w] assms RGet show ?thesis by fastforce
  next
    case (Some v)
    with served_get [of k i w v] assms RGet show ?thesis by fastforce
  qed
next
  case (RSet k v)
  with served_set [of k i w v] assms obtain y w' where "storage_set (storage i) w k v = Ret (y, w')" "ok w'"
    "backing w' k = (if y = None then Some v else backing w k)" "\<forall>j. keys j \<longrightarrow> j \<noteq> k \<longrightarrow> backing w' j = backing w j" by auto
  with RSet show ?thesis by (cases y) auto
next
  case (RDel k)
  with served_del [of k i w] assms obtain y w' where "storage_del (storage i) w k = Ret (y, w')" "ok w'"
    "backing w' k = (if y = None then None else backing w k)" "\<forall>j. keys j \<longrightarrow> j \<noteq> k \<longrightarrow> backing w' j = backing w j" by auto
  with RDel show ?thesis by (cases y) auto
qed

lemma stores_value_ok:
  assumes "admissible keys vals r" "List.find (serves (rq_key r)) route = Some i" "ok w"
    "backing w (rq_key r) = Some v"
  shows "value_ok v"
  using served_get [OF assms(2,3) admissible_key [OF assms(1)] assms(4)] vals_value_ok by blast

lemma data_serve:
  assumes r: "admissible keys vals r" and i: "List.find (serves (rq_key r)) route = Some i" and w: "ok w"
    and T: "T t = Locked r a" and alone: "alone T t (rq_key r)" and serve: "rq_serve r (storage i) w = Ret (x, w')"
    and adm: "\<And>u r' a' x'. T u = Served r' a' x' \<Longrightarrow> admissible keys vals r'"
  shows "served_ok backing T w \<Longrightarrow> served_ok backing (T(t := Served r a x)) w'"
    "cached_ok backing keys T cache w \<Longrightarrow> cached_ok backing keys (T(t := Served r a x)) cache w'"
proof -
  from serve_law [OF r i w] serve have own: "\<forall>b. stores r x = Some b \<longrightarrow> backing w' (rq_key r) = b"
    and rest: "\<And>j. keys j \<Longrightarrow> \<not> owes (Served r a x) j \<Longrightarrow> backing w' j = backing w j" by auto
  have "backing w' (rq_key r') = backing w (rq_key r')" if "T u = Served r' a' x'" for u r' a' x'
  proof (rule rest)
    show "keys (rq_key r')" using adm [OF that] by (rule admissible_key)
    have "u \<noteq> t" using that T by auto
    then have "rq_key r' \<noteq> rq_key r" using alone that unfolding alone_def by metis
    then show "\<not> owes (Served r a x) (rq_key r')" by auto
  qed
  then show "served_ok backing T w \<Longrightarrow> served_ok backing (T(t := Served r a x)) w'"
    using own by (auto simp: served_ok_def)
  have "pending (T(t := Served r a x)) k \<longleftrightarrow> owes (Served r a x) k \<or> pending T k" for k
    using T by (auto simp: pending_upd pending_def) (metis owes.simps(7))
  with rest show "cached_ok backing keys T cache w \<Longrightarrow> cached_ok backing keys (T(t := Served r a x)) cache w'"
    unfolding cached_ok_def by metis
qed

lemma data_cache:
  assumes r: "admissible keys vals r" and i: "List.find (serves (rq_key r)) route = Some i" and w: "ok w"
    and T: "T t = Served r a x" and alone: "alone T t (rq_key r)" and env: "env_ok env"
    and served: "served_ok backing T w" and cached: "cached_ok backing keys T cache w"
  shows "\<exists>cache'. rq_cache env r x cache = Ret cache' \<and> cached_ok backing keys (T(t := Leaving r a x)) cache' w"
proof -
  have own: "backing w (rq_key r) = b" if "stores r x = Some b" for b
    using served T that by (auto simp: served_ok_def)
  have inv: "case cache of None \<Rightarrow> True | Some c \<Rightarrow> cache_inv c" using cached by (simp add: cached_ok_def)
  obtain cache' where set: "rq_cache env r x cache = Ret cache'" "case cache' of None \<Rightarrow> True | Some c \<Rightarrow> cache_inv c"
    and items: "\<And>c'. cache' = Some c' \<Longrightarrow> \<exists>c. cache = Some c \<and>
       (\<forall>j. j \<noteq> rq_key r \<or> stores r x = None \<longrightarrow> item_at c' j = item_at c j) \<and>
       (\<forall>b. stores r x = Some b \<longrightarrow> map_option cvalue (item_at c' (rq_key r)) = map_option Some b)"
    using rq_cache_items [OF inv env, of r x] stores_value_ok [OF r i w] own by blast
  have pend: "pending T j \<Longrightarrow> pending (T(t := Leaving r a x)) j" if "j \<noteq> rq_key r \<or> stores r x = None" for j
    using that T unfolding pending_upd unfolding pending_def by (metis owes.simps(1))
  have "\<exists>v. cvalue it = Some v \<and> value_ok v \<and> (pending (T(t := Leaving r a x)) j \<or> backing w j = Some v)"
    if c': "cache' = Some c'" and j: "keys j" and it: "item_at c' j = Some it" for c' j it
  proof (cases "j \<noteq> rq_key r \<or> stores r x = None")
    case True
    from items [OF c'] True it obtain c where "cache = Some c" "item_at c j = Some it" by auto
    with cached j pend [OF True] show ?thesis unfolding cached_ok_def by blast
  next
    case False
    then obtain b where b: "stores r x = Some b" "j = rq_key r" by auto
    with items [OF c'] it own [OF b(1)] stores_value_ok [OF r i w] show ?thesis by (cases b) auto
  qed
  with set show ?thesis unfolding cached_ok_def by blast
qed

lemma data_get:
  assumes "cached_ok backing keys T (Some c) w" "cache_get mem now c k = Ret (y, c')"
  shows "cached_ok backing keys T (Some c') w"
  using assms(1) cache_get_state [OF assms(2)] by (simp add: cached_ok_def)

lemma data_clean:
  assumes cached: "cached_ok backing keys T (Some c) w" and clean: "cache_cleaner noticed now1 now2 (c, lst) = (c', lst')"
  shows "cached_ok backing keys T (Some c') w"
proof -
  have inv: "cache_inv c" using cached by (simp add: cached_ok_def)
  note item = cache_cleaner_item [OF inv, of noticed now1 now2 lst, unfolded clean fst_conv snd_conv]
  have "item_at c' k = Some i \<Longrightarrow> item_at c k = Some i" for k i
    using item(3) by (auto split: option.splits if_splits)
  with cached item(1) show ?thesis by (simp add: cached_ok_def)
qed

definition conc_inv :: "'w conc \<Rightarrow> bool" where
  "conc_inv s \<longleftrightarrow> lock_inv s \<and> ref_inv route (c_thr s) (c_route s) \<and> rq_inv route (admissible keys vals) (c_thr s) \<and>
     ok (c_world s) \<and> served_ok backing (c_thr s) (c_world s) \<and> cached_ok backing keys (c_thr s) (c_cache s) (c_world s)"

lemma conc_rq:
  assumes "conc_inv s" "thr_rq (c_thr s t) = Some r"
  shows "admissible keys vals r"
    "thr_ref (c_thr s t) = Some a \<Longrightarrow> \<exists>i. List.find (serves (rq_key r)) route = Some i \<and> addr i = a"
  using assms by (auto simp: conc_inv_def rq_inv_def)

lemma conc_storage:
  assumes "conc_inv s" "thr_rq (c_thr s t) = Some r" "thr_ref (c_thr s t) = Some a"
  obtains i where "List.find (serves (rq_key r)) route = Some i" "addr i = a" "storage_at a (c_route s) = Ret (storage i)"
    "a \<in> addr ` set (c_route s)"
proof -
  from conc_rq(2) [OF assms] obtain i where "List.find (serves (rq_key r)) route = Some i" "addr i = a" by blast
  with storage_found [of route "c_thr s" "c_route s" "rq_key r" i] assms(1) that show thesis by (simp add: conc_inv_def)
qed

lemma conc_alone:
  assumes "conc_inv s" "c_thr s t = Locked r a \<or> c_thr s t = Served r a x"
  shows "alone (c_thr s) t (rq_key r)"
  using assms(2) by (rule lock_inv_alone [rotated]) (use assms(1) in \<open>simp add: conc_inv_def\<close>)

lemma conc_data_step:
  assumes "io_step (admissible keys vals) s s'" "conc_inv s"
  shows "ok (c_world s') \<and> served_ok backing (c_thr s') (c_world s') \<and> cached_ok backing keys (c_thr s') (c_cache s') (c_world s')"
  using assms
proof (induction rule: io_step.induct)
  case (serve s t r a st x w')
  then have inv: "conc_inv s" by simp
  obtain i where i: "List.find (serves (rq_key r)) route = Some i" "st = storage i"
    using conc_storage [OF inv, of t r a] serve(1,2) by auto
  have r: "admissible keys vals r" using conc_rq(1) [OF inv, of t r] serve(1) by simp
  have w: "ok (c_world s)" using inv by (simp add: conc_inv_def)
  have serve': "rq_serve r (storage i) (c_world s) = Ret (x, w')" using serve(3) i(2) by simp
  have adm: "admissible keys vals r'" if "c_thr s u = Served r' a' x'" for u r' a' x'
    using conc_rq(1) [OF inv, of u r'] that by simp
  have alone: "alone (c_thr s) t (rq_key r)" using conc_alone [OF inv, of t r a] serve(1) by simp
  note step = data_serve [OF r i(1) w serve(1) alone serve' adm]
  have "ok w'" using serve_law [OF r i(1) w] serve' by auto
  with step inv show ?case by (simp add: conc_inv_def fun_upd_def)
next
  case (cache s t r a x env cache')
  then have inv: "conc_inv s" by simp
  obtain i where i: "List.find (serves (rq_key r)) route = Some i" using conc_storage [OF inv, of t r a] cache(1) by auto
  have r: "admissible keys vals r" using conc_rq(1) [OF inv, of t r] cache(1) by simp
  have alone: "alone (c_thr s) t (rq_key r)" using conc_alone [OF inv, of t r a x] cache(1) by simp
  from inv have D: "ok (c_world s)" "served_ok backing (c_thr s) (c_world s)" "cached_ok backing keys (c_thr s) (c_cache s) (c_world s)"
    by (simp_all add: conc_inv_def)
  from data_cache [OF r i D(1) cache(1) alone cache(2) D(2,3)] cache(3)
  have "cached_ok backing keys ((c_thr s)(t := Leaving r a x)) cache' (c_world s)" by simp
  moreover have "served_ok backing ((c_thr s)(t := Leaving r a x)) (c_world s)" using D(2) by (auto simp: served_ok_def)
  ultimately show ?case using D(1) by (simp add: fun_upd_def)
qed (auto simp: conc_inv_def intro: data_other data_get data_clean)

lemma conc_inv_step: "io_step (admissible keys vals) s s' \<Longrightarrow> conc_inv s \<Longrightarrow> conc_inv s'"
  using conc_data_step [of s s'] lock_inv_step [of "admissible keys vals" s s'] ref_inv_step [of "admissible keys vals" s s' route]
    rq_inv_step [of "admissible keys vals" s s' route]
  by (simp add: conc_inv_def)

lemma shape_zero: "nref i = 0 \<Longrightarrow> shape i = i"
  by (simp add: shape_def)

lemma conc_inv_init:
  assumes coh: "coh io" and lock: "nmtx_ns io = Null" and ref: "\<forall>i \<in> set (ioroute io). nref i = 0"
  shows "conc_inv (conc_init io)"
proof -
  note D = coherentD [OF coh]
  have "map shape route = route" using ref D(3) by (simp add: shape_zero map_idI)
  moreover have "route_ok route" using D(1,3) by (simp add: io_ok_def)
  moreover have "nm_inv \<lparr>ns = Null, pcs = \<lambda>_. Idle\<rparr>" using nm_inv_init by (simp add: nm_init_def)
  moreover have "cached_ok backing keys (\<lambda>_. Rest) (iocache io) (ioworld io)"
    using D(5,6) unfolding cached_ok_def by blast
  ultimately show ?thesis using lock ref D(2,3)
    by (simp add: conc_inv_def conc_init_def lock_inv_def ref_inv_def rq_inv_def served_ok_def uses_def)
qed

lemma conc_inv_reach:
  assumes "(io_step (admissible keys vals))\<^sup>*\<^sup>* (conc_init io) s" "coh io" "nmtx_ns io = Null" "\<forall>i \<in> set (ioroute io). nref i = 0"
  shows "conc_inv s"
  using assms(1) by (induction rule: rtranclp_induct) (auto intro: conc_inv_init [OF assms(2-4)] conc_inv_step)

lemma conc_rest:
  assumes inv: "conc_inv s" and rest: "\<forall>t. c_thr s t = Rest"
  shows "coh (conc_io s)" "nmtx_ns (conc_io s) = Null"
proof -
  from inv have lock: "lock_inv s" and ref: "ref_inv route (c_thr s) (c_route s)" and w: "ok (c_world s)"
    and cached: "cached_ok backing keys (c_thr s) (c_cache s) (c_world s)" by (simp_all add: conc_inv_def)
  have "\<forall>t. pcs (c_nm s) t = Idle" using linkedD [OF lock] rest by simp
  then have ns: "ns (c_nm s) = Null" using lock by (auto simp: lock_inv_def intro: nm_empty)
  then show "nmtx_ns (conc_io s) = Null" by (simp add: conc_io_def)
  have "\<forall>i \<in> set (c_route s). nref i = 0" using ref rest by (simp add: ref_inv_def uses_def)
  then have "map shape (c_route s) = c_route s" by (simp add: shape_zero map_idI)
  then have route: "c_route s = route" "route_ok route" using ref by (simp_all add: ref_inv_def)
  have "\<not> pending (c_thr s) k" for k using rest by (simp add: pending_def)
  moreover have "\<forall>k. name_free Null k" by (simp add: name_free_def)
  ultimately show "coh (conc_io s)"
    using cached w ns route nt.inv_empty unfolding coherent_def conc_io_def cached_ok_def by (simp add: io_ok_def)
qed

lemma conc_safe:
  assumes inv: "conc_inv s"
  shows "thr_safe s t"
proof -
  from inv have lock: "lock_inv s" and ref: "ref_inv route (c_thr s) (c_route s)" and w: "ok (c_world s)"
    and cached: "cached_ok backing keys (c_thr s) (c_cache s) (c_world s)" and served: "served_ok backing (c_thr s) (c_world s)"
    by (simp_all add: conc_inv_def)
  from lock have nm: "nm_inv (c_nm s)" by (simp add: lock_inv_def)
  note link = linkedD [OF lock, of t] and mutex = nm_safe [OF nm, of t]
  show ?thesis
  proof (cases "c_thr s t")
    case (Begun r)
    with conc_rq(1) [OF inv, of t r] have k: "keys (rq_key r)" by (simp add: admissible_key)
    have "cache_get mem now c (rq_key r) \<noteq> UB" if "c_cache s = Some c" for c mem now
    proof (cases "item_at c (rq_key r)")
      case None
      then show ?thesis by (simp add: cache_get_def item_at_def)
    next
      case (Some it)
      with cached k that obtain v where "cvalue it = Some v" unfolding cached_ok_def by blast
      with Some show ?thesis by (auto simp: cache_get_def item_at_def Let_def split: option.split)
    qed
    with Begun show ?thesis by (simp add: thr_safe_def)
  next
    case (Locking r a)
    with link mutex show ?thesis by (auto simp: thr_safe_def)
  next
    case (Locked r a)
    obtain i where i: "List.find (serves (rq_key r)) route = Some i" "storage_at a (c_route s) = Ret (storage i)"
      using conc_storage [OF inv, of t r a] Locked by auto
    have "admissible keys vals r" using conc_rq(1) [OF inv, of t r] Locked by simp
    from serve_law [OF this i(1) w] i(2) Locked show ?thesis by (auto simp: thr_safe_def)
  next
    case (Served r a x)
    obtain i where i: "List.find (serves (rq_key r)) route = Some i" using conc_storage [OF inv, of t r a] Served by auto
    have r: "admissible keys vals r" using conc_rq(1) [OF inv, of t r] Served by simp
    have "alone (c_thr s) t (rq_key r)" using conc_alone [OF inv, of t r a x] Served by simp
    from data_cache [OF r i w Served this _ served cached] Served show ?thesis by (fastforce simp: thr_safe_def)
  next
    case (Leaving r a x)
    have "a \<in> addr ` set (c_route s)" using conc_storage [OF inv, of t r a] Leaving by auto
    then have "route_deref a (c_route s) \<noteq> UB" using route_deref_eq [OF ref_inv_distinct [OF ref], of a] by simp
    with Leaving link mutex show ?thesis by (auto simp: thr_safe_def)
  qed (simp_all add: thr_safe_def)
qed

end

text \<open>
  A thread that is under way can go on unless it waits for its key; who holds a key can go on.
\<close>

lemma moves_begun:
  assumes safe: "thr_safe s t" and Begun: "c_thr s t = Begun r"
  shows "\<exists>s'. io_step ok_rq s s' \<and> moved s s' t"
proof (cases "c_cache s = None \<or> (\<forall>k. r \<noteq> RGet k)")
  case True
  from io_step.skip [OF Begun True] Begun show ?thesis by (fastforce simp: moved_def)
next
  case False
  then obtain c k where c: "c_cache s = Some c" "r = RGet k" by auto
  with safe Begun obtain y c' where get: "cache_get True 0 c k = Ret (y, c')"
    by (cases "cache_get True 0 c k") (auto simp: thr_safe_def)
  show ?thesis
  proof (cases "y = Inl ENOENT")
    case True
    from io_step.miss [OF Begun [unfolded c(2)] c(1)] get True Begun c(2) show ?thesis by (fastforce simp: moved_def)
  next
    case False
    from io_step.hit [OF Begun [unfolded c(2)] c(1) get False] Begun show ?thesis by (fastforce simp: moved_def)
  qed
qed

lemma moves_matching:
  assumes Matching: "c_thr s t = Matching r"
  shows "\<exists>s'. io_step ok_rq s s' \<and> moved s s' t"
proof -
  obtain y route' where match: "route_match True (c_route s) (rq_key r) = (y, route')" by fastforce
  show ?thesis
  proof (cases y)
    case (Inl e)
    from io_step.unmatched [OF Matching match [unfolded Inl]] Matching show ?thesis by (fastforce simp: moved_def)
  next
    case (Inr a)
    from io_step.matched [OF Matching match [unfolded Inr]] Matching show ?thesis by (fastforce simp: moved_def)
  qed
qed

lemma moves_routed:
  assumes Routed: "c_thr s t = Routed r a"
  shows "\<exists>s'. io_step ok_rq s s' \<and> moved s s' t"
proof -
  have "\<exists>b. b \<notin> mid ` set (inorder (ns (c_nm s)))" by (rule ex_new_if_finite [OF infinite_UNIV_nat]) simp
  then obtain b where b: "b \<notin> mid ` set (inorder (ns (c_nm s)))" ..
  obtain y ns' where ref: "lock_ref mem_ok b (rq_key r) (ns (c_nm s)) = (y, ns')" by fastforce
  show ?thesis
  proof (cases y)
    case (Inl e)
    from io_step.enter_nomem [OF Routed ref [unfolded Inl]] Routed show ?thesis by (fastforce simp: moved_def)
  next
    case (Inr m)
    from io_step.enter [OF Routed b ref [unfolded Inr]] Routed show ?thesis by (fastforce simp: moved_def)
  qed
qed

lemma moves_leaving:
  assumes safe: "thr_safe s t" and Leaving: "c_thr s t = Leaving r a x"
  shows "\<exists>s'. io_step ok_rq s s' \<and> moved s s' t"
proof (cases "pcs (c_nm s) t")
  case Idle
  from safe Leaving obtain route' where "route_deref a (c_route s) = Ret route'"
    by (cases "route_deref a (c_route s)") (auto simp: thr_safe_def)
  from io_step.deref [OF Leaving Idle this] Leaving show ?thesis by (fastforce simp: moved_def)
next
  case (Holding k m)
  with safe Leaving have "unlock_find k (ns (c_nm s)) = Some m" by (simp add: thr_safe_def)
  from io_step.find [OF Leaving Holding this] Holding show ?thesis by (fastforce simp: moved_def)
next
  case (Found k m)
  with safe Leaving obtain ns' where "mutex_unlock k m (ns (c_nm s)) = Ret ns'"
    by (cases "mutex_unlock k m (ns (c_nm s))") (auto simp: thr_safe_def)
  from io_step.release [OF Leaving Found this] Found show ?thesis by (fastforce simp: moved_def)
next
  case (Released k m)
  with safe Leaving obtain ns' where "unlock_deref k m (ns (c_nm s)) = Ret ns'"
    by (cases "unlock_deref k m (ns (c_nm s))") (auto simp: thr_safe_def)
  from io_step.unlocked [OF Leaving Released this] Released show ?thesis by (fastforce simp: moved_def)
qed (use safe Leaving in \<open>simp add: thr_safe_def\<close>)

lemma moves:
  assumes safe: "thr_safe s t" and t: "c_thr s t \<noteq> Rest"
    and free: "\<And>r a m. c_thr s t = Locking r a \<Longrightarrow> mutex_lock t (rq_key r) m (ns (c_nm s)) \<noteq> Ret None"
  shows "\<exists>s'. io_step ok_rq s s' \<and> moved s s' t"
proof (cases "c_thr s t")
  case (Locking r a)
  with safe obtain m where m: "pcs (c_nm s) t = Waiting (rq_key r) m" "mutex_lock t (rq_key r) m (ns (c_nm s)) \<noteq> UB"
    by (auto simp: thr_safe_def)
  with free [OF Locking, of m] obtain ns' where "mutex_lock t (rq_key r) m (ns (c_nm s)) = Ret (Some ns')"
    by (cases "mutex_lock t (rq_key r) m (ns (c_nm s))") auto
  from io_step.acquire [OF Locking m(1) this] Locking show ?thesis by (fastforce simp: moved_def)
next
  case (Locked r a)
  with safe obtain st where st: "storage_at a (c_route s) = Ret st" "rq_serve r st (c_world s) \<noteq> UB" by (auto simp: thr_safe_def)
  then obtain x w' where "rq_serve r st (c_world s) = Ret (x, w')" by (cases "rq_serve r st (c_world s)") auto
  from io_step.serve [OF Locked st(1) this] Locked show ?thesis by (fastforce simp: moved_def)
next
  case (Served r a x)
  have env: "env_ok \<lparr>e_thread = t, e_now = 0, e_get_mem = True, e_lock_mem = mem_ok, e_lock_addr = 0, e_set_mem = mem_ok,
    e_now1 = 0, e_now2 = 0\<rparr>" (is "env_ok ?env") by (simp add: env_ok_def)
  with safe Served obtain cache' where "rq_cache ?env r x (c_cache s) = Ret cache'"
    by (cases "rq_cache ?env r x (c_cache s)") (auto simp: thr_safe_def)
  from io_step.cache [OF Served env this] Served show ?thesis by (fastforce simp: moved_def)
next
  case (Ended x)
  from io_step.finish [OF Ended] Ended show ?thesis by (fastforce simp: moved_def)
qed (use t moves_begun [OF safe] moves_matching moves_routed moves_leaving [OF safe] in blast)+

lemma lock_held:
  assumes lock: "lock_inv s" and held: "mutex_lock t k m (ns (c_nm s)) = Ret None"
  obtains u where "pc_holds (pcs (c_nm s) u) = Some k" "c_thr s u \<noteq> Rest" "\<forall>r a. c_thr s u \<noteq> Locking r a"
proof -
  from lock have good: "nm_good (node (ns (c_nm s))) (pcs (c_nm s))" by (simp add: lock_inv_def nm_inv_def)
  from held obtain n u where "node (ns (c_nm s)) k = Some n" "owner n = Some u"
    by (auto simp: mutex_lock_def nm_access_def split: option.splits if_splits)
  with nm_goodD(5) [OF good] have u: "pc_holds (pcs (c_nm s) u) = Some k" by blast
  with that linkedD [OF lock, of u] show thesis by (cases "c_thr s u") auto
qed

lemma progress:
  assumes lock: "lock_inv s" and safe: "\<And>t. thr_safe s t" and t: "c_thr s t \<noteq> Rest"
  shows "(\<exists>s'. io_step ok_rq s s' \<and> moved s s' t) \<or>
    (\<exists>r a u s'. c_thr s t = Locking r a \<and> pc_holds (pcs (c_nm s) u) = Some (rq_key r) \<and> io_step ok_rq s s' \<and> moved s s' u)"
proof (cases "\<exists>r a m. c_thr s t = Locking r a \<and> mutex_lock t (rq_key r) m (ns (c_nm s)) = Ret None")
  case True
  then obtain r a m where L: "c_thr s t = Locking r a" "mutex_lock t (rq_key r) m (ns (c_nm s)) = Ret None" by blast
  from lock L(2) obtain u where u: "pc_holds (pcs (c_nm s) u) = Some (rq_key r)" "c_thr s u \<noteq> Rest"
    "\<forall>r a. c_thr s u \<noteq> Locking r a" by (rule lock_held)
  from moves [OF safe u(2), of ok_rq] u(1,3) L(1) show ?thesis by blast
next
  case False
  with moves [OF safe t, of ok_rq] show ?thesis by blast
qed

end
