(* ===== verification/Io_Alone.thy ===== *)
theory Io_Alone
  imports Io_Interleaved
begin

text \<open>
  A request that is not interrupted: the steps of \<open>Io_Interleaved\<close>, taken one after the other by a
  single thread, are \<open>io_get\<close>, \<open>io_set\<close> and \<open>io_del\<close> of \<open>Io\<close>. The step relation leaves nothing of the
  functions out, whatever else is under way in the meantime.
\<close>

section \<open>A request that runs alone\<close>

text \<open>A thread that is not interrupted does what the operations of \<open>Io\<close> say.\<close>

fun rq_run :: "io_env \<Rightarrow> 'w io_ctx \<Rightarrow> rq \<Rightarrow> (rq_res \<times> 'w io_ctx) option c_out" where
  "rq_run env io (RGet k) = c_bind (io_get env io k) (\<lambda>y. Ret (map_option (\<lambda>(x, io'). (Got x, io')) y))"
| "rq_run env io (RSet k v) = c_bind (io_set env io k v) (\<lambda>y. Ret (map_option (\<lambda>(x, io'). (Did x, io')) y))"
| "rq_run env io (RDel k) = c_bind (io_del env io k) (\<lambda>y. Ret (map_option (\<lambda>(x, io'). (Did x, io')) y))"

abbreviation turns :: "(rq \<Rightarrow> bool) \<Rightarrow> 'w conc \<Rightarrow> 'w conc \<Rightarrow> bool" where
  "turns ok_rq \<equiv> (io_step ok_rq)\<^sup>*\<^sup>*"

lemma lock_inv_turns: "turns ok_rq s s' \<Longrightarrow> lock_inv s \<Longrightarrow> lock_inv s'"
  by (induction rule: rtranclp_induct) (auto intro: lock_inv_step)

lemma turns2: "io_step ok_rq s s1 \<Longrightarrow> io_step ok_rq s1 s2 \<Longrightarrow> turns ok_rq s2 s' \<Longrightarrow> turns ok_rq s s'"
  by (blast intro: converse_rtranclp_into_rtranclp)

lemma run_deref:
  assumes t: "c_thr s t = Leaving r a x" "pcs (c_nm s) t = Idle" and clean: "cleanup None (Some a) (conc_io s) = Ret io'"
  shows "\<exists>s'. turns ok_rq s s' \<and> c_thr s' = (c_thr s)(t := Ended x) \<and> conc_io s' = io'"
proof -
  from clean obtain route' where d: "route_deref a (c_route s) = Ret route'"
    by (cases "route_deref a (c_route s)") (auto simp: cleanup_def conc_io_def)
  with clean have "io' = (conc_io s)\<lparr>ioroute := route'\<rparr>" by (simp add: cleanup_def conc_io_def)
  then have "conc_io (s\<lparr>c_route := route', c_thr := (c_thr s)(t := Ended x)\<rparr>) = io'" by (simp add: conc_io_def)
  moreover have "c_thr (s\<lparr>c_route := route', c_thr := (c_thr s)(t := Ended x)\<rparr>) = (c_thr s)(t := Ended x)" by simp
  ultimately show ?thesis using io_step.deref [OF t d, of ok_rq] by blast
qed

lemma run_cleanup:
  assumes t: "c_thr s t = Leaving r a x" "pcs (c_nm s) t = Holding k m" and lock: "lock_inv s"
    and clean: "cleanup (Some k) (Some a) (conc_io s) = Ret io'"
  shows "\<exists>s'. turns ok_rq s s' \<and> c_thr s' = (c_thr s)(t := Ended x) \<and> conc_io s' = io'"
proof -
  from nm_safe [of "c_nm s" t k m] lock t(2) have found: "unlock_find k (ns (c_nm s)) = Some m" by (simp add: lock_inv_def)
  from clean found obtain n1 where u1: "mutex_unlock k m (ns (c_nm s)) = Ret n1"
    by (cases "mutex_unlock k m (ns (c_nm s))") (auto simp: cleanup_def conc_io_def named_mutex_unlock_def)
  from clean found u1 obtain n2 where u2: "unlock_deref k m n1 = Ret n2"
    by (cases "unlock_deref k m n1") (auto simp: cleanup_def conc_io_def named_mutex_unlock_def)
  define s1 where "s1 = s\<lparr>c_nm := (c_nm s)\<lparr>pcs := (pcs (c_nm s))(t := Found k m)\<rparr>\<rparr>"
  define s2 where "s2 = s1\<lparr>c_nm := (c_nm s1)\<lparr>ns := n1, pcs := (pcs (c_nm s1))(t := Released k m)\<rparr>\<rparr>"
  define s3 where "s3 = s2\<lparr>c_nm := (c_nm s2)\<lparr>ns := n2, pcs := (pcs (c_nm s2))(t := Idle)\<rparr>\<rparr>"
  have "io_step ok_rq s s1" unfolding s1_def using io_step.find [OF t found] .
  moreover have "io_step ok_rq s1 s2" unfolding s2_def by (rule io_step.release) (use t u1 in \<open>simp_all add: s1_def\<close>)
  moreover have "io_step ok_rq s2 s3" unfolding s3_def by (rule io_step.unlocked) (use t u2 in \<open>simp_all add: s1_def s2_def\<close>)
  ultimately have steps: "turns ok_rq s s3" by (blast intro: converse_rtranclp_into_rtranclp)
  have "cleanup None (Some a) (conc_io s3) = Ret io'"
    using clean found u1 u2 by (simp add: s1_def s2_def s3_def conc_io_def cleanup_def named_mutex_unlock_def)
  from run_deref [OF _ _ this, of t r x ok_rq] t obtain s' where
    "turns ok_rq s3 s'" "c_thr s' = (c_thr s)(t := Ended x)" "conc_io s' = io'"
    by (auto simp: s1_def s2_def s3_def)
  with steps show ?thesis by (blast intro: rtranclp_trans)
qed

text \<open>From the lock to the clean-up; \<open>tail\<close> is the rest of \<open>io_routed\<close> once the key is locked.\<close>

definition locked_tail :: "io_env \<Rightarrow> rq \<Rightarrow> nat \<Rightarrow> 'w io_ctx \<Rightarrow> (rq_res \<times> 'w io_ctx) option c_out" where
  "locked_tail env r a io =
     c_bind (storage_at a (ioroute io)) (\<lambda>st.
       c_bind (rq_body env r st (iocache io) (ioworld io)) (\<lambda>(x, c', w').
         io_exit (Some (rq_key r)) (Some a) x (io\<lparr>iocache := c', ioworld := w'\<rparr>)))"

lemma run_locked:
  assumes t: "c_thr s t = Locked r a" and lock: "lock_inv s" and env: "env_ok env"
    and run: "locked_tail env r a (conc_io s) = Ret (Some (x, io'))"
  shows "\<exists>s'. turns ok_rq s s' \<and> c_thr s' = (c_thr s)(t := Ended x) \<and> conc_io s' = io'"
proof -
  obtain st where st: "storage_at a (c_route s) = Ret st"
    using run by (cases "storage_at a (c_route s)") (auto simp: locked_tail_def rq_body_def conc_io_def)
  obtain y w' where serve: "rq_serve r st (c_world s) = Ret (y, w')"
    using run st by (cases "rq_serve r st (c_world s)") (auto simp: locked_tail_def rq_body_def conc_io_def)
  obtain c' where cache: "rq_cache env r y (c_cache s) = Ret c'"
    using run st serve by (cases "rq_cache env r y (c_cache s)") (auto simp: locked_tail_def rq_body_def conc_io_def)
  define s1 where "s1 = s\<lparr>c_world := w', c_thr := (c_thr s)(t := Served r a y)\<rparr>"
  define s2 where "s2 = s1\<lparr>c_cache := c', c_thr := (c_thr s1)(t := Leaving r a y)\<rparr>"
  have "io_step ok_rq s s1" unfolding s1_def using io_step.serve [OF t st serve] .
  moreover have "io_step ok_rq s1 s2" unfolding s2_def by (rule io_step.cache [OF _ env]) (use cache in \<open>simp_all add: s1_def\<close>)
  ultimately have steps: "turns ok_rq s s2" by (rule turns2) blast
  from linkedD [OF lock, of t] t obtain m where m: "pcs (c_nm s) t = Holding (rq_key r) m" by auto
  have exit: "io_exit (Some (rq_key r)) (Some a) y (conc_io s2) = Ret (Some (x, io'))"
    using run st serve cache by (simp add: locked_tail_def rq_body_def conc_io_def s1_def s2_def)
  then have "y = x" "cleanup (Some (rq_key r)) (Some a) (conc_io s2) = Ret io'"
    by (cases "cleanup (Some (rq_key r)) (Some a) (conc_io s2)"; simp add: io_exit_def)+
  from run_cleanup [OF _ _ lock_inv_turns [OF steps lock] this(2), of t r x m ok_rq] m \<open>y = x\<close>
  obtain s' where "turns ok_rq s2 s'" "c_thr s' = (c_thr s)(t := Ended x)" "conc_io s' = io'" by (auto simp: s1_def s2_def)
  with steps show ?thesis by (blast intro: rtranclp_trans)
qed

lemma io_routed_map:
  "c_bind (io_routed env err body io k) (\<lambda>y. Ret (map_option (\<lambda>(x, io'). (f x, io')) y)) =
     io_routed env (\<lambda>e. f (err e)) (\<lambda>st c w. c_bind (body st c w) (\<lambda>(x, c', w'). Ret (f x, c', w'))) io k"
proof -
  have exit: "c_bind (io_exit key st x io) (\<lambda>y. Ret (map_option (\<lambda>(x, io'). (f x, io')) y)) = io_exit key st (f x) io"
    for key st x and io :: "'b io_ctx"
    by (cases "cleanup key st io") (auto simp: io_exit_def)
  obtain y route' where match: "route_match True (ioroute io) k = (y, route')" by fastforce
  have body: "c_bind (c_bind (body st c w) (\<lambda>(x, c', w'). io_exit key a x (h c' w'))) (\<lambda>y. Ret (map_option (\<lambda>(x, io'). (f x, io')) y)) =
    c_bind (c_bind (body st c w) (\<lambda>(x, c', w'). Ret (f x, c', w'))) (\<lambda>(x, c', w'). io_exit key a x (h c' w'))"
    for st c w key a and h :: "cache option \<Rightarrow> 'b \<Rightarrow> 'b io_ctx"
    by (cases "body st c w") (auto simp: exit)
  show ?thesis
  proof (cases y)
    case (Inl e)
    with match show ?thesis by (simp add: io_routed_def exit)
  next
    case (Inr a)
    show ?thesis
    proof (cases "named_mutex_lock (e_thread env) (e_lock_mem env) (e_lock_addr env) k (nmtx_ns io)")
      case (Ret l)
      with match Inr show ?thesis by (cases l) (auto simp: io_routed_def Let_def exit c_bind_assoc [of "storage_at a route'"] body split: option.split)
    qed (use match Inr in \<open>simp add: io_routed_def\<close>)
  qed
qed

definition rq_routed :: "io_env \<Rightarrow> 'w io_ctx \<Rightarrow> rq \<Rightarrow> (rq_res \<times> 'w io_ctx) option c_out" where
  "rq_routed env io r = io_routed env (rq_error r) (rq_body env r) io (rq_key r)"

lemma rq_error_eq:
  "rq_error (RGet k) = (\<lambda>e. Got (Inl e))" "rq_error (RSet k v) = (\<lambda>e. Did (Some e))" "rq_error (RDel k) = (\<lambda>e. Did (Some e))"
  by (simp_all add: fun_eq_iff)

lemma rq_run_routed:
  "rq_run env io r = (case r of
     RGet k \<Rightarrow> (case iocache io of None \<Rightarrow> rq_routed env io r
       | Some c \<Rightarrow> c_bind (cache_get (e_get_mem env) (e_now env) c k) (\<lambda>(x, c').
           if x \<noteq> Inl ENOENT then Ret (Some (Got x, io\<lparr>iocache := Some c'\<rparr>)) else rq_routed env (io\<lparr>iocache := Some c'\<rparr>) r))
   | _ \<Rightarrow> rq_routed env io r)"
proof (cases r)
  case (RGet k)
  have get: "c_bind (io_routed env Inl (get_body env k) io k) (\<lambda>y. Ret (map_option (\<lambda>(x, io'). (Got x, io')) y)) = rq_routed env io r"
    for io :: "'a io_ctx"
    by (simp add: io_routed_map rq_routed_def bodies_rq_body rq_error_eq RGet)
  then show ?thesis using RGet
    by (cases "iocache io") (auto simp: io_get_def c_bind_assoc Let_def intro!: arg_cong2 [where f = c_bind])
next
  case (RSet k v)
  then show ?thesis by (simp add: io_set_def io_routed_map rq_routed_def bodies_rq_body rq_error_eq)
next
  case (RDel k)
  then show ?thesis by (simp add: io_del_def io_routed_map rq_routed_def bodies_rq_body(3) [where env = env] rq_error_eq)
qed

lemma run_routed:
  assumes t: "c_thr s t = Routed r a" and lock: "lock_inv s" and env: "env_ok env" "e_thread env = t"
    and fresh: "e_lock_addr env \<notin> mid ` set (inorder (ns (c_nm s)))"
    and run: "c_bind (named_mutex_lock t (e_lock_mem env) (e_lock_addr env) (rq_key r) (ns (c_nm s))) (\<lambda>l.
      case l of None \<Rightarrow> Ret None
      | Some (Some e, ns') \<Rightarrow> io_exit None (Some a) (rq_error r e) ((conc_io s)\<lparr>nmtx_ns := ns'\<rparr>)
      | Some (None, ns') \<Rightarrow> locked_tail env r a ((conc_io s)\<lparr>nmtx_ns := ns'\<rparr>)) = Ret (Some (x, io'))"
  shows "\<exists>s'. turns ok_rq s s' \<and> c_thr s' = (c_thr s)(t := Ended x) \<and> conc_io s' = io'"
proof -
  obtain y n1 where ref: "lock_ref (e_lock_mem env) (e_lock_addr env) (rq_key r) (ns (c_nm s)) = (y, n1)" by fastforce
  show ?thesis
  proof (cases y)
    case (Inl e)
    define s1 where "s1 = s\<lparr>c_nm := (c_nm s)\<lparr>ns := n1\<rparr>, c_thr := (c_thr s)(t := Leaving r a (rq_error r e))\<rparr>"
    have step: "io_step ok_rq s s1" unfolding s1_def using io_step.enter_nomem [OF t ref [unfolded Inl]] .
    have idle: "pcs (c_nm s) t = Idle" using linkedD [OF lock, of t] t by simp
    from run ref Inl have "io_exit None (Some a) (rq_error r e) (conc_io s1) = Ret (Some (x, io'))"
      by (simp add: named_mutex_lock_def s1_def conc_io_def)
    then have "x = rq_error r e" "cleanup None (Some a) (conc_io s1) = Ret io'" by (auto simp: io_exit_def)
    from run_deref [OF _ _ this(2), of t r x ok_rq] idle \<open>x = rq_error r e\<close>
    obtain s' where "turns ok_rq s1 s'" "c_thr s' = (c_thr s)(t := Ended x)" "conc_io s' = io'" by (auto simp: s1_def)
    with step show ?thesis by (blast intro: converse_rtranclp_into_rtranclp)
  next
    case (Inr m)
    from run ref Inr obtain n2 where got: "mutex_lock t (rq_key r) m n1 = Ret (Some n2)"
      and tail: "locked_tail env r a ((conc_io s)\<lparr>nmtx_ns := n2\<rparr>) = Ret (Some (x, io'))"
      by (auto simp: named_mutex_lock_def split: option.splits)
    define s1 where "s1 = s\<lparr>c_nm := (c_nm s)\<lparr>ns := n1, pcs := (pcs (c_nm s))(t := Waiting (rq_key r) m)\<rparr>,
      c_thr := (c_thr s)(t := Locking r a)\<rparr>"
    define s2 where "s2 = s1\<lparr>c_nm := (c_nm s1)\<lparr>ns := n2, pcs := (pcs (c_nm s1))(t := Holding (rq_key r) m)\<rparr>,
      c_thr := (c_thr s1)(t := Locked r a)\<rparr>"
    have "io_step ok_rq s s1" unfolding s1_def using io_step.enter [OF t fresh ref [unfolded Inr]] .
    moreover have "io_step ok_rq s1 s2" unfolding s2_def by (rule io_step.acquire) (use got in \<open>simp_all add: s1_def\<close>)
    ultimately have steps: "turns ok_rq s s2" by (rule turns2) blast
    have "conc_io s2 = (conc_io s)\<lparr>nmtx_ns := n2\<rparr>" by (simp add: s1_def s2_def conc_io_def)
    with tail have "locked_tail env r a (conc_io s2) = Ret (Some (x, io'))" by simp
    from run_locked [OF _ lock_inv_turns [OF steps lock] env(1) this, of t ok_rq]
    obtain s' where "turns ok_rq s2 s'" "c_thr s' = (c_thr s)(t := Ended x)" "conc_io s' = io'" by (auto simp: s1_def s2_def)
    with steps show ?thesis by (blast intro: rtranclp_trans)
  qed
qed

lemma rq_routed_found:
  assumes "route_match True (ioroute io) (rq_key r) = (Inr a, route')"
  shows "rq_routed env io r =
    c_bind (named_mutex_lock (e_thread env) (e_lock_mem env) (e_lock_addr env) (rq_key r) (nmtx_ns io)) (\<lambda>l.
      case l of None \<Rightarrow> Ret None
      | Some (Some e, ns') \<Rightarrow> io_exit None (Some a) (rq_error r e) (io\<lparr>ioroute := route', nmtx_ns := ns'\<rparr>)
      | Some (None, ns') \<Rightarrow> locked_tail env r a (io\<lparr>ioroute := route', nmtx_ns := ns'\<rparr>))"
  unfolding rq_routed_def io_routed_def locked_tail_def Let_def by (simp add: assms)

lemma run_matching:
  assumes t: "c_thr s t = Matching r" and lock: "lock_inv s" and env: "env_ok env" "e_thread env = t"
    and fresh: "e_lock_addr env \<notin> mid ` set (inorder (ns (c_nm s)))"
    and run: "rq_routed env (conc_io s) r = Ret (Some (x, io'))"
  shows "\<exists>s'. turns ok_rq s s' \<and> c_thr s' = (c_thr s)(t := Ended x) \<and> conc_io s' = io'"
proof -
  obtain y route' where match: "route_match True (c_route s) (rq_key r) = (y, route')" by fastforce
  show ?thesis
  proof (cases y)
    case (Inl e)
    define s1 where "s1 = s\<lparr>c_route := route', c_thr := (c_thr s)(t := Ended (rq_error r e))\<rparr>"
    have "io_step ok_rq s s1" unfolding s1_def using io_step.unmatched [OF t match [unfolded Inl]] .
    moreover from run match Inl have "x = rq_error r e" "conc_io s1 = io'"
      by (auto simp: rq_routed_def io_routed_def conc_io_def io_exit_def cleanup_def s1_def)
    ultimately show ?thesis by (auto simp: s1_def)
  next
    case (Inr a)
    define s1 where "s1 = s\<lparr>c_route := route', c_thr := (c_thr s)(t := Routed r a)\<rparr>"
    have step: "io_step ok_rq s s1" unfolding s1_def using io_step.matched [OF t match [unfolded Inr]] .
    have lock1: "lock_inv s1" using lock_inv_step [OF step lock] .
    have thr: "c_thr s1 t = Routed r a" "e_lock_addr env \<notin> mid ` set (inorder (ns (c_nm s1)))"
      using fresh by (simp_all add: s1_def)
    have io: "ns (c_nm s1) = nmtx_ns (conc_io s)" "(conc_io s1)\<lparr>nmtx_ns := n\<rparr> = (conc_io s)\<lparr>ioroute := route', nmtx_ns := n\<rparr>" for n
      by (simp_all add: s1_def conc_io_def)
    have match': "route_match True (ioroute (conc_io s)) (rq_key r) = (Inr a, route')" using match Inr by (simp add: conc_io_def)
    have "\<exists>s'. turns ok_rq s1 s' \<and> c_thr s' = (c_thr s1)(t := Ended x) \<and> conc_io s' = io'"
      by (rule run_routed [OF thr(1) lock1 env thr(2)])
        (use run in \<open>simp only: io rq_routed_found [OF match'] env(2)\<close>)
    moreover have "(c_thr s1)(t := Ended x) = (c_thr s)(t := Ended x)" by (simp add: s1_def)
    ultimately show ?thesis using step by (metis converse_rtranclp_into_rtranclp)
  qed
qed

text \<open>The first steps of a request: on to the route, or out with what the cache has.\<close>

lemma run_begun:
  assumes t: "c_thr s t = Begun r" and run: "rq_run env (conc_io s) r = Ret (Some (x, io'))"
  shows "\<exists>s1. io_step ok_rq s s1 \<and> c_nm s1 = c_nm s \<and>
    (c_thr s1 = (c_thr s)(t := Ended x) \<and> conc_io s1 = io' \<or>
     c_thr s1 = (c_thr s)(t := Matching r) \<and> rq_routed env (conc_io s1) r = Ret (Some (x, io')))"
proof (cases "c_cache s = None \<or> (\<forall>k. r \<noteq> RGet k)")
  case True
  let ?s = "s\<lparr>c_thr := (c_thr s)(t := Matching r)\<rparr>"
  have "rq_routed env (conc_io ?s) r = Ret (Some (x, io'))"
    using run True by (auto simp: rq_run_routed conc_io_def split: rq.splits)
  moreover have "c_thr ?s = (c_thr s)(t := Matching r)" by simp
  ultimately show ?thesis using io_step.skip [OF t True, of ok_rq] by (intro exI [of _ ?s]) simp
next
  case False
  then obtain k c where k: "r = RGet k" "c_cache s = Some c" by auto
  obtain y c' where get: "cache_get (e_get_mem env) (e_now env) c k = Ret (y, c')"
    using run k by (cases "cache_get (e_get_mem env) (e_now env) c k") (auto simp: rq_run_routed conc_io_def)
  show ?thesis
  proof (cases "y = Inl ENOENT")
    case True
    let ?s = "s\<lparr>c_cache := Some c', c_thr := (c_thr s)(t := Matching r)\<rparr>"
    have "rq_routed env (conc_io ?s) r = Ret (Some (x, io'))"
      using run k get True by (simp add: rq_run_routed conc_io_def)
    moreover have "io_step ok_rq s ?s" using io_step.miss [of s t k c "e_get_mem env" "e_now env" c' ok_rq] t k get True by simp
    ultimately show ?thesis by (intro exI [of _ ?s]) simp
  next
    case False
    let ?s = "s\<lparr>c_cache := Some c', c_thr := (c_thr s)(t := Ended (Got y))\<rparr>"
    have "x = Got y" "conc_io ?s = io'" using run k get False by (simp_all add: rq_run_routed conc_io_def)
    moreover have "io_step ok_rq s ?s" using io_step.hit [of s t k c "e_get_mem env" "e_now env" y c' ok_rq] t k get False by simp
    ultimately show ?thesis by (intro exI [of _ ?s]) simp
  qed
qed

lemma run_alone:
  assumes t: "c_thr s t = Rest" "ok_rq r" and lock: "lock_inv s" and env: "env_ok env" "e_thread env = t"
    and fresh: "e_lock_addr env \<notin> mid ` set (inorder (ns (c_nm s)))"
    and run: "rq_run env (conc_io s) r = Ret (Some (x, io'))"
  shows "\<exists>s'. turns ok_rq s s' \<and> c_thr s' = (c_thr s)(t := Ended x) \<and> conc_io s' = io'"
proof -
  define s0 where "s0 = s\<lparr>c_thr := (c_thr s)(t := Begun r)\<rparr>"
  have step0: "io_step ok_rq s s0" unfolding s0_def using io_step.started [of s t ok_rq r] t by simp
  have s0: "c_thr s0 t = Begun r" "conc_io s0 = conc_io s" "c_nm s0 = c_nm s" "\<And>p. (c_thr s0)(t := p) = (c_thr s)(t := p)"
    by (simp_all add: s0_def conc_io_def)
  from run s0(2) have "rq_run env (conc_io s0) r = Ret (Some (x, io'))" by simp
  from run_begun [OF s0(1) this, of ok_rq] obtain s1 where step1: "io_step ok_rq s0 s1" "c_nm s1 = c_nm s"
    and "c_thr s1 = (c_thr s)(t := Ended x) \<and> conc_io s1 = io' \<or>
      c_thr s1 = (c_thr s)(t := Matching r) \<and> rq_routed env (conc_io s1) r = Ret (Some (x, io'))" using s0(3,4) by auto
  then consider (hit) "c_thr s1 = (c_thr s)(t := Ended x)" "conc_io s1 = io'"
    | (miss) "c_thr s1 = (c_thr s)(t := Matching r)" "rq_routed env (conc_io s1) r = Ret (Some (x, io'))" by blast
  then have "\<exists>s'. turns ok_rq s1 s' \<and> c_thr s' = (c_thr s)(t := Ended x) \<and> conc_io s' = io'"
  proof cases
    case miss
    have "lock_inv s1" using lock_inv_step [OF step1(1) lock_inv_step [OF step0 lock]] .
    with run_matching [of s1 t r env x io' ok_rq] miss env fresh step1(2) show ?thesis by simp
  qed blast
  with turns2 [OF step0 step1(1)] show ?thesis by blast
qed

end
