(* ===== verification/Daemon_Chain.thy ===== *)
theory Daemon_Chain
  imports Io_Protocol
begin

text \<open>
  A daemon as the storage of another: the unix storage of \<^verbatim>\<open>lib/builtin/unix.c\<close> whose peer is the worker
  of \<^verbatim>\<open>lib/io_server.c\<close> in front of a daemon's state. If the storages of that daemon keep their contract,
  so does the unix storage, with the keys and values they accept; a daemon in front of it is then
  again a good backend, and so on along any chain.
\<close>

section \<open>The peer\<close>

text \<open>
  One request on a connection to a daemon, answered by a turn of its worker. A request that would
  wait for its key there, or that kills the daemon, gives no answer: \<open>UB\<close>.
\<close>

definition daemon_ask :: "io_env \<Rightarrow> byte list \<Rightarrow> 'w io_ctx unix_peer" where
  "daemon_ask env stack target request io =
     c_bind (worker_turn env True stack io request) (\<lambda>r.
       case r of None \<Rightarrow> UB | Some (out, rest, io') \<Rightarrow> Ret (Inr out, io'))"

definition chain_keys :: "'w route_list \<Rightarrow> (string \<Rightarrow> bool) \<Rightarrow> string \<Rightarrow> bool" where
  "chain_keys route keys k \<longleftrightarrow> keys k \<and> no_nul k \<and> length k < NAME_MAX \<and> (\<exists>i \<in> set route. serves k i)"

lemma daemon_ask_answer:
  assumes "request_ok r" "answer env io r = Ret (Some (out, io'))"
  shows "daemon_ask env stack target (request_bytes created r) io = Ret (Inr out, io')"
  using worker_turn_answer [OF assms(1), of env stack io created "[]"] assms(2)
  by (simp add: daemon_ask_def)

section \<open>What comes back\<close>

lemma log_wf: "value_wf v \<Longrightarrow> log_value v = Ret ()"
  using value_fmt_wf [of v 256 "\<lambda>_. []" "\<lambda>_. []" False] by (auto simp: log_value_def)

lemma io_end_errno:
  assumes "errno_ok e"
  obtains e' where "io_end (wire_int (errno_code e)) = (Some e', [])" "errno_ok e'"
proof
  let ?n = "signed_take_bit 31 (errno_code e)"
  have n: "?n \<noteq> 0" using assms by (simp add: errno_ok_def)
  then show "io_end (wire_int (errno_code e)) = (Some (errno_of ?n), [])"
    by (simp add: io_end_def unwire_wire_int)
  show "errno_ok (errno_of ?n)" using n by (simp add: errno_ok_def)
qed

lemma io_end_result:
  assumes "\<forall>e. r = Some e \<longrightarrow> errno_ok e"
  shows "\<exists>r'. io_end (wire_int (result_code r)) = (r', []) \<and> (r' = None \<longleftrightarrow> r = None) \<and> (\<forall>e. r' = Some e \<longrightarrow> errno_ok e)"
proof (cases r)
  case None
  then show ?thesis by (simp add: result_code_def io_end_ok)
next
  case (Some e)
  with assms io_end_errno [of e] show ?thesis by (auto simp: result_code_def)
qed

lemma unix_get_any:
  assumes "value_ok v"
  shows "unix_get True (wire_i64 d @ value_bytes v @ wire_int 0) = (Inr (v, i64 d), [])"
  using assms value_head_bytes [of v "wire_int 0"] drop_value_bytes [of v "wire_int 0"]
  by (simp add: unix_get_def Let_def io_end_ok value_ok_def unwire_wire_i64_mod)

lemma unix_get_failed:
  assumes "errno_ok e"
  shows "\<exists>e'. unix_get True (wire_i64 0 @ [0, 0, 0, 0, 0] @ wire_int (errno_code e)) = (Inl e', []) \<and> errno_ok e'"
proof -
  obtain e' where "io_end (wire_int (errno_code e)) = (Some e', [])" "errno_ok e'" using io_end_errno [OF assms] .
  then show ?thesis by (simp add: unix_get_def Let_def value_head_def)
qed

text \<open>The three operations of the storage over a daemon, from the outcome of the daemon's own request.\<close>

abbreviation daemon_storage :: "io_env \<Rightarrow> byte list \<Rightarrow> timestamp \<Rightarrow> string \<Rightarrow> 'w io_ctx storage_ctx" where
  "daemon_storage env stack created name \<equiv> unix_storage (daemon_ask env stack) True created name"

lemma remote_get_value:
  assumes "no_nul k" "length k < NAME_MAX" "io_get env io k = Ret (Some (Inr (v, d), io'))" "value_wf v"
  shows "storage_get (daemon_storage env stack created name) io k = Ret (Inr (v, i64 d), io')"
proof -
  have "answer env io (Req_get k) = Ret (Some (wire_i64 d @ value_bytes v @ wire_int 0, io'))"
    using assms(3) by simp
  then have "daemon_ask env stack name (io_begin io_get_t created k None) io =
      Ret (Inr (wire_i64 d @ value_bytes v @ wire_int 0), io')"
    using daemon_ask_answer [of "Req_get k" env io _ io' stack name created] assms(1,2) by simp
  with assms(4) unix_get_any [of v d] show ?thesis
    by (simp add: storage_get_def unix_storage_def forward_def log_wf value_wf_def)
qed

lemma remote_get_error:
  assumes "no_nul k" "length k < NAME_MAX" "io_get env io k = Ret (Some (Inl e, io'))" "errno_ok e"
  shows "\<exists>e'. storage_get (daemon_storage env stack created name) io k = Ret (Inl e', io') \<and> errno_ok e'"
proof -
  have "answer env io (Req_get k) = Ret (Some (wire_i64 0 @ [0, 0, 0, 0, 0] @ wire_int (errno_code e), io'))"
    using assms(3) by simp
  then have "daemon_ask env stack name (io_begin io_get_t created k None) io =
      Ret (Inr (wire_i64 0 @ [0, 0, 0, 0, 0] @ wire_int (errno_code e)), io')"
    using daemon_ask_answer [of "Req_get k" env io _ io' stack name created] assms(1,2) by simp
  with unix_get_failed [OF assms(4)] show ?thesis
    by (auto simp: storage_get_def unix_storage_def forward_def)
qed

lemma remote_set_result:
  assumes "no_nul k" "length k < NAME_MAX" "value_wf v"
    and "io_set env io k v = Ret (Some (r, io'))" "\<forall>e. r = Some e \<longrightarrow> errno_ok e"
  shows "\<exists>r'. storage_set (daemon_storage env stack created name) io k v = Ret (r', io') \<and> (r' = None \<longleftrightarrow> r = None) \<and> (\<forall>e. r' = Some e \<longrightarrow> errno_ok e)"
proof -
  have "answer env io (Req_set k v) = Ret (Some (wire_int (result_code r), io'))" using assms(4) by simp
  then have "daemon_ask env stack name (io_begin io_set_t created k (Some v)) io = Ret (Inr (wire_int (result_code r)), io')"
    using daemon_ask_answer [of "Req_set k v" env io _ io' stack name created] assms(1-3) by (simp add: value_wf_def)
  with io_end_result [OF assms(5)] show ?thesis
    using log_wf [OF assms(3)] by (auto simp: storage_set_def unix_storage_def forward_def)
qed

lemma remote_del_result:
  assumes "no_nul k" "length k < NAME_MAX" "io_del env io k = Ret (Some (r, io'))" "\<forall>e. r = Some e \<longrightarrow> errno_ok e"
  shows "\<exists>r'. storage_del (daemon_storage env stack created name) io k = Ret (r', io') \<and> (r' = None \<longleftrightarrow> r = None) \<and> (\<forall>e. r' = Some e \<longrightarrow> errno_ok e)"
proof -
  have "answer env io (Req_del k) = Ret (Some (wire_int (result_code r), io'))" using assms(3) by simp
  then have "daemon_ask env stack name (io_begin io_del_t created k None) io = Ret (Inr (wire_int (result_code r)), io')"
    using daemon_ask_answer [of "Req_del k" env io _ io' stack name created] assms(1,2) by simp
  with io_end_result [OF assms(4)] show ?thesis
    by (auto simp: storage_del_def unix_storage_def forward_def)
qed

section \<open>The contract along a chain\<close>

context io_backend
begin

lemma chain_served:
  assumes "chain_keys route keys k"
  obtains i where "List.find (serves k) route = Some i" "keys k" "no_nul k" "length k < NAME_MAX"
  using assms by (cases "List.find (serves k) route") (auto simp: chain_keys_def find_None_iff)

lemma remote_kv:
  assumes env: "env_ok env"
  shows "kv_storage (daemon_storage env stack created name) coh (\<lambda>io. backing (ioworld io)) (chain_keys route keys) vals"
proof
  fix io k v
  assume io: "coh io" and "chain_keys route keys k" and v: "backing (ioworld io) k = Some v"
  then obtain i where i: "List.find (serves k) route = Some i" and k: "keys k" "no_nul k" "length k < NAME_MAX"
    using chain_served by metis
  have vals: "vals v" using served_get [OF i coherentD(2) [OF io] k(1) v] by blast
  obtain d io' where "io_get env io k = Ret (Some (Inr (v, d), io'))" "coh io'" "backing (ioworld io') = backing (ioworld io)"
    using get_coherent [OF io env k(1) i] v by auto
  with remote_get_value [OF k(2,3)] vals_wf [OF vals] vals
  show "vals v \<and> (\<exists>w' d. storage_get (daemon_storage env stack created name) io k = Ret (Inr (v, d), w') \<and> coh w' \<and>
      backing (ioworld w') = backing (ioworld io))" by blast
next
  fix io k
  assume io: "coh io" and "chain_keys route keys k" and none: "backing (ioworld io) k = None"
  then obtain i where i: "List.find (serves k) route = Some i" and k: "keys k" "no_nul k" "length k < NAME_MAX"
    using chain_served by metis
  obtain e io' where "io_get env io k = Ret (Some (Inl e, io'))" "errno_ok e" "coh io'" "backing (ioworld io') = backing (ioworld io)"
    using get_coherent [OF io env k(1) i] none by auto
  with remote_get_error [OF k(2,3)]
  show "\<exists>w' e. storage_get (daemon_storage env stack created name) io k = Ret (Inl e, w') \<and> errno_ok e \<and> coh w' \<and>
      backing (ioworld w') = backing (ioworld io)" by blast
next
  fix io k v
  assume io: "coh io" and "chain_keys route keys k" and v: "vals v"
  then obtain i where i: "List.find (serves k) route = Some i" and k: "keys k" "no_nul k" "length k < NAME_MAX"
    using chain_served by metis
  obtain r io' where set: "io_set env io k v = Ret (Some (r, io'))" "\<forall>e. r = Some e \<longrightarrow> errno_ok e" and rest: "coh io'"
    "backing (ioworld io') k = (if r = None then Some v else backing (ioworld io) k)"
    "\<forall>j. keys j \<longrightarrow> j \<noteq> k \<longrightarrow> backing (ioworld io') j = backing (ioworld io) j"
    using routed_set [OF io env k(1) v i] by blast
  obtain r' where "storage_set (daemon_storage env stack created name) io k v = Ret (r', io')" "r' = None \<longleftrightarrow> r = None"
    "\<forall>e. r' = Some e \<longrightarrow> errno_ok e"
    using remote_set_result [OF k(2,3) vals_wf [OF v] set] by blast
  with rest show "\<exists>r w'. storage_set (daemon_storage env stack created name) io k v = Ret (r, w') \<and>
      (\<forall>e. r = Some e \<longrightarrow> errno_ok e) \<and> coh w' \<and>
      backing (ioworld w') k = (if r = None then Some v else backing (ioworld io) k) \<and>
      (\<forall>j. chain_keys route keys j \<longrightarrow> j \<noteq> k \<longrightarrow> backing (ioworld w') j = backing (ioworld io) j)"
    by (auto simp: chain_keys_def)
next
  fix io k
  assume io: "coh io" and "chain_keys route keys k"
  then obtain i where i: "List.find (serves k) route = Some i" and k: "keys k" "no_nul k" "length k < NAME_MAX"
    using chain_served by metis
  obtain r io' where del: "io_del env io k = Ret (Some (r, io'))" "\<forall>e. r = Some e \<longrightarrow> errno_ok e" and rest: "coh io'"
    "backing (ioworld io') k = (if r = None then None else backing (ioworld io) k)"
    "\<forall>j. keys j \<longrightarrow> j \<noteq> k \<longrightarrow> backing (ioworld io') j = backing (ioworld io) j"
    using routed_del [OF io env k(1) i] by blast
  obtain r' where "storage_del (daemon_storage env stack created name) io k = Ret (r', io')" "r' = None \<longleftrightarrow> r = None"
    "\<forall>e. r' = Some e \<longrightarrow> errno_ok e"
    using remote_del_result [OF k(2,3) del] by blast
  with rest show "\<exists>r w'. storage_del (daemon_storage env stack created name) io k = Ret (r, w') \<and>
      (\<forall>e. r = Some e \<longrightarrow> errno_ok e) \<and> coh w' \<and>
      backing (ioworld w') k = (if r = None then None else backing (ioworld io) k) \<and>
      (\<forall>j. chain_keys route keys j \<longrightarrow> j \<noteq> k \<longrightarrow> backing (ioworld w') j = backing (ioworld io) j)"
    by (auto simp: chain_keys_def)
qed (rule vals_wf)

end

text \<open>A daemon whose only storage is another daemon, as a backend.\<close>

abbreviation child_item :: "io_env \<Rightarrow> byte list \<Rightarrow> timestamp \<Rightarrow> string \<Rightarrow> nat \<Rightarrow> string list \<Rightarrow> 'w io_ctx route_item" where
  "child_item env stack created name a prefixes \<equiv>
     \<lparr>addr = a, storage = daemon_storage env stack created name, prefix = prefixes, nref = 0\<rparr>"

lemma daemon_backend:
  assumes "io_backend route ok backing keys vals" "env_ok env"
  shows "io_backend [child_item env stack created name a prefixes] (coherent route ok backing keys)
    (\<lambda>io. backing (ioworld io)) (chain_keys route keys) vals"
  by (rule kv_storage_backend) (simp add: io_backend.remote_kv [OF assms])

end
