(* ===== verification/Server.thy ===== *)
theory Server
  imports Value Misc
begin

text \<open>
  The servers of a daemon and the connections to them, as users of the operating system:
  \<^verbatim>\<open>start_io_server\<close> and \<^verbatim>\<open>server\<close> of \<^verbatim>\<open>lib/io_server.c\<close>, the same of \<^verbatim>\<open>lib/ctrl_server.c\<close>,
  \<^verbatim>\<open>ctrl_init\<close> of \<^verbatim>\<open>lib/ctrl_client.c\<close>, \<^verbatim>\<open>io_connect\<close> and \<^verbatim>\<open>unix_stream_discard\<close> of
  \<^verbatim>\<open>lib/builtin/unix.c\<close>. What is tracked is what they hold: descriptors, socket files, allocations and
  threads. Each call that may fail has its outcome as an argument, \<open>None\<close> for success.
\<close>

section \<open>Resources\<close>

record os =
  fds :: "nat list"
  bound :: "string list" \<comment> \<open>the socket files\<close>
  allocs :: int
  threads :: int

text \<open>The kernel hands out the lowest descriptor that is not in use.\<close>

definition next_fd :: "os \<Rightarrow> nat" where
  "next_fd os = hd (filter (\<lambda>n. n \<notin> set (fds os)) [0..<Suc (length (fds os))])"

definition sys_socket :: "os \<Rightarrow> os" where
  "sys_socket os = os\<lparr>fds := next_fd os # fds os\<rparr>"

definition sys_close :: "nat \<Rightarrow> os \<Rightarrow> os" where
  "sys_close fd os = os\<lparr>fds := remove1 fd (fds os)\<rparr>"

definition sys_alloc :: "int \<Rightarrow> os \<Rightarrow> os" where
  "sys_alloc n os = os\<lparr>allocs := allocs os + n\<rparr>"

definition sys_free :: "int \<Rightarrow> os \<Rightarrow> os" where
  "sys_free n os = os\<lparr>allocs := allocs os - n\<rparr>"

abbreviation EADDRINUSE :: errno where "EADDRINUSE \<equiv> Eother 98"

text \<open>A path that is already there cannot be bound again.\<close>

definition sys_bind :: "errno option \<Rightarrow> string \<Rightarrow> os \<Rightarrow> errno option" where
  "sys_bind err path os = (if path \<in> set (bound os) then Some EADDRINUSE else err)"

definition sys_unlink :: "string \<Rightarrow> os \<Rightarrow> os" where
  "sys_unlink path os = os\<lparr>bound := remove1 path (bound os)\<rparr>"

text \<open>The size of \<^verbatim>\<open>sun_path\<close>; a longer path is cut.\<close>

abbreviation SUN_PATH :: nat where "SUN_PATH \<equiv> 108"

definition io_server_path :: "string \<Rightarrow> string \<Rightarrow> string" where
  "io_server_path at name = snprintf SUN_PATH (at @ ''/propd.'' @ name @ ''.io'')"

definition ctrl_server_path :: "string \<Rightarrow> string \<Rightarrow> string" where
  "ctrl_server_path at name = snprintf SUN_PATH (at @ ''/propd.'' @ name @ ''.ctrl'')"

section \<open>Starting a server\<close>

record srv_env =
  s_mem :: alloc
  s_socket :: "errno option"
  s_bind :: "errno option"
  s_listen :: "errno option"
  s_thread :: "errno option"

text \<open>A running server: its socket, its path, the allocations it owns.\<close>

record server =
  s_fd :: nat
  s_path :: string
  s_own :: int

text \<open>
  The common end of both starts, from the socket on; \<open>listens\<close> for the stream socket of the request
  server. The thread is handed to the caller (\<^verbatim>\<open>tid\<close> is not NULL).
\<close>

definition start_on_socket :: "srv_env \<Rightarrow> bool \<Rightarrow> string \<Rightarrow> int \<Rightarrow> os \<Rightarrow> (errno + server) \<times> os" where
  "start_on_socket env listens path own os =
     (case s_socket env of
        Some e \<Rightarrow> (Inl e, sys_free own os) \<comment> \<open>\<open>exit_ctx\<close>\<close>
      | None \<Rightarrow>
          let fd = next_fd os; os = sys_socket os
          in case sys_bind (s_bind env) path os of
              Some e \<Rightarrow> (Inl e, sys_free own (sys_close fd os)) \<comment> \<open>\<open>exit_listenfd\<close>\<close>
            | None \<Rightarrow>
                let os = os\<lparr>bound := path # bound os\<rparr>
                in case (if listens then s_listen env else None) of
                    Some e \<Rightarrow> (Inl e, sys_free own (sys_close fd (sys_unlink path os))) \<comment> \<open>\<open>exit_sun_path\<close>\<close>
                  | None \<Rightarrow>
                      (case s_thread env of
                         Some e \<Rightarrow> (Inl e, sys_free own (sys_close fd (sys_unlink path os)))
                       | None \<Rightarrow> (Inr \<lparr>s_fd = fd, s_path = path, s_own = own\<rparr>, os\<lparr>threads := threads os + 1\<rparr>)))"

definition start_io_server :: "srv_env \<Rightarrow> string \<Rightarrow> string \<Rightarrow> os \<Rightarrow> (errno + server) \<times> os" where
  "start_io_server env at name os =
     (if \<not> s_mem env 0 then (Inl ENOMEM, os)
      else start_on_socket env True (io_server_path at name) 1 (sys_alloc 1 os))"

text \<open>The copies of the name, of the keys and of the patterns: an array and its strings are freed together.\<close>

definition start_ctrl_server ::
  "srv_env \<Rightarrow> string \<Rightarrow> string \<Rightarrow> string list option \<Rightarrow> string list option \<Rightarrow> os \<Rightarrow> ((errno + server) \<times> os) c_out" where
  "start_ctrl_server env at name cache_now prefixes os =
     (let cells = map_option (\<lambda>ss. map Some ss @ [None]); size = \<lambda>ss. 1 + int (length ss)
      in if \<not> s_mem env 0 then Ret (Inl ENOMEM, os)
         else if \<not> s_mem env 1 then Ret (Inl ENOMEM, sys_free 1 (sys_alloc 1 os))
         else c_bind (arraydup_cstring (\<lambda>i. s_mem env (i + 2)) (cells cache_now) 0) (\<lambda>cs.
           case cs of
             None \<Rightarrow> Ret (Inl ENOMEM, sys_free 2 (sys_alloc 2 os))
           | Some cs \<Rightarrow>
               let k = length cs + 3
               in c_bind (arraydup_cstring (\<lambda>i. s_mem env (i + k)) (cells prefixes) 0) (\<lambda>ps.
                    case ps of
                      None \<Rightarrow> Ret (Inl ENOMEM, sys_free (2 + size cs) (sys_alloc (2 + size cs) os))
                    | Some ps \<Rightarrow>
                        let own = 2 + size cs + size ps
                        in Ret (start_on_socket env False (ctrl_server_path at name) own (sys_alloc own os)))))"

section \<open>The loops\<close>

text \<open>\<^verbatim>\<open>server_cleanup\<close>, run when the loop ends and when the thread is cancelled.\<close>

definition server_cleanup :: "server \<Rightarrow> os \<Rightarrow> os" where
  "server_cleanup srv os = sys_free (s_own srv) (sys_close (s_fd srv) (sys_unlink (s_path srv) os))"

text \<open>
  What a turn of the loop meets. A failing \<^verbatim>\<open>accept\<close> or \<^verbatim>\<open>recvfrom\<close> is left by \<^verbatim>\<open>break\<close> or \<^verbatim>\<open>continue\<close> from
  between \<^verbatim>\<open>pthread_cleanup_push\<close> and \<^verbatim>\<open>pthread_cleanup_pop\<close>, which is undefined.
\<close>

datatype turn = Arrival | Failure | No_memory nat | Cancelled

text \<open>
  The loop with \<open>n\<close> allocations per turn, of which \<open>No_memory i\<close> is the failure of the \<open>i\<close>-th one; \<open>conn\<close>
  is whether an arrival brings a descriptor. An arrival's allocations and its descriptor go to the task
  that is submitted; a submission that waits for room in the pool's queue, and a cancellation while it waits,
  are not turns of this model. The result: the number of tasks submitted, the resources, whether the loop still
  runs, blocked with the allocations of its turn.
\<close>

fun server_loop :: "nat \<Rightarrow> bool \<Rightarrow> server \<Rightarrow> turn list \<Rightarrow> nat \<Rightarrow> os \<Rightarrow> (nat \<times> os \<times> bool) c_out" where
  "server_loop n conn srv [] tasks os = Ret (tasks, sys_alloc (int n) os, True)"
| "server_loop n conn srv (Arrival # ts) tasks os =
     server_loop n conn srv ts (tasks + 1) (if conn then sys_socket (sys_alloc (int n) os) else sys_alloc (int n) os)"
| "server_loop n conn srv (Failure # ts) tasks os = UB"
| "server_loop n conn srv (No_memory i # ts) tasks os =
     Ret (tasks, server_cleanup srv (sys_free (int i) (sys_alloc (int i) os)), False)"
| "server_loop n conn srv (Cancelled # ts) tasks os =
     Ret (tasks, server_cleanup srv (sys_free (int n) (sys_alloc (int n) os)), False)"

definition io_server :: "server \<Rightarrow> turn list \<Rightarrow> os \<Rightarrow> (nat \<times> os \<times> bool) c_out" where
  "io_server srv ts os = server_loop 1 True srv ts 0 os"

definition ctrl_server :: "server \<Rightarrow> turn list \<Rightarrow> os \<Rightarrow> (nat \<times> os \<times> bool) c_out" where
  "ctrl_server srv ts os = server_loop 2 False srv ts 0 os"

text \<open>\<^verbatim>\<open>pthread_cancel\<close> and \<^verbatim>\<open>pthread_join\<close> of a server thread that waits.\<close>

definition stop_server :: "nat \<Rightarrow> server \<Rightarrow> os \<Rightarrow> os" where
  "stop_server n srv os = (server_cleanup srv (sys_free (int n) os))\<lparr>threads := threads os - 1\<rparr>"

section \<open>Connections\<close>

record conn_env =
  k_socket :: "errno option"
  k_bind :: "errno option"
  k_connect :: "errno option"
  k_mem :: bool

text \<open>The client binds to a random name that is no file. Any failure of \<^verbatim>\<open>connect\<close> is \<open>ENXIO\<close>.\<close>

definition io_connect :: "conn_env \<Rightarrow> os \<Rightarrow> (errno + nat) \<times> os" where
  "io_connect env os =
     (case k_socket env of
        Some e \<Rightarrow> (Inl e, os)
      | None \<Rightarrow>
          let fd = next_fd os; os = sys_socket os
          in case k_bind env of
              Some e \<Rightarrow> (Inl e, sys_close fd os)
            | None \<Rightarrow> (case k_connect env of Some e \<Rightarrow> (Inl ENXIO, sys_close fd os) | None \<Rightarrow> (Inr fd, os)))"

definition io_disconnect :: "nat \<Rightarrow> os \<Rightarrow> os" where
  "io_disconnect fd os = sys_close fd os"

text \<open>\<^verbatim>\<open>ctrl_init\<close>; without memory for the package it returns and keeps the socket.\<close>

definition ctrl_init :: "conn_env \<Rightarrow> os \<Rightarrow> (errno + nat) \<times> os" where
  "ctrl_init env os =
     (case k_socket env of
        Some e \<Rightarrow> (Inl e, os)
      | None \<Rightarrow>
          let fd = next_fd os; os = sys_socket os
          in case k_bind env of
              Some e \<Rightarrow> (Inl e, sys_close fd os)
            | None \<Rightarrow> if \<not> k_mem env then (Inl ENOMEM, os) else (Inr fd, sys_alloc 1 os))"

text \<open>
  \<^verbatim>\<open>unix_stream_discard\<close>: reads of 16 bytes, not waiting, until one gets less; what is left of the bytes
  that have arrived.
\<close>

function unix_stream_discard :: "byte list \<Rightarrow> byte list" where
  "unix_stream_discard avail =
     (if length avail < 16 then drop 16 avail else unix_stream_discard (drop 16 avail))"
  by pat_completeness auto
termination by (relation "measure length") auto

declare unix_stream_discard.simps [simp del]

section \<open>Lemmas\<close>

lemma next_fd_fresh: "next_fd os \<notin> set (fds os)"
proof -
  have "\<exists>n \<in> set [0..<Suc (length (fds os))]. n \<notin> set (fds os)"
  proof (rule ccontr)
    assume "\<not> ?thesis"
    then have "set [0..<Suc (length (fds os))] \<subseteq> set (fds os)" by blast
    from card_mono [OF _ this] have "Suc (length (fds os)) \<le> card (set (fds os))" by simp
    with card_length [of "fds os"] show False by simp
  qed
  then have "filter (\<lambda>n. n \<notin> set (fds os)) [0..<Suc (length (fds os))] \<noteq> []" unfolding filter_empty_conv by blast
  from hd_in_set [OF this] show ?thesis unfolding next_fd_def set_filter by blast
qed

lemma close_socket [simp]: "sys_close (next_fd os) (sys_socket os) = os"
  by (simp add: sys_close_def sys_socket_def)

lemma free_alloc [simp]: "sys_free n (sys_alloc n os) = os"
  by (simp add: sys_free_def sys_alloc_def)

lemma unlink_bound [simp]: "sys_unlink path (os\<lparr>bound := path # bound os\<rparr>) = os"
  by (simp add: sys_unlink_def)

text \<open>Giving things back commutes, so that they may be given back in any order.\<close>

lemma give_back_commute:
  "sys_free n (sys_close fd os) = sys_close fd (sys_free n os)"
  "sys_free n (sys_unlink p os) = sys_unlink p (sys_free n os)"
  "sys_close fd (sys_unlink p os) = sys_unlink p (sys_close fd os)"
  by (simp_all add: sys_free_def sys_close_def sys_unlink_def)

text \<open>What a started server holds on top of \<open>os\<close>.\<close>

definition with_server :: "server \<Rightarrow> os \<Rightarrow> os" where
  "with_server srv os =
     os\<lparr>fds := s_fd srv # fds os, bound := s_path srv # bound os, allocs := allocs os + s_own srv,
       threads := threads os + 1\<rparr>"

lemma start_on_socket_cases:
  obtains (failed) e where "start_on_socket env listens path own (sys_alloc own os) = (Inl e, os)"
  | (started) srv where "start_on_socket env listens path own (sys_alloc own os) = (Inr srv, with_server srv os)"
      "s_fd srv \<notin> set (fds os)" "s_path srv = path" "path \<notin> set (bound os)"
proof -
  have fd: "next_fd (sys_alloc own os) = next_fd os" by (simp add: next_fd_def sys_alloc_def)
  have fresh: "next_fd os \<notin> set (fds os)" by (rule next_fd_fresh)
  let ?os = "sys_socket (sys_alloc own os)"
  have closed: "sys_free own (sys_close (next_fd os) ?os) = os" using close_socket [of "sys_alloc own os"] by (simp add: fd)
  have unbound: "sys_free own (sys_close (next_fd os) (sys_unlink path (?os\<lparr>bound := path # bound ?os\<rparr>))) = os"
    by (simp only: unlink_bound closed)
  show thesis
  proof (cases "s_socket env")
    case (Some e)
    then show thesis using failed by (simp add: start_on_socket_def)
  next
    case None
    note socket = None
    show thesis
    proof (cases "sys_bind (s_bind env) path ?os")
      case (Some e)
      with socket closed failed show thesis by (simp add: start_on_socket_def Let_def fd)
    next
      case None
      then have path: "path \<notin> set (bound os)" by (simp add: sys_bind_def sys_socket_def sys_alloc_def split: if_splits)
      show thesis
      proof (cases "(if listens then s_listen env else None) = None \<and> s_thread env = None")
        case True
        with socket None started [of "\<lparr>s_fd = next_fd os, s_path = path, s_own = own\<rparr>"] fresh path show thesis
          by (simp add: start_on_socket_def Let_def fd fd [unfolded sys_alloc_def] with_server_def sys_socket_def sys_alloc_def)
      next
        case False
        then obtain e where "(if listens then s_listen env else None) = Some e \<or>
            (if listens then s_listen env else None) = None \<and> s_thread env = Some e"
          by (cases "if listens then s_listen env else None") auto
        with socket None unbound failed [of e] show thesis
          by (elim disjE conjE) (simp_all only: start_on_socket_def Let_def fd option.case)
      qed
    qed
  qed
qed

lemma start_io_server_cases:
  obtains (failed) e where "start_io_server env at name os = (Inl e, os)"
  | (started) srv where "start_io_server env at name os = (Inr srv, with_server srv os)"
      "s_fd srv \<notin> set (fds os)" "s_path srv = io_server_path at name" "s_path srv \<notin> set (bound os)"
proof (cases "s_mem env 0")
  case True
  then have "start_io_server env at name os = start_on_socket env True (io_server_path at name) 1 (sys_alloc 1 os)"
    by (simp add: start_io_server_def)
  with failed started show thesis
    by (cases rule: start_on_socket_cases [of env True "io_server_path at name" 1 os]) auto
next
  case False
  with failed show thesis by (simp add: start_io_server_def)
qed

lemma start_ctrl_server_cases:
  obtains (failed) e where "start_ctrl_server env at name cache_now prefixes os = Ret (Inl e, os)"
  | (started) srv where "start_ctrl_server env at name cache_now prefixes os = Ret (Inr srv, with_server srv os)"
      "s_fd srv \<notin> set (fds os)" "s_path srv = ctrl_server_path at name" "s_path srv \<notin> set (bound os)"
proof -
  let ?cells = "map_option (\<lambda>ss. map Some ss @ [None])"
  obtain r1 where r1: "arraydup_cstring (\<lambda>i. s_mem env (i + 2)) (?cells cache_now) 0 = Ret r1"
    using arraydup_list by blast
  obtain r2 where r2: "arraydup_cstring (\<lambda>i. s_mem env (i + (length (the r1) + 3))) (?cells prefixes) 0 = Ret r2"
    using arraydup_list by blast
  note unfold = start_ctrl_server_def Let_def r1 c_bind.simps
  show thesis
  proof (cases "s_mem env 0 \<and> s_mem env 1")
    case False
    then show thesis using failed [of ENOMEM] unfolding unfold by auto
  next
    case True
    show thesis
    proof (cases r1)
      case None
      with True show thesis using failed [of ENOMEM] unfolding unfold by simp
    next
      case (Some cs)
      note r2 = r2 [unfolded Some option.sel]
      show thesis
      proof (cases r2)
        case None
        with True \<open>r1 = Some cs\<close> r2 show thesis
          using failed [of ENOMEM] unfolding unfold by (simp add: add.commute add.left_commute)
      next
        case (Some ps)
        let ?own = "2 + (1 + int (length cs)) + (1 + int (length ps))"
        have eq: "start_ctrl_server env at name cache_now prefixes os =
            Ret (start_on_socket env False (ctrl_server_path at name) ?own (sys_alloc ?own os))"
          unfolding unfold \<open>r1 = Some cs\<close> option.case r2 Some using True by simp
        show thesis
          by (cases rule: start_on_socket_cases [of env False "ctrl_server_path at name" ?own os])
            (use eq failed started in auto)
      qed
    qed
  qed
qed

lemma server_cleanup_with:
  "server_cleanup srv (with_server srv os) = os\<lparr>threads := threads os + 1\<rparr>"
  by (simp add: server_cleanup_def with_server_def sys_free_def sys_close_def sys_unlink_def)

lemma stop_with_server: "stop_server n srv (sys_alloc (int n) (with_server srv os)) = os"
  by (simp add: stop_server_def server_cleanup_with) (simp add: sys_alloc_def with_server_def)

lemma discard_all: "unix_stream_discard avail = []"
  by (induction avail rule: unix_stream_discard.induct) (subst unix_stream_discard.simps, simp)

text \<open>What \<open>k\<close> arrivals add: their allocations and, on a stream socket, a descriptor each.\<close>

definition with_arrivals :: "nat \<Rightarrow> nat list \<Rightarrow> nat \<Rightarrow> os \<Rightarrow> os" where
  "with_arrivals n cs k os = os\<lparr>fds := cs @ fds os, allocs := allocs os + int n * int k\<rparr>"

lemma loop_arrivals:
  "\<exists>cs. length cs = (if conn then k else 0) \<and> set cs \<inter> set (fds os) = {} \<and>
     server_loop n conn srv (replicate k Arrival @ ts) tasks os = server_loop n conn srv ts (tasks + k) (with_arrivals n cs k os)"
proof (induction k arbitrary: tasks os)
  case 0
  then show ?case by (auto simp: with_arrivals_def)
next
  case (Suc k)
  let ?os = "if conn then sys_socket (sys_alloc (int n) os) else sys_alloc (int n) os"
  obtain cs where cs: "length cs = (if conn then k else 0)" "set cs \<inter> set (fds ?os) = {}"
    "server_loop n conn srv (replicate k Arrival @ ts) (tasks + 1) ?os =
       server_loop n conn srv ts (tasks + 1 + k) (with_arrivals n cs k ?os)"
    using Suc.IH [of ?os "tasks + 1"] by blast
  define fd where "fd = next_fd (sys_alloc (int n) os)"
  have fresh: "fd \<notin> set (fds os)" using next_fd_fresh [of "sys_alloc (int n) os"] by (simp add: fd_def sys_alloc_def)
  let ?cs = "cs @ (if conn then [fd] else [])"
  have "with_arrivals n cs k ?os = with_arrivals n ?cs (Suc k) os"
    by (simp add: with_arrivals_def sys_socket_def fd_def sys_alloc_def algebra_simps)
  moreover have "length ?cs = (if conn then Suc k else 0)" using cs(1) by simp
  moreover have "set ?cs \<inter> set (fds os) = {}"
    using cs(2) fresh by (auto simp: sys_socket_def sys_alloc_def split: if_splits)
  moreover have "server_loop n conn srv (replicate (Suc k) Arrival @ ts) tasks os =
      server_loop n conn srv ts (tasks + Suc k) (with_arrivals n cs k ?os)"
    using cs(3) by simp
  ultimately show ?case by (intro exI [of _ ?cs]) simp
qed

lemma cleanup_arrivals:
  assumes "set cs \<inter> set (fds (with_server srv os)) = {}"
  shows "server_cleanup srv (with_arrivals n cs k (with_server srv os)) = (with_arrivals n cs k os)\<lparr>threads := threads os + 1\<rparr>"
  using assms by (simp add: server_cleanup_def with_arrivals_def with_server_def sys_free_def sys_close_def sys_unlink_def
      remove1_append)

text \<open>The life of a server that was started on \<open>os\<close>: it serves \<open>k\<close> arrivals and is cancelled.\<close>

definition serves_and_stops :: "nat \<Rightarrow> bool \<Rightarrow> server \<Rightarrow> os \<Rightarrow> bool" where
  "serves_and_stops n conn srv os \<longleftrightarrow>
     (\<forall>k. \<exists>cs. length cs = (if conn then k else 0) \<and> set cs \<inter> set (fds os) = {} \<and>
        server_loop n conn srv (replicate k Arrival @ [Cancelled]) 0 (with_server srv os) =
          Ret (k, (with_arrivals n cs k os)\<lparr>threads := threads os + 1\<rparr>, False))"

lemma with_server_stops: "serves_and_stops n conn srv os"
  unfolding serves_and_stops_def
proof
  fix k
  obtain cs where cs: "length cs = (if conn then k else 0)" "set cs \<inter> set (fds (with_server srv os)) = {}"
    "server_loop n conn srv (replicate k Arrival @ [Cancelled]) 0 (with_server srv os) =
       server_loop n conn srv [Cancelled] (0 + k) (with_arrivals n cs k (with_server srv os))"
    using loop_arrivals by blast
  moreover have "set cs \<inter> set (fds os) = {}" using cs(2) by (auto simp: with_server_def)
  ultimately show "\<exists>cs. length cs = (if conn then k else 0) \<and> set cs \<inter> set (fds os) = {} \<and>
      server_loop n conn srv (replicate k Arrival @ [Cancelled]) 0 (with_server srv os) =
        Ret (k, (with_arrivals n cs k os)\<lparr>threads := threads os + 1\<rparr>, False)"
    using cleanup_arrivals [OF cs(2), of n k] by auto
qed

section \<open>Properties\<close>

text \<open>
  C26: starting a server either fails and leaves the system as it was, or leaves a server that holds
  one descriptor, one socket file no other server has and its own allocations; when that server has
  taken any number of connections or packages and is cancelled, these are given back and what remains
  are the tasks it submitted, each with its allocations and its own new descriptor. A call that fails
  in the loop is undefined.
\<close>

theorem server_lifecycle:
  "(case start_io_server env at name os of
      (Inl e, os') \<Rightarrow> os' = os
    | (Inr srv, os') \<Rightarrow> os' = with_server srv os \<and> s_fd srv \<notin> set (fds os) \<and> s_path srv \<notin> set (bound os) \<and>
        (\<forall>k. \<exists>cs. length cs = k \<and> set cs \<inter> set (fds os) = {} \<and>
          io_server srv (replicate k Arrival @ [Cancelled]) os' =
            Ret (k, (with_arrivals 1 cs k os)\<lparr>threads := threads os + 1\<rparr>, False)) \<and>
        (\<forall>k ts. io_server srv (replicate k Arrival @ Failure # ts) os' = UB)) \<and>
   (\<exists>r os'. start_ctrl_server env at name cache_now prefixes os = Ret (r, os') \<and>
      (case r of
         Inl e \<Rightarrow> os' = os
       | Inr srv \<Rightarrow> os' = with_server srv os \<and> s_fd srv \<notin> set (fds os) \<and> s_path srv \<notin> set (bound os) \<and>
           (\<forall>k. ctrl_server srv (replicate k Arrival @ [Cancelled]) os' =
              Ret (k, (with_arrivals 2 [] k os)\<lparr>threads := threads os + 1\<rparr>, False)) \<and>
           (\<forall>k ts. ctrl_server srv (replicate k Arrival @ Failure # ts) os' = UB)))"
proof -
  have ub: "server_loop n conn srv (replicate k Arrival @ Failure # ts) m s = UB" for n conn srv k ts m s
    by (induction k arbitrary: m s) auto
  have io: "\<forall>k. \<exists>cs. length cs = k \<and> set cs \<inter> set (fds os) = {} \<and> io_server srv (replicate k Arrival @ [Cancelled]) (with_server srv os) =
      Ret (k, (with_arrivals 1 cs k os)\<lparr>threads := threads os + 1\<rparr>, False)" for srv
    using with_server_stops [of 1 True srv os] by (simp add: serves_and_stops_def io_server_def)
  have ctrl: "ctrl_server srv (replicate k Arrival @ [Cancelled]) (with_server srv os) =
      Ret (k, (with_arrivals 2 [] k os)\<lparr>threads := threads os + 1\<rparr>, False)" for srv k
    using with_server_stops [of 2 False srv os] by (simp add: serves_and_stops_def ctrl_server_def)
  show ?thesis
  proof
    show "case start_io_server env at name os of
      (Inl e, os') \<Rightarrow> os' = os
    | (Inr srv, os') \<Rightarrow> os' = with_server srv os \<and> s_fd srv \<notin> set (fds os) \<and> s_path srv \<notin> set (bound os) \<and>
        (\<forall>k. \<exists>cs. length cs = k \<and> set cs \<inter> set (fds os) = {} \<and>
          io_server srv (replicate k Arrival @ [Cancelled]) os' =
            Ret (k, (with_arrivals 1 cs k os)\<lparr>threads := threads os + 1\<rparr>, False)) \<and>
        (\<forall>k ts. io_server srv (replicate k Arrival @ Failure # ts) os' = UB)"
      using io by (cases rule: start_io_server_cases [of env at name os]) (simp_all add: io_server_def ub)
    show "\<exists>r os'. start_ctrl_server env at name cache_now prefixes os = Ret (r, os') \<and>
      (case r of
         Inl e \<Rightarrow> os' = os
       | Inr srv \<Rightarrow> os' = with_server srv os \<and> s_fd srv \<notin> set (fds os) \<and> s_path srv \<notin> set (bound os) \<and>
           (\<forall>k. ctrl_server srv (replicate k Arrival @ [Cancelled]) os' =
              Ret (k, (with_arrivals 2 [] k os)\<lparr>threads := threads os + 1\<rparr>, False)) \<and>
           (\<forall>k ts. ctrl_server srv (replicate k Arrival @ Failure # ts) os' = UB))"
      using ctrl by (cases rule: start_ctrl_server_cases [of env at name cache_now prefixes os]) (simp_all add: ctrl_server_def ub)
  qed
qed

text \<open>
  A connection to a server holds one descriptor if it could be made and none if not, and closing it
  gives that back; but the control client keeps its descriptor when it has no memory for the package.
  Discarding a stream takes everything that has arrived, in steps of 16 bytes.
\<close>

theorem connections_balanced:
  "(case io_connect env os of
      (Inl e, os') \<Rightarrow> os' = os
    | (Inr fd, os') \<Rightarrow> fd \<notin> set (fds os) \<and> io_disconnect fd os' = os) \<and>
   (case ctrl_init env os of
      (Inl e, os') \<Rightarrow> if k_socket env = None \<and> k_bind env = None then e = ENOMEM \<and> fds os' = next_fd os # fds os else os' = os
    | (Inr fd, os') \<Rightarrow> fd \<notin> set (fds os) \<and> sys_close fd (sys_free 1 os') = os) \<and>
   unix_stream_discard avail = []"
  using next_fd_fresh [of os] close_socket [of os] discard_all [of avail]
  by (auto simp: io_connect_def io_disconnect_def ctrl_init_def Let_def sys_socket_def split: option.splits)

end
