(* ===== verification/Getopt.thy ===== *)
theory Getopt
  imports Misc
begin

text \<open>
  \<^verbatim>\<open>getopt_long\<close> and \<^verbatim>\<open>getopt\<close> of the C library, as \<^verbatim>\<open>propd\<close> and \<^verbatim>\<open>prop\<close> call them: options and operands
  in any order (the operands are moved behind the options), clusters of short options, long options
  that may be abbreviated as long as the abbreviation is unique, an argument behind \<^verbatim>\<open>=\<close>, glued to a
  short option or in the next word, and \<^verbatim>\<open>--\<close> as the end of the options. \<^verbatim>\<open>getopt\<close> is the case without
  long options. Both programs exit at the first \<^verbatim>\<open>?\<close>, so the scan ends there.
\<close>

section \<open>The scan\<close>

record long_opt =
  lname :: string
  has_arg :: bool
  lval :: int

text \<open>What a call returns: the option's value and \<^verbatim>\<open>optarg\<close>, or \<^verbatim>\<open>?\<close>.\<close>

datatype opt_event = Opt int "string option" | Opt_bad

type_synonym short_opts = "(char \<times> bool) list"

abbreviation opt_char :: "char \<Rightarrow> int" where
  "opt_char c \<equiv> of_char c"

text \<open>The rest of a cluster of short options: the events and the words that are left.\<close>

fun getopt_short :: "short_opts \<Rightarrow> string \<Rightarrow> string list \<Rightarrow> opt_event list \<times> string list" where
  "getopt_short shorts [] args = ([], args)"
| "getopt_short shorts (c # cs) args =
     (case map_of shorts c of
        None \<Rightarrow> ([Opt_bad], args)
      | Some False \<Rightarrow> (let (es, args') = getopt_short shorts cs args in (Opt (opt_char c) None # es, args'))
      | Some True \<Rightarrow>
          if cs \<noteq> [] then ([Opt (opt_char c) (Some cs)], args)
          else case args of
              [] \<Rightarrow> ([Opt_bad], args)
            | a # args' \<Rightarrow> ([Opt (opt_char c) (Some a)], args'))"

text \<open>An exact name, or else the only option, up to options that are the same, that begins with the name.\<close>

definition find_long :: "long_opt list \<Rightarrow> string \<Rightarrow> long_opt option" where
  "find_long longs name =
     (case List.find (\<lambda>o'. lname o' = name) longs of
        Some o' \<Rightarrow> Some o'
      | None \<Rightarrow>
          (case filter (\<lambda>o'. take (length name) (lname o') = name) longs of
             [] \<Rightarrow> None
           | o' # os \<Rightarrow>
               if \<forall>p \<in> set os. has_arg p = has_arg o' \<and> lval p = lval o' then Some o' else None))"

definition getopt_longword :: "long_opt list \<Rightarrow> string \<Rightarrow> string list \<Rightarrow> opt_event list \<times> string list" where
  "getopt_longword longs word args =
     (let name = takeWhile (\<lambda>c. c \<noteq> CHR ''='') word; rest = dropWhile (\<lambda>c. c \<noteq> CHR ''='') word
      in case find_long longs name of
          None \<Rightarrow> ([Opt_bad], args)
        | Some o' \<Rightarrow>
            (case rest of
               _ # val \<Rightarrow> (if has_arg o' then [Opt (lval o') (Some val)] else [Opt_bad], args)
             | [] \<Rightarrow>
                 if \<not> has_arg o' then ([Opt (lval o') None], args)
                 else case args of
                     [] \<Rightarrow> ([Opt_bad], args)
                   | a # args' \<Rightarrow> ([Opt (lval o') (Some a)], args')))"

text \<open>A word that is an option: it begins with a dash and is not the dash alone.\<close>

definition is_option :: "string \<Rightarrow> bool" where
  "is_option word \<longleftrightarrow> word \<noteq> [] \<and> hd word = CHR ''-'' \<and> tl word \<noteq> []"

definition getopt_word ::
  "short_opts \<Rightarrow> long_opt list \<Rightarrow> string \<Rightarrow> string list \<Rightarrow> opt_event list \<times> string list" where
  "getopt_word shorts longs word args =
     (if hd (tl word) = CHR ''-'' then getopt_longword longs (tl (tl word)) args
      else getopt_short shorts (tl word) args)"

lemma getopt_short_shrinks: "length (snd (getopt_short shorts cs args)) \<le> length args"
  by (induction shorts cs args rule: getopt_short.induct) (auto split: option.split bool.split list.split prod.split)

lemma getopt_word_shrinks: "length (snd (getopt_word shorts longs word args)) \<le> length args"
  by (auto simp: getopt_word_def getopt_longword_def getopt_short_shrinks Let_def split: option.split list.split)

text \<open>
  All calls until the first \<^verbatim>\<open>-1\<close> or \<^verbatim>\<open>?\<close>: what they return and the operands, \<^verbatim>\<open>argv + optind\<close> at the
  end; \<open>ops\<close> are the operands that were passed over.
\<close>

function getopt_scan ::
  "short_opts \<Rightarrow> long_opt list \<Rightarrow> string list \<Rightarrow> string list \<Rightarrow> opt_event list \<times> string list" where
  "getopt_scan shorts longs ops [] = ([], ops)"
| "getopt_scan shorts longs ops (word # args) =
     (if word = ''--'' then ([], ops @ args)
      else if \<not> is_option word then getopt_scan shorts longs (ops @ [word]) args
      else
        let (es, args') = getopt_word shorts longs word args
        in if Opt_bad \<in> set es then (es, ops @ args')
           else let (es', ops') = getopt_scan shorts longs ops args' in (es @ es', ops'))"
  by pat_completeness auto
termination
proof (relation "measure (\<lambda>(_, _, _, args). length args)", goal_cases)
  case (3 shorts longs ops word args x es args')
  then have "snd (getopt_word shorts longs word args) = args'" by (metis snd_conv)
  then show ?case using getopt_word_shrinks [of shorts longs word args] by simp
qed simp_all

definition getopt_long :: "short_opts \<Rightarrow> long_opt list \<Rightarrow> string list \<Rightarrow> opt_event list \<times> string list" where
  "getopt_long shorts longs args = getopt_scan shorts longs [] args"

section \<open>Spellings\<close>

text \<open>The ways to write one option that takes an argument, and one that does not.\<close>

datatype spelling = Long_word string | Long_equals string | Short_word char | Short_glued char

fun spell :: "spelling \<Rightarrow> string \<Rightarrow> string list" where
  "spell (Long_word name) a = [''--'' @ name, a]"
| "spell (Long_equals name) a = [''--'' @ name @ ''='' @ a]"
| "spell (Short_word c) a = [''-'' @ [c], a]"
| "spell (Short_glued c) a = [''-'' @ [c] @ a]"

text \<open>What a spelling has to be for the option of value \<open>v\<close> with an argument.\<close>

fun spells :: "short_opts \<Rightarrow> long_opt list \<Rightarrow> int \<Rightarrow> string \<Rightarrow> spelling \<Rightarrow> bool" where
  "spells shorts longs v a (Long_word name) =
     (name \<noteq> [] \<and> CHR ''='' \<notin> set name \<and> (\<exists>o'. find_long longs name = Some o' \<and> has_arg o' \<and> lval o' = v))"
| "spells shorts longs v a (Long_equals name) =
     (CHR ''='' \<notin> set name \<and> (\<exists>o'. find_long longs name = Some o' \<and> has_arg o' \<and> lval o' = v))"
| "spells shorts longs v a (Short_word c) = (c \<noteq> CHR ''-'' \<and> map_of shorts c = Some True \<and> opt_char c = v)"
| "spells shorts longs v a (Short_glued c) =
     (c \<noteq> CHR ''-'' \<and> map_of shorts c = Some True \<and> opt_char c = v \<and> a \<noteq> [])"

lemma takeWhile_upto [simp]:
  "x \<notin> set xs \<Longrightarrow> takeWhile (\<lambda>c. c \<noteq> x) xs = xs" "x \<notin> set xs \<Longrightarrow> dropWhile (\<lambda>c. c \<noteq> x) xs = []"
  "x \<notin> set xs \<Longrightarrow> takeWhile (\<lambda>c. c \<noteq> x) (xs @ x # ys) = xs"
  "x \<notin> set xs \<Longrightarrow> dropWhile (\<lambda>c. c \<noteq> x) (xs @ x # ys) = x # ys"
  by (induction xs) auto

lemma scan_spelled:
  assumes "spells shorts longs v a sp"
  shows "getopt_scan shorts longs ops (spell sp a @ args) =
    (let (es, ops') = getopt_scan shorts longs ops args in (Opt v (Some a) # es, ops'))"
proof (cases sp)
  case (Long_word name)
  then have "getopt_word shorts longs (''--'' @ name) (a # args) = ([Opt v (Some a)], args)"
    using assms by (auto simp: getopt_word_def getopt_longword_def)
  with Long_word assms show ?thesis by (auto simp: is_option_def)
next
  case (Long_equals name)
  then have "getopt_word shorts longs (''--'' @ name @ ''='' @ a) args = ([Opt v (Some a)], args)"
    using assms by (auto simp: getopt_word_def getopt_longword_def)
  with Long_equals show ?thesis by (auto simp: is_option_def)
next
  case (Short_word c)
  with assms show ?thesis by (auto simp: getopt_word_def is_option_def)
next
  case (Short_glued c)
  with assms show ?thesis by (auto simp: getopt_word_def is_option_def)
qed

lemma scan_flag:
  assumes "find_long longs name = Some o'" "\<not> has_arg o'" "name \<noteq> []" "CHR ''='' \<notin> set name"
  shows "getopt_scan shorts longs ops ((''--'' @ name) # args) =
    (let (es, ops') = getopt_scan shorts longs ops args in (Opt (lval o') None # es, ops'))"
  using assms by (auto simp: getopt_word_def getopt_longword_def is_option_def)

lemma scan_short_flag:
  assumes "map_of shorts c = Some False" "c \<noteq> CHR ''-''"
  shows "getopt_scan shorts longs ops ((''-'' @ [c]) # args) =
    (let (es, ops') = getopt_scan shorts longs ops args in (Opt (opt_char c) None # es, ops'))"
  using assms by (auto simp: getopt_word_def is_option_def)

lemma scan_operand:
  "\<not> is_option word \<Longrightarrow> word \<noteq> ''--'' \<Longrightarrow> getopt_scan shorts longs ops (word # args) = getopt_scan shorts longs (ops @ [word]) args"
  by simp

text \<open>The operands keep their order and only the last event can be a refusal.\<close>

lemma getopt_short_bad: "Opt_bad \<in> set (fst (getopt_short shorts cs args)) \<Longrightarrow> \<exists>es. fst (getopt_short shorts cs args) = es @ [Opt_bad] \<and> Opt_bad \<notin> set es"
proof (induction shorts cs args rule: getopt_short.induct)
  case (2 shorts c cs args)
  show ?case
  proof (cases "map_of shorts c")
    case None
    then show ?thesis by simp
  next
    case (Some b)
    show ?thesis
    proof (cases b)
      case True
      with Some 2 show ?thesis by (auto split: if_splits list.splits)
    next
      case False
      with Some 2 obtain es where "fst (getopt_short shorts cs args) = es @ [Opt_bad]" "Opt_bad \<notin> set es"
        by (auto split: prod.splits)
      with Some False show ?thesis
        by (auto split: prod.splits intro!: exI [of _ "Opt (opt_char c) None # es"])
    qed
  qed
qed simp

lemma getopt_word_bad:
  assumes "Opt_bad \<in> set (fst (getopt_word shorts longs word args))"
  shows "\<exists>es. fst (getopt_word shorts longs word args) = es @ [Opt_bad] \<and> Opt_bad \<notin> set es"
  using assms getopt_short_bad
  by (auto simp: getopt_word_def getopt_longword_def Let_def split: if_splits option.splits list.splits)

lemma scan_bad_last:
  "Opt_bad \<in> set (fst (getopt_scan shorts longs ops args)) \<Longrightarrow>
     \<exists>es. fst (getopt_scan shorts longs ops args) = es @ [Opt_bad] \<and> Opt_bad \<notin> set es"
proof (induction shorts longs ops args rule: getopt_scan.induct)
  case (2 shorts longs ops word args)
  obtain es args' where w: "getopt_word shorts longs word args = (es, args')" by (cases "getopt_word shorts longs word args")
  show ?case
  proof (cases "word = ''--'' \<or> \<not> is_option word \<or> Opt_bad \<in> set es")
    case True
    then show ?thesis using 2 w getopt_word_bad [of shorts longs word args] by (auto split: if_splits)
  next
    case False
    then have opt: "word \<noteq> ''--''" "is_option word" "Opt_bad \<notin> set es" by auto
    have "Opt_bad \<in> set (fst (getopt_scan shorts longs ops args'))" using 2(3) opt w by (auto split: prod.splits)
    with 2(2) [of "(es, args')" es args'] opt w
    obtain es' where "fst (getopt_scan shorts longs ops args') = es' @ [Opt_bad]" "Opt_bad \<notin> set es'" by auto
    with opt w show ?thesis by (auto split: prod.splits intro!: exI [of _ "es @ es'"])
  qed
qed simp

declare getopt_scan.simps(2) [simp del]

text \<open>The events are those of options that exist, with an argument exactly where the option takes one.\<close>

definition known_opt :: "short_opts \<Rightarrow> long_opt list \<Rightarrow> int \<Rightarrow> bool \<Rightarrow> bool" where
  "known_opt shorts longs v b \<longleftrightarrow>
     (\<exists>c. map_of shorts c = Some b \<and> v = opt_char c) \<or> (\<exists>o' \<in> set longs. has_arg o' = b \<and> v = lval o')"

lemma find_long_set: "find_long longs name = Some o' \<Longrightarrow> o' \<in> set longs"
proof -
  assume *: "find_long longs name = Some o'"
  show "o' \<in> set longs"
  proof (cases "List.find (\<lambda>x. lname x = name) longs")
    case None
    let ?xs = "filter (\<lambda>x. take (length name) (lname x) = name) longs"
    from None * obtain xs where "?xs = o' # xs" by (auto simp: find_long_def split: list.splits if_splits)
    then have "o' \<in> set ?xs" by simp
    then show ?thesis by simp
  next
    case (Some x)
    then have "x \<in> set longs" by (metis find_Some_iff nth_mem)
    with * Some show ?thesis by (simp add: find_long_def)
  qed
qed

lemma short_events:
  "Opt v a \<in> set (fst (getopt_short shorts cs args)) \<Longrightarrow> known_opt shorts longs v (a \<noteq> None)"
  by (induction shorts cs args rule: getopt_short.induct)
    (auto simp: known_opt_def split: option.splits bool.splits list.splits prod.splits if_splits)

lemma word_events:
  "Opt v a \<in> set (fst (getopt_word shorts longs word args)) \<Longrightarrow> known_opt shorts longs v (a \<noteq> None)"
  using short_events [of v a shorts "tl word" args longs]
  by (auto simp: getopt_word_def getopt_longword_def Let_def known_opt_def
      split: if_splits option.splits list.splits dest!: find_long_set)

lemma scan_events:
  "Opt v a \<in> set (fst (getopt_scan shorts longs ops args)) \<Longrightarrow> known_opt shorts longs v (a \<noteq> None)"
proof (induction shorts longs ops args rule: getopt_scan.induct)
  case (2 shorts longs ops word args)
  obtain es args' where w: "getopt_word shorts longs word args = (es, args')" by (cases "getopt_word shorts longs word args")
  show ?case
  proof (cases "word = ''--'' \<or> \<not> is_option word \<or> Opt v a \<in> set es")
    case True
    then show ?thesis
      using 2 w word_events [of v a shorts longs word args]
      by (auto simp: getopt_scan.simps(2) split: if_splits prod.splits)
  next
    case False
    with 2 w show ?thesis by (auto simp: getopt_scan.simps(2) split: if_splits prod.splits)
  qed
qed simp

end
