(* ===== verification/Propd_Config.thy ===== *)
theory Propd_Config
  imports Getopt Route Builtin Memio Io_Protocol
begin

text \<open>
  The configuration of a daemon: \<^verbatim>\<open>propd_config_t\<close> of \<^verbatim>\<open>lib/propd.h\<close> with its operations in
  \<^verbatim>\<open>lib/propd.c\<close>, the command-line wrappers \<^verbatim>\<open>parse\<close> of the storages under \<^verbatim>\<open>lib/builtin/\<close>, and
  \<^verbatim>\<open>main\<close> of \<^verbatim>\<open>app/propd/main.c\<close> up to \<^verbatim>\<open>propd_run\<close>. The log level and its parser belong to the logging
  library and are arguments. What the program prints is left out.
\<close>

section \<open>Configurations\<close>

text \<open>
  \<^verbatim>\<open>storage_parseConfig\<close>; \<open>parse\<close> numbers its calls by the option being parsed, for the answers the
  system gives it there.
\<close>

record 'w parse_config =
  pc_name :: string
  argNum :: nat
  parse :: "nat \<Rightarrow> string \<Rightarrow> string list \<Rightarrow> 'w \<Rightarrow> ((errno + 'w storage_ctx) \<times> 'w) c_out"

record 'w propd_config =
  loglevel :: int
  logger :: "nat option"
  namespace :: "string option"
  thread_num :: "16 word"
  thread_num_max_if_auto :: "16 word"
  cache_interval :: timestamp
  cache_default_duration :: timestamp
  local_route :: "'w route_list"
  cname :: "string option"
  caches :: "string list option"
  prefixes :: "string list option"
  num_prefix_max :: "32 word"
  children :: "string list option"
  parents :: "string list option"
  daemon :: bool
  io_parseConfigs :: "'w parse_config list"

definition propd_config_default :: "int \<Rightarrow> 'w propd_config" where
  "propd_config_default mlog_warn =
     \<lparr>loglevel = mlog_warn, logger = None, namespace = None, thread_num = 0, thread_num_max_if_auto = 16,
      cache_interval = 0, cache_default_duration = 1, local_route = [], cname = None, caches = None,
      prefixes = None, num_prefix_max = 16, children = None, parents = None, daemon = False,
      io_parseConfigs = []\<rparr>"

definition propd_config_register ::
  "alloc \<Rightarrow> nat \<Rightarrow> 'w propd_config \<Rightarrow> 'w storage_ctx \<Rightarrow> nat \<Rightarrow> string option list option \<Rightarrow>
   (errno option \<times> 'w propd_config) c_out" where
  "propd_config_register mem a config st num_prefix ps =
     c_bind (route_register mem a (local_route config) st num_prefix ps) (\<lambda>(r, route').
       Ret (r, config\<lparr>local_route := route'\<rparr>))"

definition propd_config_apply_parser :: "'w propd_config \<Rightarrow> 'w parse_config \<Rightarrow> 'w propd_config" where
  "propd_config_apply_parser config pc = config\<lparr>io_parseConfigs := pc # io_parseConfigs config\<rparr>"

section \<open>The command line\<close>

definition g_longopts :: "long_opt list" where
  "g_longopts =
     [\<lparr>lname = ''loglevel'', has_arg = True, lval = opt_char CHR ''l''\<rparr>,
      \<lparr>lname = ''namespace'', has_arg = True, lval = opt_char CHR ''N''\<rparr>,
      \<lparr>lname = ''enable-cache'', has_arg = True, lval = opt_char CHR ''C''\<rparr>,
      \<lparr>lname = ''default-duration'', has_arg = True, lval = opt_char CHR ''d''\<rparr>,
      \<lparr>lname = ''name'', has_arg = True, lval = opt_char CHR ''n''\<rparr>,
      \<lparr>lname = ''caches'', has_arg = True, lval = opt_char CHR ''c''\<rparr>,
      \<lparr>lname = ''prefixes'', has_arg = True, lval = opt_char CHR ''p''\<rparr>,
      \<lparr>lname = ''children'', has_arg = True, lval = opt_char CHR ''i''\<rparr>,
      \<lparr>lname = ''parents'', has_arg = True, lval = opt_char CHR ''a''\<rparr>,
      \<lparr>lname = ''daemon'', has_arg = False, lval = opt_char CHR ''D''\<rparr>]"

definition shortopts :: short_opts where
  "shortopts = [(CHR ''h'', False), (CHR ''v'', False), (CHR ''N'', True), (CHR ''n'', True), (CHR ''D'', False)]"

definition longopts :: "'w propd_config \<Rightarrow> long_opt list" where
  "longopts config =
     g_longopts @ map (\<lambda>(i, pc). \<lparr>lname = pc_name pc, has_arg = True, lval = int i\<rparr>)
       (enumerate 0 (io_parseConfigs config))"

text \<open>What the system answers to the \<open>i\<close>-th option: the allocations and the address of a new route item.\<close>

record parse_env =
  p_calloc :: bool
  p_level :: "string \<Rightarrow> int" \<comment> \<open>\<^verbatim>\<open>mlog_level_parse\<close>\<close>
  p_amem :: "nat \<Rightarrow> alloc"
  p_rmem :: "nat \<Rightarrow> alloc"
  p_addr :: "nat \<Rightarrow> nat"

datatype 'w parse_out = Parsed "'w propd_config" 'w | Exit int 'w

text \<open>The label \<^verbatim>\<open>error\<close>: the storages registered so far are destroyed, the first of the list first.\<close>

definition parse_error :: "'w propd_config \<Rightarrow> 'w \<Rightarrow> 'w parse_out c_out" where
  "parse_error config w = Ret (Exit 1 (fold route_item_destroy (local_route config) w))"

definition parse_array ::
  "parse_env \<Rightarrow> nat \<Rightarrow> string \<Rightarrow> 'w propd_config \<Rightarrow> 'w \<Rightarrow> (string list \<Rightarrow> 'w parse_out c_out) \<Rightarrow> 'w parse_out c_out" where
  "parse_array env i optarg config w f =
     c_bind (arrayparse_cstring (p_amem env i) optarg) (\<lambda>r.
       case r of None \<Rightarrow> parse_error config w | Some args \<Rightarrow> f args)"

text \<open>The \<^verbatim>\<open>default\<close> case: a storage, by the number of its parser.\<close>

definition parse_storage ::
  "parse_env \<Rightarrow> nat \<Rightarrow> int \<Rightarrow> string \<Rightarrow> 'w propd_config \<Rightarrow> 'w \<Rightarrow> 'w parse_out c_out" where
  "parse_storage env i opt optarg config w =
     parse_array env i optarg config w (\<lambda>args.
       if opt < 0 \<or> int (length (io_parseConfigs config)) \<le> opt then UB
       else
         let pc = io_parseConfigs config ! nat opt
         in if length args < argNum pc + 2 then parse_error config w
            else c_bind (parse pc i (args ! argNum pc) args w) (\<lambda>(r, w').
              case r of
                Inl e \<Rightarrow> parse_error config w'
              | Inr st \<Rightarrow>
                  c_bind (route_register (p_rmem env i) (p_addr env i) (local_route config) st 0
                      (Some (map Some (drop (argNum pc + 1) args) @ [None]))) (\<lambda>(r, route').
                    case r of
                      Some e \<Rightarrow> parse_error config w'
                    | None \<Rightarrow> Ret (Parsed (config\<lparr>local_route := route'\<rparr>) w'))))"

definition strtoul_i64 :: "string \<Rightarrow> timestamp" where
  "strtoul_i64 s = (case strtoul s of None \<Rightarrow> 0 | Some (n, _) \<Rightarrow> i64 n)"

text \<open>The body of the loop; an option with an argument always has its \<^verbatim>\<open>optarg\<close>.\<close>

definition parse_opt :: "parse_env \<Rightarrow> nat \<Rightarrow> opt_event \<Rightarrow> 'w propd_config \<Rightarrow> 'w \<Rightarrow> 'w parse_out c_out" where
  "parse_opt env i event config w =
     (case event of
        Opt_bad \<Rightarrow> Ret (Exit 1 w)
      | Opt opt None \<Rightarrow>
          if opt = opt_char CHR ''v'' then Ret (Parsed (config\<lparr>loglevel := loglevel config + 1\<rparr>) w)
          else if opt = opt_char CHR ''D'' then Ret (Parsed (config\<lparr>daemon := True\<rparr>) w)
          else if opt = opt_char CHR ''h'' then Ret (Exit 0 w)
          else UB
      | Opt opt (Some optarg) \<Rightarrow>
          if opt = opt_char CHR ''l'' then Ret (Parsed (config\<lparr>loglevel := p_level env optarg\<rparr>) w)
          else if opt = opt_char CHR ''N'' then Ret (Parsed (config\<lparr>namespace := Some optarg\<rparr>) w)
          else if opt = opt_char CHR ''C'' then Ret (Parsed (config\<lparr>cache_interval := strtoul_i64 optarg\<rparr>) w)
          else if opt = opt_char CHR ''d'' then Ret (Parsed (config\<lparr>cache_default_duration := strtoul_i64 optarg\<rparr>) w)
          else if opt = opt_char CHR ''n'' then Ret (Parsed (config\<lparr>cname := Some optarg\<rparr>) w)
          else if opt = opt_char CHR ''c'' then
            parse_array env i optarg config w (\<lambda>args. Ret (Parsed (config\<lparr>caches := Some args\<rparr>) w))
          else if opt = opt_char CHR ''p'' then
            parse_array env i optarg config w (\<lambda>args. Ret (Parsed (config\<lparr>prefixes := Some args\<rparr>) w))
          else if opt = opt_char CHR ''i'' then
            parse_array env i optarg config w (\<lambda>args. Ret (Parsed (config\<lparr>children := Some args\<rparr>) w))
          else if opt = opt_char CHR ''a'' then
            parse_array env i optarg config w (\<lambda>args. Ret (Parsed (config\<lparr>parents := Some args\<rparr>) w))
          else parse_storage env i opt optarg config w)"

fun parse_opts :: "parse_env \<Rightarrow> nat \<Rightarrow> opt_event list \<Rightarrow> 'w propd_config \<Rightarrow> 'w \<Rightarrow> 'w parse_out c_out" where
  "parse_opts env i [] config w = Ret (Parsed config w)"
| "parse_opts env i (e # es) config w =
     c_bind (parse_opt env i e config w) (\<lambda>r.
       case r of Exit c w' \<Rightarrow> Ret (Exit c w') | Parsed config' w' \<Rightarrow> parse_opts env (Suc i) es config' w')"

text \<open>\<open>args\<close> are the words behind the program's name; operands are ignored.\<close>

definition propd_config_parse :: "parse_env \<Rightarrow> 'w propd_config \<Rightarrow> string list \<Rightarrow> 'w \<Rightarrow> 'w parse_out c_out" where
  "propd_config_parse env config args w =
     (if \<not> p_calloc env then Ret (Exit 1 w)
      else parse_opts env 0 (fst (getopt_long shortopts (longopts config) args)) config w)"

section \<open>The storages of the command line\<close>

text \<open>A storage on its part of the state.\<close>

definition put_back :: "('v \<Rightarrow> 'w \<Rightarrow> 'w) \<Rightarrow> 'w \<Rightarrow> ('a \<times> 'v) c_out \<Rightarrow> ('a \<times> 'w) c_out" where
  "put_back put w r = c_bind r (\<lambda>(a, v'). Ret (a, put v' w))"

definition lift_storage :: "('w \<Rightarrow> 'v) \<Rightarrow> ('v \<Rightarrow> 'w \<Rightarrow> 'w) \<Rightarrow> 'v storage_ctx \<Rightarrow> 'w storage_ctx" where
  "lift_storage get put st =
     \<lparr>sname = sname st,
      get_fn = map_option (\<lambda>f w k. put_back put w (f (get w) k)) (get_fn st),
      set_fn = map_option (\<lambda>f w k v. put_back put w (f (get w) k v)) (set_fn st),
      del_fn = map_option (\<lambda>f w k. put_back put w (f (get w) k)) (del_fn st),
      destructor = map_option (\<lambda>f w. put (f (get w)) w) (destructor st)\<rparr>"

record 'n daemon_world =
  w_fs :: fs
  w_phys :: "int \<Rightarrow> byte list" \<comment> \<open>what is mapped from a physical address on\<close>
  w_net :: 'n

text \<open>What the system answers to the constructors.\<close>

record 'n cons_env =
  x_mem :: "nat \<Rightarrow> alloc"
  x_get_mem :: bool
  x_dir_exists :: "nat \<Rightarrow> bool"
  x_mkdir :: "nat \<Rightarrow> errno option"
  x_conn :: "nat \<Rightarrow> errno option"
  x_ask :: "'n unix_peer"
  x_created :: timestamp
  x_json :: "string \<Rightarrow> json_item list option"
  x_layout_mem :: "nat \<Rightarrow> alloc"
  x_dev :: "nat \<Rightarrow> bool"

type_synonym 'n dw = "'n daemon_world"

text \<open>\<^verbatim>\<open>strtoul(s, NULL, 16)\<close>, as \<^verbatim>\<open>long\<close>.\<close>

definition strtoul16 :: "string \<Rightarrow> int" where
  "strtoul16 s =
     (let (neg, s1) = strto_sign (dropWhile c_isspace s);
          s2 = (case s1 of
                  a # b # c # s' \<Rightarrow>
                    if a = CHR ''0'' \<and> (b = CHR ''x'' \<or> b = CHR ''X'') \<and> digit_val c < 16 then c # s' else s1
                | _ \<Rightarrow> s1);
          n = digits_val 16 (takeWhile (\<lambda>c. digit_val c < 16) s2)
      in if ULONG_MAX < int n then i64 ULONG_MAX else i64 (if neg then - int n else int n))"

definition file_parse ::
  "'n cons_env \<Rightarrow> nat \<Rightarrow> string \<Rightarrow> string list \<Rightarrow> 'n dw \<Rightarrow> ((errno + 'n dw storage_ctx) \<times> 'n dw) c_out" where
  "file_parse x i name args w =
     Ret (map_sum id (lift_storage w_fs (\<lambda>v. w_fs_update (\<lambda>_. v)))
       (constructor_file (x_mem x i) (x_dir_exists x i) (x_mkdir x i) (x_get_mem x) name (args ! 0)), w)"

definition unix_cmd_parse ::
  "'n cons_env \<Rightarrow> nat \<Rightarrow> string \<Rightarrow> string list \<Rightarrow> 'n dw \<Rightarrow> ((errno + 'n dw storage_ctx) \<times> 'n dw) c_out" where
  "unix_cmd_parse x i name args w =
     (case unix_parse (args ! 0) of
        Inl e \<Rightarrow> Ret (Inl e, w)
      | Inr shared \<Rightarrow>
          Ret (map_sum id (lift_storage w_net (\<lambda>v. w_net_update (\<lambda>_. v)))
            (constructor_unix (x_ask x) (x_get_mem x) (x_created x) (x_mem x i) (x_conn x i) name shared), w))"

definition memory_parse ::
  "'n cons_env \<Rightarrow> nat \<Rightarrow> string \<Rightarrow> string list \<Rightarrow> 'n dw \<Rightarrow> ((errno + 'n dw storage_ctx) \<times> 'n dw) c_out" where
  "memory_parse x i name args w =
     (let phy = strtoul16 (args ! 0)
      in c_bind (layout_parse (x_layout_mem x i 0) (\<lambda>j. x_layout_mem x i (Suc j)) (x_json x (args ! 1))) (\<lambda>layout.
           case layout of
             None \<Rightarrow> Ret (Inl EINVAL, w)
           | Some l \<Rightarrow>
               c_bind (constructor_memory (x_mem x i) (x_dev x i) (x_get_mem x) name l) (\<lambda>r.
                 Ret (map_sum id (lift_storage (\<lambda>w. w_phys w phy) (\<lambda>v w. w\<lparr>w_phys := (w_phys w)(phy := v)\<rparr>)) r, w))))"

definition tcp_parse ::
  "'n cons_env \<Rightarrow> nat \<Rightarrow> string \<Rightarrow> string list \<Rightarrow> 'n dw \<Rightarrow> ((errno + 'n dw storage_ctx) \<times> 'n dw) c_out" where
  "tcp_parse x i name args w =
     (let port = (case strtoul (args ! 1) of None \<Rightarrow> 0 | Some (n, _) \<Rightarrow> of_int n)
      in Ret (constructor_tcp (x_mem x i) name (args ! 0) port, w))"

definition file_parseConfig :: "'n cons_env \<Rightarrow> 'n dw parse_config" where
  "file_parseConfig x = \<lparr>pc_name = ''file'', argNum = 1, parse = file_parse x\<rparr>"

definition unix_parseConfig :: "'n cons_env \<Rightarrow> 'n dw parse_config" where
  "unix_parseConfig x = \<lparr>pc_name = ''unix'', argNum = 1, parse = unix_cmd_parse x\<rparr>"

definition memory_parseConfig :: "'n cons_env \<Rightarrow> 'n dw parse_config" where
  "memory_parseConfig x = \<lparr>pc_name = ''memory'', argNum = 2, parse = memory_parse x\<rparr>"

definition tcp_parseConfig :: "'n cons_env \<Rightarrow> 'n dw parse_config" where
  "tcp_parseConfig x = \<lparr>pc_name = ''tcp'', argNum = 2, parse = tcp_parse x\<rparr>"

text \<open>
  \<^verbatim>\<open>main\<close> of the daemon up to the call of \<^verbatim>\<open>propd_run\<close>: the configuration it runs with, or the code it
  ends with.
\<close>

definition builtin_config :: "int \<Rightarrow> 'n cons_env \<Rightarrow> 'n dw propd_config" where
  "builtin_config mlog_warn x =
     propd_config_apply_parser (propd_config_apply_parser (propd_config_apply_parser (propd_config_apply_parser
       (propd_config_default mlog_warn) (file_parseConfig x)) (unix_parseConfig x)) (memory_parseConfig x)) (tcp_parseConfig x)"

definition propd_main ::
  "int \<Rightarrow> 'n cons_env \<Rightarrow> parse_env \<Rightarrow> bool \<Rightarrow> alloc \<Rightarrow> nat \<Rightarrow> string list \<Rightarrow> 'n dw \<Rightarrow> 'n dw parse_out c_out" where
  "propd_main mlog_warn x env null_mem rmem a args w =
     c_bind (propd_config_parse env (builtin_config mlog_warn x) args w) (\<lambda>r.
       case r of
         Exit c w' \<Rightarrow> Ret (Exit c w')
       | Parsed config w' \<Rightarrow>
           (case constructor_null null_mem ''null'' of
              Inl e \<Rightarrow> Ret (Exit (errno_code e) w')
            | Inr st \<Rightarrow>
                c_bind (propd_config_register rmem a config st 0 (Some [Some ''*'', None])) (\<lambda>(r, config').
                  case r of
                    Some e \<Rightarrow> Ret (Exit (errno_code e) w')
                  | None \<Rightarrow> Ret (Parsed config' w'))))"

section \<open>Command lines that are written out\<close>

text \<open>The settings of a configuration, apart from its storages, and what each does to it.\<close>

datatype setting =
  Loglevel string | Namespace string | Cache nat | Duration nat | Name string
| Caches "string list" | Prefixes "string list" | Children "string list" | Parents "string list"

fun setting_opt :: "setting \<Rightarrow> char" where
  "setting_opt (Loglevel s) = CHR ''l''"
| "setting_opt (Namespace s) = CHR ''N''"
| "setting_opt (Cache n) = CHR ''C''"
| "setting_opt (Duration n) = CHR ''d''"
| "setting_opt (Name s) = CHR ''n''"
| "setting_opt (Caches ss) = CHR ''c''"
| "setting_opt (Prefixes ss) = CHR ''p''"
| "setting_opt (Children ss) = CHR ''i''"
| "setting_opt (Parents ss) = CHR ''a''"

fun setting_arg :: "setting \<Rightarrow> string" where
  "setting_arg (Loglevel s) = s"
| "setting_arg (Namespace s) = s"
| "setting_arg (Cache n) = base_digits 10 n"
| "setting_arg (Duration n) = base_digits 10 n"
| "setting_arg (Name s) = s"
| "setting_arg (Caches ss) = comma_join ss"
| "setting_arg (Prefixes ss) = comma_join ss"
| "setting_arg (Children ss) = comma_join ss"
| "setting_arg (Parents ss) = comma_join ss"

definition fields_ok :: "string list \<Rightarrow> bool" where
  "fields_ok ss \<longleftrightarrow> comma_join ss \<noteq> [] \<and> (\<forall>s \<in> set ss. CHR '','' \<notin> set s)"

fun setting_ok :: "setting \<Rightarrow> bool" where
  "setting_ok (Cache n) \<longleftrightarrow> n < 2 ^ 63"
| "setting_ok (Duration n) \<longleftrightarrow> n < 2 ^ 63"
| "setting_ok (Caches ss) \<longleftrightarrow> fields_ok ss"
| "setting_ok (Prefixes ss) \<longleftrightarrow> fields_ok ss"
| "setting_ok (Children ss) \<longleftrightarrow> fields_ok ss"
| "setting_ok (Parents ss) \<longleftrightarrow> fields_ok ss"
| "setting_ok s \<longleftrightarrow> True"

fun apply_setting :: "(string \<Rightarrow> int) \<Rightarrow> setting \<Rightarrow> 'w propd_config \<Rightarrow> 'w propd_config" where
  "apply_setting level (Loglevel s) c = c\<lparr>loglevel := level s\<rparr>"
| "apply_setting level (Namespace s) c = c\<lparr>namespace := Some s\<rparr>"
| "apply_setting level (Cache n) c = c\<lparr>cache_interval := int n\<rparr>"
| "apply_setting level (Duration n) c = c\<lparr>cache_default_duration := int n\<rparr>"
| "apply_setting level (Name s) c = c\<lparr>cname := Some s\<rparr>"
| "apply_setting level (Caches ss) c = c\<lparr>caches := Some ss\<rparr>"
| "apply_setting level (Prefixes ss) c = c\<lparr>prefixes := Some ss\<rparr>"
| "apply_setting level (Children ss) c = c\<lparr>children := Some ss\<rparr>"
| "apply_setting level (Parents ss) c = c\<lparr>parents := Some ss\<rparr>"

text \<open>A part of a command line: a setting in some spelling, a flag or an operand.\<close>

datatype part = Given setting spelling | Verbose | Daemon bool | Operand string

fun part_words :: "part \<Rightarrow> string list" where
  "part_words (Given s sp) = spell sp (setting_arg s)"
| "part_words Verbose = [''-v'']"
| "part_words (Daemon long) = [if long then ''--daemon'' else ''-D'']"
| "part_words (Operand s) = [s]"

fun part_ok :: "'w propd_config \<Rightarrow> part \<Rightarrow> bool" where
  "part_ok c (Given s sp) \<longleftrightarrow>
     setting_ok s \<and> spells shortopts (longopts c) (opt_char (setting_opt s)) (setting_arg s) sp"
| "part_ok c Verbose \<longleftrightarrow> True"
| "part_ok c (Daemon long) \<longleftrightarrow> True"
| "part_ok c (Operand s) \<longleftrightarrow> \<not> is_option s \<and> s \<noteq> ''--''"

fun part_events :: "part \<Rightarrow> opt_event list" where
  "part_events (Given s sp) = [Opt (opt_char (setting_opt s)) (Some (setting_arg s))]"
| "part_events Verbose = [Opt (opt_char CHR ''v'') None]"
| "part_events (Daemon long) = [Opt (opt_char CHR ''D'') None]"
| "part_events (Operand s) = []"

fun apply_part :: "(string \<Rightarrow> int) \<Rightarrow> part \<Rightarrow> 'w propd_config \<Rightarrow> 'w propd_config" where
  "apply_part level (Given s sp) c = apply_setting level s c"
| "apply_part level Verbose c = c\<lparr>loglevel := loglevel c + 1\<rparr>"
| "apply_part level (Daemon long) c = c\<lparr>daemon := True\<rparr>"
| "apply_part level (Operand s) c = c"

lemma find_daemon: "find_long (longopts c) ''daemon'' = Some \<lparr>lname = ''daemon'', has_arg = False, lval = opt_char CHR ''D''\<rparr>"
  by (simp add: find_long_def longopts_def g_longopts_def)

lemma shortopts_flags: "map_of shortopts CHR ''v'' = Some False" "map_of shortopts CHR ''D'' = Some False"
  by (simp_all add: shortopts_def)

lemma scan_part:
  assumes "part_ok c p"
  shows "\<exists>os. getopt_scan shortopts (longopts c) ops (part_words p @ args) =
    (let (es, ops') = getopt_scan shortopts (longopts c) (ops @ os) args in (part_events p @ es, ops'))"
proof (cases p)
  case (Given s sp)
  with assms have "spells shortopts (longopts c) (opt_char (setting_opt s)) (setting_arg s) sp" by simp
  from scan_spelled [OF this, of ops args] Given show ?thesis by (intro exI [of _ "[]"]) simp
next
  case Verbose
  then show ?thesis
    using scan_short_flag [OF shortopts_flags(1), of "longopts c" ops args] by (intro exI [of _ "[]"]) simp
next
  case (Daemon long)
  then show ?thesis
    using scan_short_flag [OF shortopts_flags(2), of "longopts c" ops args]
      scan_flag [OF find_daemon, of shortopts c ops args]
    by (intro exI [of _ "[]"]) simp
next
  case (Operand s)
  with assms show ?thesis by (intro exI [of _ "[s]"]) (simp add: scan_operand)
qed

lemma scan_parts:
  assumes "\<forall>p \<in> set ps. part_ok c p"
  shows "fst (getopt_scan shortopts (longopts c) ops (concat (map part_words ps))) = concat (map part_events ps)"
  using assms
proof (induction ps arbitrary: ops)
  case (Cons p ps)
  obtain os where "getopt_scan shortopts (longopts c) ops (part_words p @ concat (map part_words ps)) =
    (let (es, ops') = getopt_scan shortopts (longopts c) (ops @ os) (concat (map part_words ps)) in (part_events p @ es, ops'))"
    using scan_part [of c p ops "concat (map part_words ps)"] Cons.prems by auto
  with Cons.IH [of "ops @ os"] Cons.prems show ?case by (auto split: prod.splits)
qed simp

lemma strtoul_i64_digits: "n < 2 ^ 63 \<Longrightarrow> strtoul_i64 (base_digits 10 n) = int n"
  using strtoul_digits [of n] i64_id [OF in_i64_I, of "int n"] by (simp add: strtoul_i64_def)

lemma parse_array_fields:
  "p_amem env i = mem_ok \<Longrightarrow> fields_ok ss \<Longrightarrow> parse_array env i (comma_join ss) config w f = f ss"
  by (cases "ss = []") (auto simp: parse_array_def fields_ok_def arrayparse_fields cut_fields_comma_join)

lemma parse_opt_setting:
  assumes "p_amem env i = mem_ok" "setting_ok s"
  shows "parse_opt env i (Opt (opt_char (setting_opt s)) (Some (setting_arg s))) config w =
    Ret (Parsed (apply_setting (p_level env) s config) w)"
  using assms by (cases s) (auto simp: parse_opt_def strtoul_i64_digits parse_array_fields)

lemma parse_opts_parts:
  assumes "\<forall>i. p_amem env i = mem_ok" "\<forall>p \<in> set ps. part_ok c p"
  shows "parse_opts env i (concat (map part_events ps)) config w = Ret (Parsed (fold (apply_part (p_level env)) ps config) w)"
  using assms
proof (induction ps arbitrary: i config)
  case (Cons p ps)
  then show ?case by (cases p) (auto simp: parse_opt_setting, auto simp: parse_opt_def)
qed simp

section \<open>What a parsed configuration looks like\<close>

definition config_wf :: "'w propd_config \<Rightarrow> bool" where
  "config_wf c \<longleftrightarrow>
     route_ok (local_route c) \<and>
     (\<forall>i \<in> set (local_route c). nref i = 0 \<and> prefix i \<noteq> [] \<and> (\<forall>p \<in> set (prefix i). CHR '','' \<notin> set p)) \<and>
     in_i64 (cache_interval c) \<and> in_i64 (cache_default_duration c) \<and>
     (\<forall>ss \<in> {caches c, prefixes c, children c, parents c}. \<forall>fs. ss = Some fs \<longrightarrow> fs \<noteq> [] \<and> (\<forall>f \<in> set fs. CHR '','' \<notin> set f))"

lemma arrayparse_Some:
  assumes "arrayparse_cstring mem s = Ret (Some fs)"
  shows "fs = cut_fields [] s \<and> s \<noteq> []"
proof -
  have "s \<noteq> []" using assms by (cases s) (auto simp: arrayparse_cstring_def arraydup_cstring_def split: if_splits)
  moreover from this assms have "dup_cells (\<lambda>i. mem (Suc (Suc i))) 1 (Suc (count_commas s)) (map Some (cut_fields [] s)) = Ret (Some fs)"
    by (auto simp: arrayparse_cstring_def arraydup_cstring_def Let_def split: if_splits)
  then have "fs = take (Suc (count_commas s)) (cut_fields [] s)" by (rule dup_cells_Some)
  ultimately show ?thesis by simp
qed

lemma parse_array_Parsed:
  assumes "parse_array env i s config w f = Ret (Parsed c' w')"
  obtains fs where "f fs = Ret (Parsed c' w')" "fs \<noteq> []" "\<forall>x \<in> set fs. CHR '','' \<notin> set x"
proof -
  from assms obtain r where r: "arrayparse_cstring (p_amem env i) s = Ret r"
    "(case r of None \<Rightarrow> parse_error config w | Some args \<Rightarrow> f args) = Ret (Parsed c' w')"
    by (auto simp: parse_array_def)
  then obtain fs where "r = Some fs" by (cases r) (auto simp: parse_error_def)
  with r arrayparse_Some [of "p_amem env i" s fs] cut_fields_no_comma [of "[]" _ s] that show thesis by auto
qed

lemma parse_storage_Parsed:
  assumes "parse_storage env i opt s config w = Ret (Parsed c' w')"
  obtains st ps where "c' = config\<lparr>local_route := \<lparr>addr = p_addr env i, storage = st, prefix = ps, nref = 0\<rparr> # local_route config\<rparr>"
    "\<forall>j \<in> set (local_route config). rname j \<noteq> sname st" "ps \<noteq> []" "\<forall>p \<in> set ps. CHR '','' \<notin> set p"
proof -
  let ?pc = "io_parseConfigs config ! nat opt"
  obtain fs where fs: "\<forall>x \<in> set fs. CHR '','' \<notin> set x" "argNum ?pc + 2 \<le> length fs" and
    rest: "c_bind (parse ?pc i (fs ! argNum ?pc) fs w) (\<lambda>(r, w').
      case r of
        Inl e \<Rightarrow> parse_error config w'
      | Inr st \<Rightarrow>
          c_bind (route_register (p_rmem env i) (p_addr env i) (local_route config) st 0
              (Some (map Some (drop (argNum ?pc + 1) fs) @ [None]))) (\<lambda>(r, route').
            case r of
              Some e \<Rightarrow> parse_error config w'
            | None \<Rightarrow> Ret (Parsed (config\<lparr>local_route := route'\<rparr>) w'))) = Ret (Parsed c' w')"
    using assms unfolding parse_storage_def
    by (elim parse_array_Parsed) (auto simp: Let_def parse_error_def not_less split: if_splits)
  let ?ps = "drop (argNum ?pc + 1) fs"
  obtain r w'' where r: "parse ?pc i (fs ! argNum ?pc) fs w = Ret (r, w'')" using rest by auto
  with rest obtain st where st: "r = Inr st" by (cases r) (auto simp: parse_error_def)
  from rest r st obtain r' route' where
    "route_register (p_rmem env i) (p_addr env i) (local_route config) st 0 (Some (map Some ?ps @ [None])) = Ret (r', route')"
    "(case r' of Some e \<Rightarrow> parse_error config w'' | None \<Rightarrow> Ret (Parsed (config\<lparr>local_route := route'\<rparr>) w'')) = Ret (Parsed c' w')"
    by auto
  then have reg:
    "route_register (p_rmem env i) (p_addr env i) (local_route config) st 0 (Some (map Some ?ps @ [None])) = Ret (None, route')"
    "c' = config\<lparr>local_route := route'\<rparr>"
    by (cases r'; simp add: parse_error_def)+
  from reg(1) obtain qs where qs: "\<forall>j \<in> set (local_route config). rname j \<noteq> sname st"
      "arraydup_cstring (\<lambda>j. p_rmem env i (j + 1)) (Some (map Some ?ps @ [None])) 0 = Ret (Some qs)"
      "route' = \<lparr>addr = p_addr env i, storage = st, prefix = qs, nref = 0\<rparr> # local_route config"
    by (auto simp: route_register_def route_item_create_def split: if_splits option.splits)
  have "qs = ?ps" using arraydup_list [of "\<lambda>j. p_rmem env i (j + 1)" "Some ?ps"] qs(2) by auto
  moreover have "?ps \<noteq> []" using fs(2) by simp
  moreover have "\<forall>p \<in> set ?ps. CHR '','' \<notin> set p" using fs(1) by (meson in_set_dropD)
  ultimately show thesis using that qs reg(2) by blast
qed

lemma config_wf_updates:
  "config_wf (c\<lparr>loglevel := l\<rparr>) = config_wf c" "config_wf (c\<lparr>namespace := n\<rparr>) = config_wf c"
  "config_wf (c\<lparr>cname := n\<rparr>) = config_wf c" "config_wf (c\<lparr>daemon := b\<rparr>) = config_wf c"
  "config_wf c \<Longrightarrow> config_wf (c\<lparr>cache_interval := strtoul_i64 s\<rparr>)"
  "config_wf c \<Longrightarrow> config_wf (c\<lparr>cache_default_duration := strtoul_i64 s\<rparr>)"
proof -
  have i64: "in_i64 (strtoul_i64 s)" for s
    using in_i64_I [of 0] by (auto simp: strtoul_i64_def split: option.split)
  show "config_wf c \<Longrightarrow> config_wf (c\<lparr>cache_interval := strtoul_i64 s\<rparr>)"
    "config_wf c \<Longrightarrow> config_wf (c\<lparr>cache_default_duration := strtoul_i64 s\<rparr>)"
    unfolding config_wf_def using i64 by simp_all
qed (simp_all add: config_wf_def)

lemma config_wf_lists:
  assumes "config_wf c" "fs \<noteq> []" "\<forall>x \<in> set fs. CHR '','' \<notin> set x"
  shows "config_wf (c\<lparr>caches := Some fs\<rparr>)" "config_wf (c\<lparr>prefixes := Some fs\<rparr>)"
    "config_wf (c\<lparr>children := Some fs\<rparr>)" "config_wf (c\<lparr>parents := Some fs\<rparr>)"
  using assms unfolding config_wf_def by simp_all

lemma parse_array_keeps:
  assumes "parse_array env i s config w (\<lambda>args. Ret (Parsed (f args) w)) = Ret (Parsed c' w')"
    "\<And>fs. fs \<noteq> [] \<Longrightarrow> \<forall>x \<in> set fs. CHR '','' \<notin> set x \<Longrightarrow> config_wf (f fs) \<and> local_route (f fs) = local_route config"
  shows "config_wf c' \<and> local_route c' = local_route config"
  using assms by (auto elim: parse_array_Parsed)

lemma parse_opt_keeps:
  assumes "parse_opt env i e config w = Ret (Parsed c' w')" "config_wf config"
    "p_addr env i \<notin> addr ` set (local_route config)"
  shows "config_wf c' \<and> addr ` set (local_route c') \<subseteq> insert (p_addr env i) (addr ` set (local_route config))"
proof -
  have storage: ?thesis if st: "parse_storage env i opt s config w = Ret (Parsed c' w')" for opt s
  proof -
    from st obtain st ps where "c' = config\<lparr>local_route := \<lparr>addr = p_addr env i, storage = st, prefix = ps, nref = 0\<rparr> # local_route config\<rparr>"
      "\<forall>j \<in> set (local_route config). rname j \<noteq> sname st" "ps \<noteq> []" "\<forall>p \<in> set ps. CHR '','' \<notin> set p"
      by (rule parse_storage_Parsed)
    with assms(2,3) show ?thesis by (auto simp: config_wf_def route_ok_def)
  qed
  show ?thesis
  proof (cases e)
    case Opt_bad
    with assms show ?thesis by (simp add: parse_opt_def)
  next
    case (Opt opt arg)
    note arrays = parse_array_keeps [where config = config]
    have "config_wf c' \<and> local_route c' = local_route config \<or> (\<exists>s. parse_storage env i opt s config w = Ret (Parsed c' w'))"
      using assms(1) unfolding Opt parse_opt_def opt_event.case
      by (simp split: option.split_asm if_split_asm)
        (auto simp: config_wf_updates config_wf_lists assms(2) dest!: arrays)
    with storage show ?thesis by auto
  qed
qed

lemma parse_opts_Cons:
  assumes "parse_opts env i (e # es) config w = Ret (Parsed c' w')"
  obtains c1 w1 where "parse_opt env i e config w = Ret (Parsed c1 w1)" "parse_opts env (Suc i) es c1 w1 = Ret (Parsed c' w')"
proof -
  from assms obtain r where r: "parse_opt env i e config w = Ret r"
    "(case r of Exit c w' \<Rightarrow> Ret (Exit c w') | Parsed config' w' \<Rightarrow> parse_opts env (Suc i) es config' w') = Ret (Parsed c' w')"
    by auto
  with that show thesis by (cases r) auto
qed

lemma parse_opts_keeps:
  assumes "parse_opts env i es config w = Ret (Parsed c' w')" "config_wf config" "inj (p_addr env)"
    "addr ` set (local_route config) \<subseteq> p_addr env ` {..<i}"
  shows "config_wf c'"
  using assms
proof (induction env i es config w rule: parse_opts.induct)
  case (2 env i e es config w)
  from 2(2) obtain c1 w1 where step: "parse_opt env i e config w = Ret (Parsed c1 w1)"
    "parse_opts env (Suc i) es c1 w1 = Ret (Parsed c' w')"
    by (elim parse_opts_Cons)
  have "p_addr env i \<notin> addr ` set (local_route config)"
    using 2(4,5) by (auto dest: injD)
  from parse_opt_keeps [OF step(1) 2(3) this]
  have "config_wf c1" "addr ` set (local_route c1) \<subseteq> p_addr env ` {..<Suc i}"
    using 2(5) unfolding lessThan_Suc image_insert by blast+
  with 2(1) [OF step(2)] 2(4) show ?case by blast
qed simp

section \<open>Exits\<close>

text \<open>An option whose argument is a list; the scan of the empty list leaves its array.\<close>

definition list_opt :: "int \<Rightarrow> bool" where
  "list_opt v \<longleftrightarrow> v \<notin> opt_char ` {CHR ''l'', CHR ''N'', CHR ''C'', CHR ''d'', CHR ''n''}"

definition parsers_defined :: "'w propd_config \<Rightarrow> bool" where
  "parsers_defined c \<longleftrightarrow> (\<forall>pc \<in> set (io_parseConfigs c). \<forall>i name args w. parse pc i name args w \<noteq> UB)"

definition config_keeps :: "'w propd_config \<Rightarrow> 'w parse_out c_out \<Rightarrow> bool" where
  "config_keeps c r \<longleftrightarrow>
     (\<exists>c' w'. r = Ret (Parsed c' w') \<and> io_parseConfigs c' = io_parseConfigs c) \<or>
     (\<exists>w'. r = Ret (Exit 0 w')) \<or> (\<exists>w'. r = Ret (Exit 1 w'))"

lemma config_keeps_simps [simp]:
  "config_keeps c (Ret (Parsed c' w')) = (io_parseConfigs c' = io_parseConfigs c)"
  "config_keeps c (Ret (Exit 0 w'))" "config_keeps c (Ret (Exit 1 w'))" "config_keeps c (parse_error c'' w')"
  by (simp_all add: config_keeps_def parse_error_def)

lemma arrayparse_defined: "s \<noteq> [] \<Longrightarrow> \<exists>r. arrayparse_cstring mem s = Ret r"
proof -
  have "\<exists>r. dup_cells m i n (map Some fs) = Ret r" if "n \<le> length fs" for m i n and fs :: "string list"
    using that
  proof (induction fs arbitrary: i n)
    case (Cons f fs)
    show ?case
    proof (cases n)
      case (Suc n')
      with Cons.IH [of n' "Suc i"] Cons.prems show ?thesis by auto
    qed simp
  qed simp
  from this [of "Suc (count_commas s)" "cut_fields [] s"] show "s \<noteq> [] \<Longrightarrow> ?thesis"
    by (simp add: arrayparse_cstring_def arraydup_cstring_def Let_def)
qed

lemma parse_array_defined:
  assumes "s \<noteq> []" "\<And>fs. config_keeps config (f fs)"
  shows "config_keeps config (parse_array env i s config w f)"
  using arrayparse_defined [OF assms(1), of "p_amem env i"] assms(2)
  by (auto simp: parse_array_def split: option.split)

lemma register_defined:
  "\<exists>r. route_register mem a route st 0 (Some (map Some ps @ [None])) = Ret r"
  using arraydup_list [of "\<lambda>i. mem (i + 1)" "Some ps"]
  by (auto simp: route_register_def route_item_create_def simp del: c_bind_Ret)

lemma parse_storage_defined:
  assumes "s \<noteq> []" "0 \<le> opt" "opt < int (length (io_parseConfigs config))" "parsers_defined config"
  shows "config_keeps config (parse_storage env i opt s config w)"
  unfolding parse_storage_def
proof (rule parse_array_defined [OF assms(1)], goal_cases)
  case (1 fs)
  let ?pc = "io_parseConfigs config ! nat opt"
  have "?pc \<in> set (io_parseConfigs config)" using assms(2,3) by simp
  with assms(4) have "parse ?pc i (fs ! argNum ?pc) fs w \<noteq> UB" by (auto simp: parsers_defined_def)
  then obtain r w' where r: "parse ?pc i (fs ! argNum ?pc) fs w = Ret (r, w')"
    by (cases "parse ?pc i (fs ! argNum ?pc) fs w") auto
  have "config_keeps config (c_bind (route_register mem a (local_route config) st 0 (Some (map Some ps @ [None]))) (\<lambda>(r, route').
      case r of Some e \<Rightarrow> parse_error config w' | None \<Rightarrow> Ret (Parsed (config\<lparr>local_route := route'\<rparr>) w')))" for mem a st ps
    using register_defined [of mem a "local_route config" st ps] by (auto split: option.split)
  with r assms(2,3) show ?case by (auto simp: Let_def split: sum.split)
qed

lemma parse_opt_defined:
  assumes "event = Opt_bad \<or> (\<exists>v a. event = Opt v a \<and> known_opt shortopts (longopts config) v (a \<noteq> None) \<and> (list_opt v \<longrightarrow> a \<noteq> Some []))"
    "parsers_defined config"
  shows "config_keeps config (parse_opt env i event config w)"
proof (cases event)
  case Opt_bad
  then show ?thesis by (simp add: parse_opt_def)
next
  case (Opt v a)
  with assms(1) have v: "known_opt shortopts (longopts config) v (a \<noteq> None)" "list_opt v \<Longrightarrow> a \<noteq> Some []" by auto
  show ?thesis
  proof (cases a)
    case None
    with v(1) have "v \<in> opt_char ` {CHR ''h'', CHR ''v'', CHR ''D''}"
      by (auto simp: known_opt_def shortopts_def longopts_def g_longopts_def split: if_splits)
    with Opt None show ?thesis by (auto simp: parse_opt_def)
  next
    case (Some s)
    from v(1) Some have "v \<in> opt_char ` {CHR ''l'', CHR ''N'', CHR ''C'', CHR ''d'', CHR ''n'', CHR ''c'', CHR ''p'', CHR ''i'', CHR ''a''} \<or>
        0 \<le> v \<and> v < int (length (io_parseConfigs config))"
      by (auto simp: known_opt_def shortopts_def longopts_def g_longopts_def in_set_enumerate_eq split: if_splits)
    with v(2) Opt Some assms(2) show ?thesis
      by (simp only: parse_opt_def opt_event.case option.case)
        (auto simp: list_opt_def intro!: parse_array_defined parse_storage_defined)
  qed
qed

lemma parse_opts_defined:
  assumes "\<forall>e \<in> set es. e = Opt_bad \<or> (\<exists>v a. e = Opt v a \<and> known_opt shortopts (longopts config) v (a \<noteq> None) \<and> (list_opt v \<longrightarrow> a \<noteq> Some []))"
    "parsers_defined config"
  shows "config_keeps config (parse_opts env i es config w)"
  using assms
proof (induction es arbitrary: i config w)
  case (Cons e es)
  then have "config_keeps config (parse_opt env i e config w)" by (intro parse_opt_defined) auto
  then consider (parsed) c' w' where "parse_opt env i e config w = Ret (Parsed c' w')" "io_parseConfigs c' = io_parseConfigs config"
    | (exit) k w' where "parse_opt env i e config w = Ret (Exit k w')" "k = 0 \<or> k = 1"
    unfolding config_keeps_def by blast
  then show ?case
  proof cases
    case parsed
    then have "longopts c' = longopts config" "parsers_defined c'" using Cons.prems by (auto simp: longopts_def parsers_defined_def)
    with Cons.IH [of c' "Suc i" w'] Cons.prems parsed show ?thesis by (simp add: config_keeps_def)
  next
    case exit
    then show ?thesis by auto
  qed
qed simp

text \<open>The parsers of the four storages. Members of a position are used as strings when all that it needs are there.\<close>

definition pos_strings :: "json_item \<Rightarrow> bool" where
  "pos_strings it \<longleftrightarrow>
     (it ''name'' \<noteq> None \<and> it ''offset'' \<noteq> None \<and> it ''length'' \<noteq> None \<longrightarrow>
        it ''name'' \<noteq> Some None \<and> it ''offset'' \<noteq> Some None \<and> it ''length'' \<noteq> Some None \<and> it ''mask'' \<noteq> Some None)"

lemma parse_pos_defined: "pos_strings it \<Longrightarrow> parse_pos mem i it \<noteq> UB"
  by (auto simp: parse_pos_def pos_strings_def strtoul0_def split: option.splits)

lemma parse_all_defined: "\<forall>it \<in> set its. pos_strings it \<Longrightarrow> parse_all mem i its \<noteq> UB"
proof (induction its arbitrary: i)
  case (Cons it its)
  then obtain r where r: "parse_pos (mem i) (of_nat i) it = Ret r" using parse_pos_defined [of it "mem i" "of_nat i"] by (cases "parse_pos (mem i) (of_nat i) it") auto
  from Cons obtain ps where "parse_all mem (Suc i) its = Ret ps" by (cases "parse_all mem (Suc i) its") auto
  with r show ?case by (auto split: option.split)
qed simp

lemma length_from_defined: "length_from len (ps @ [\<lparr>pkey = LST_SEARCH_ID_END, pname = nm, poffset = f, plength = l, pmask = m\<rparr>]) \<noteq> UB"
  by (induction ps arbitrary: len) (auto simp: Let_def)

lemma layout_defined:
  assumes "\<And>items it. json = Some items \<Longrightarrow> it \<in> set items \<Longrightarrow> pos_strings it"
  shows "\<exists>r. layout_parse mem0 mem json = Ret r \<and> (\<forall>l. r = Some l \<longrightarrow> layout_length l \<noteq> UB)"
proof (cases json)
  case (Some items)
  with assms obtain ps where "parse_all mem 0 items = Ret ps" using parse_all_defined [of items mem 0] by (cases "parse_all mem 0 items") auto
  with Some show ?thesis by (auto simp: layout_parse_def layout_length_def length_from_defined)
qed (simp add: layout_parse_def)

definition layouts_ok :: "'n cons_env \<Rightarrow> bool" where
  "layouts_ok x \<longleftrightarrow> (\<forall>path items. x_json x path = Some items \<longrightarrow> (\<forall>it \<in> set items. pos_strings it))"

lemma memory_parse_defined:
  assumes "layouts_ok x"
  shows "memory_parse x i name args w \<noteq> UB"
proof -
  from layout_defined [of "x_json x (args ! 1)" "x_layout_mem x i 0" "\<lambda>j. x_layout_mem x i (Suc j)"] assms [unfolded layouts_ok_def] obtain r where
    r: "layout_parse (x_layout_mem x i 0) (\<lambda>j. x_layout_mem x i (Suc j)) (x_json x (args ! 1)) = Ret r" "\<forall>l. r = Some l \<longrightarrow> layout_length l \<noteq> UB"
    by blast
  show ?thesis
  proof (cases r)
    case (Some l)
    with r(2) obtain n where "layout_length l = Ret n" by (cases "layout_length l") auto
    with r(1) Some show ?thesis by (auto simp: memory_parse_def constructor_memory_def Let_def)
  qed (use r(1) in \<open>simp add: memory_parse_def Let_def\<close>)
qed

lemma builtin_defined:
  assumes "layouts_ok x"
  shows "parsers_defined (builtin_config lvl x)"
  using memory_parse_defined [OF assms]
  by (auto simp: parsers_defined_def builtin_config_def propd_config_apply_parser_def propd_config_default_def
      file_parseConfig_def file_parse_def unix_parseConfig_def unix_cmd_parse_def memory_parseConfig_def
      tcp_parseConfig_def tcp_parse_def Let_def split: sum.splits)

lemma star_matches: "prefix_match ''*'' key \<longleftrightarrow> key = ''*'' \<or> key = [] \<or> hd key \<noteq> CHR ''*''"
  by (cases key; cases "tl key") auto

section \<open>Properties\<close>

text \<open>
  C14: a configuration that is written out as a command line is parsed back. Each setting may be written
  with any unique abbreviation of its long name or with its short name, its argument glued, behind
  an equals sign or in the next word, with operands in between; numbers below \<open>2 ^ 63\<close> and lists of
  comma-free strings come out as they went in, and later settings win.
\<close>

theorem propd_config_parse_settings:
  assumes "p_calloc env" "\<forall>i. p_amem env i = mem_ok" "\<forall>p \<in> set ps. part_ok config p"
  shows "propd_config_parse env config (concat (map part_words ps)) w =
    Ret (Parsed (fold (apply_part (p_level env)) ps config) w)"
  using assms scan_parts [of ps config "[]"] parse_opts_parts [of env ps config 0 config w]
  by (simp add: propd_config_parse_def getopt_long_def)

abbreviation plain_penv :: parse_env where
  "plain_penv \<equiv> \<lparr>p_calloc = True, p_level = (\<lambda>_. 0), p_amem = (\<lambda>_. mem_ok), p_rmem = (\<lambda>_. mem_ok), p_addr = (\<lambda>i. i)\<rparr>"

theorem propd_config_parse_settings_witness:
  "propd_config_parse plain_penv (propd_config_default 2) [''--par=a,b'', ''x'', ''-nme'', ''--enable-cache'', base_digits 10 7, ''-D''] (0 :: nat) =
     Ret (Parsed ((propd_config_default 2)\<lparr>parents := Some [''a'', ''b''], cname := Some ''me'', cache_interval := 7, daemon := True\<rparr>) 0)"
proof -
  let ?ps = "[Given (Parents [''a'', ''b'']) (Long_equals ''par''), Operand ''x'', Given (Name ''me'') (Short_glued CHR ''n''),
    Given (Cache 7) (Long_word ''enable-cache''), Daemon False]"
  have "\<forall>p \<in> set ?ps. part_ok (propd_config_default 2 :: nat propd_config) p"
    by (simp add: fields_ok_def find_long_def longopts_def g_longopts_def shortopts_def propd_config_default_def is_option_def)
  from propd_config_parse_settings [OF _ _ this, of plain_penv 0] show ?thesis
    by (simp add: propd_config_default_def)
qed

text \<open>
  C23: a configuration that was parsed is well formed: the storages have different names and addresses, no
  references, and patterns without commas; the times are 64-bit numbers; the lists are not empty.
\<close>

theorem propd_config_parse_wf:
  assumes "propd_config_parse env (builtin_config lvl x) args w = Ret (Parsed c w')" "inj (p_addr env)"
  shows "config_wf c"
proof -
  have "config_wf (builtin_config lvl x)"
    by (simp add: config_wf_def builtin_config_def propd_config_apply_parser_def propd_config_default_def route_ok_def in_i64_def)
  moreover have "local_route (builtin_config lvl x) = []"
    by (simp add: builtin_config_def propd_config_apply_parser_def propd_config_default_def)
  ultimately show ?thesis
    using assms parse_opts_keeps [of env 0 _ "builtin_config lvl x" w c w']
    by (auto simp: propd_config_parse_def split: if_splits)
qed

abbreviation plain_cons :: "nat cons_env" where
  "plain_cons \<equiv> \<lparr>x_mem = (\<lambda>_. mem_ok), x_get_mem = True, x_dir_exists = (\<lambda>_. True), x_mkdir = (\<lambda>_. None), x_conn = (\<lambda>_. None),
     x_ask = (\<lambda>target request w. Ret (Inl ENXIO, w)), x_created = 0, x_json = (\<lambda>_. None), x_layout_mem = (\<lambda>_. mem_ok), x_dev = (\<lambda>_. True)\<rparr>"

abbreviation plain_world :: "nat daemon_world" where
  "plain_world \<equiv> \<lparr>w_fs = empty_fs, w_phys = (\<lambda>_. []), w_net = 0\<rparr>"

lemma one_file_args:
  "propd_config_parse plain_penv (builtin_config 2 plain_cons) [''--file'', ''/d,f,a.*''] plain_world =
     Ret (Parsed ((builtin_config 2 plain_cons)\<lparr>local_route := [\<lparr>addr = 0,
       storage = lift_storage w_fs (\<lambda>v. w_fs_update (\<lambda>_. v)) (file_storage ''f'' ''/d''), prefix = [''a.*''], nref = 0\<rparr>]\<rparr>) plain_world)"
proof -
  let ?c = "builtin_config 2 plain_cons"
  have "spells shortopts (longopts ?c) 3 ''/d,f,a.*'' (Long_word ''file'')"
    by (simp add: find_long_def longopts_def g_longopts_def builtin_config_def propd_config_apply_parser_def
        propd_config_default_def file_parseConfig_def unix_parseConfig_def memory_parseConfig_def tcp_parseConfig_def)
  from scan_spelled [OF this, of "[]" "[]"] have
    "fst (getopt_long shortopts (longopts ?c) [''--file'', ''/d,f,a.*'']) = [Opt 3 (Some ''/d,f,a.*'')]"
    by (simp add: getopt_long_def)
  then show ?thesis
    by (simp add: propd_config_parse_def parse_opt_def parse_storage_def parse_array_def arrayparse_fields Let_def
        builtin_config_def propd_config_apply_parser_def propd_config_default_def file_parseConfig_def
        file_parse_def constructor_file_def file_storage_def route_register_def route_item_create_def arraydup_cstring_def)
qed

theorem propd_config_parse_wf_witness:
  "\<exists>c w'. propd_config_parse plain_penv (builtin_config 2 plain_cons) [''--file'', ''/d,f,a.*''] plain_world = Ret (Parsed c w') \<and> config_wf c"
  using propd_config_parse_wf [OF one_file_args] one_file_args by (simp add: inj_def)

text \<open>
  C24: parsing a command line of the daemon, with its four storages, ends in a configuration or with exit
  code 0 or 1, and has undefined behaviour in two cases only: a list or storage option with an empty argument,
  and a layout file for a memory storage in which a member that is used as a string is none. (Reading a layout
  file and parsing its JSON are arguments of the model.)
\<close>

theorem propd_config_parse_safe:
  assumes "layouts_ok x"
    "\<And>v. list_opt v \<Longrightarrow> Opt v (Some []) \<notin> set (fst (getopt_long shortopts (longopts (builtin_config lvl x)) args))"
  shows "\<exists>r. propd_config_parse env (builtin_config lvl x) args w = Ret r \<and>
    (case r of Parsed c w' \<Rightarrow> io_parseConfigs c = io_parseConfigs (builtin_config lvl x) | Exit k w' \<Rightarrow> k = 0 \<or> k = 1)"
proof -
  let ?config = "builtin_config lvl x"
  have "\<forall>e \<in> set (fst (getopt_long shortopts (longopts ?config) args)). e = Opt_bad \<or>
      (\<exists>v a. e = Opt v a \<and> known_opt shortopts (longopts ?config) v (a \<noteq> None) \<and> (list_opt v \<longrightarrow> a \<noteq> Some []))"
    (is "\<forall>e \<in> ?E. ?P e")
  proof
    fix e
    assume e: "e \<in> ?E"
    show "?P e"
    proof (cases e)
      case (Opt v a)
      with e scan_events [of v a shortopts "longopts ?config" "[]" args] assms(2) [of v] show ?thesis
        by (auto simp: getopt_long_def)
    qed simp
  qed
  from parse_opts_defined [OF this builtin_defined [OF assms(1)], of env 0 w] show ?thesis
    by (auto simp: propd_config_parse_def config_keeps_def)
qed

text \<open>A layout with one position, and the same with a number for its offset.\<close>

abbreviation one_pos :: "string option \<Rightarrow> json_item" where
  "one_pos offset \<equiv> [''name'' \<mapsto> Some ''k'', ''offset'' \<mapsto> offset, ''length'' \<mapsto> Some ''4'']"

abbreviation memory_args :: "string list" where
  "memory_args \<equiv> [''--memory'', ''10,l,m,a.*'']"

lemma memory_args_scan:
  "fst (getopt_long shortopts (longopts (builtin_config 2 x)) memory_args) = [Opt 1 (Some ''10,l,m,a.*'')]"
proof -
  have "spells shortopts (longopts (builtin_config 2 x)) 1 ''10,l,m,a.*'' (Long_word ''memory'')"
    by (simp add: find_long_def longopts_def g_longopts_def builtin_config_def propd_config_apply_parser_def
        propd_config_default_def file_parseConfig_def unix_parseConfig_def memory_parseConfig_def tcp_parseConfig_def)
  from scan_spelled [OF this, of "[]" "[]"] show ?thesis by (simp add: getopt_long_def)
qed

theorem propd_config_parse_safe_witness:
  "\<exists>r. propd_config_parse plain_penv (builtin_config 2 (plain_cons\<lparr>x_json := \<lambda>_. Some [one_pos (Some ''0x8'')]\<rparr>)) memory_args plain_world = Ret r \<and>
     (case r of Parsed c w' \<Rightarrow> length (io_parseConfigs c) = 4 | Exit k w' \<Rightarrow> k = 0 \<or> k = 1)"
proof -
  let ?x = "plain_cons\<lparr>x_json := \<lambda>_. Some [one_pos (Some ''0x8'')]\<rparr>"
  have json: "layouts_ok ?x" by (simp add: layouts_ok_def pos_strings_def)
  have args: "Opt v (Some []) \<notin> set (fst (getopt_long shortopts (longopts (builtin_config 2 ?x)) memory_args))" for v
    unfolding memory_args_scan by simp
  have four: "length (io_parseConfigs (builtin_config 2 ?x)) = 4"
    by (simp add: builtin_config_def propd_config_apply_parser_def propd_config_default_def)
  from propd_config_parse_safe [OF json args, of plain_penv plain_world] obtain r where
    r: "propd_config_parse plain_penv (builtin_config 2 ?x) memory_args plain_world = Ret r"
      "case r of Parsed c w' \<Rightarrow> io_parseConfigs c = io_parseConfigs (builtin_config 2 ?x) | Exit k w' \<Rightarrow> k = 0 \<or> k = 1" by blast
  from r(2) four have "case r of Parsed c w' \<Rightarrow> length (io_parseConfigs c) = 4 | Exit k w' \<Rightarrow> k = 0 \<or> k = 1" by (cases r) simp_all
  with r(1) show ?thesis by blast
qed

text \<open>A layout whose offset is a number of JSON and not a string makes the daemon pass NULL to \<^verbatim>\<open>strtoul\<close>.\<close>

lemma memory_layout_number:
  "propd_config_parse plain_penv (builtin_config 2 (plain_cons\<lparr>x_json := \<lambda>_. Some [one_pos None]\<rparr>)) memory_args plain_world = UB"
  unfolding propd_config_parse_def memory_args_scan
  by (simp add: parse_opt_def parse_storage_def parse_array_def arrayparse_fields Let_def
      builtin_config_def propd_config_apply_parser_def propd_config_default_def memory_parseConfig_def
      memory_parse_def layout_parse_def parse_pos_def strtoul0_def)

text \<open>
  The daemon's \<^verbatim>\<open>main\<close> registers its null storage for \<^verbatim>\<open>*\<close> after the storages of the command line and
  so in front of them: every key that does not begin with a star is served by the null storage, which
  forgets what is set and answers every get with \<open>EOPNOTSUPP\<close>. The storages configured on the
  command line are never asked.
\<close>

theorem propd_main_shadowed:
  assumes "propd_main lvl x env null_mem rmem a args w = Ret (Parsed config w')" "hd (key @ ''x'') \<noteq> CHR ''*''" "value_wf v"
  shows "\<exists>c item. propd_config_parse env (builtin_config lvl x) args w = Ret (Parsed c w') \<and>
    local_route config = item # local_route c \<and> rname item = ''null'' \<and>
    fst (route_match ref (local_route config) key) = Inr (addr item) \<and>
    storage_get (storage item) u key = Ret (Inl EOPNOTSUPP, u) \<and> storage_set (storage item) u key v = Ret (None, u)"
proof -
  obtain r where r: "propd_config_parse env (builtin_config lvl x) args w = Ret r" using assms(1) by (auto simp: propd_main_def)
  with assms(1) obtain c w1 where c: "r = Parsed c w1" by (cases r) (auto simp: propd_main_def)
  have "(constructor_null null_mem ''null'' :: errno + 'a dw storage_ctx) \<noteq> Inl e" for e
    using assms(1) r c by (auto simp: propd_main_def)
  then obtain st where st: "constructor_null null_mem ''null'' = (Inr st :: errno + 'a dw storage_ctx)"
    by (cases "constructor_null null_mem ''null'' :: errno + 'a dw storage_ctx") auto
  have *: "c_bind (propd_config_register rmem a c st 0 (Some [Some ''*'', None])) (\<lambda>(r, config').
      case r of Some e \<Rightarrow> Ret (Exit (errno_code e) w1) | None \<Rightarrow> Ret (Parsed config' w1)) = Ret (Parsed config w')"
    using assms(1) r c st by (simp add: propd_main_def del: c_bind_Ret)
  then obtain rr config' where rr: "propd_config_register rmem a c st 0 (Some [Some ''*'', None]) = Ret (rr, config')" by auto
  with * have reg: "propd_config_register rmem a c st 0 (Some (map Some [''*''] @ [None])) = Ret (None, config)" "w' = w1"
    by (cases rr; simp)+
  from reg(1) obtain route' where "route_register rmem a (local_route c) st 0 (Some (map Some [''*''] @ [None])) = Ret (None, route')"
    "config = c\<lparr>local_route := route'\<rparr>"
    by (auto simp: propd_config_register_def)
  moreover from this(1) obtain qs where
      "arraydup_cstring (\<lambda>j. rmem (j + 1)) (Some (map Some [''*''] @ [None])) 0 = Ret (Some qs)"
      "route' = \<lparr>addr = a, storage = st, prefix = qs, nref = 0\<rparr> # local_route c"
    by (auto simp: route_register_def route_item_create_def split: if_splits option.splits)
  moreover from this(1) have "qs = [''*'']" using arraydup_list [of "\<lambda>j. rmem (j + 1)" "Some [''*'']"] by auto
  ultimately have route: "local_route config = \<lparr>addr = a, storage = st, prefix = [''*''], nref = 0\<rparr> # local_route c" by simp
  have "prefix_match ''*'' key" using assms(2) by (cases key) (auto simp: star_matches)
  moreover have "sname st = ''null''" "get_fn st = None" "set_fn st = Some (\<lambda>w k v. Ret (null_set w k v))"
    using st by (auto simp: constructor_null_def split: if_splits)
  ultimately show ?thesis
    using r c route reg(2) assms(3) by (auto simp: storage_get_def storage_set_def log_value_wf null_set_def)
qed

theorem propd_main_shadowed_witness:
  "\<exists>config w' (c :: nat dw propd_config) item. propd_main 2 plain_cons plain_penv True mem_ok 1 [''--file'', ''/d,f,a.*''] plain_world = Ret (Parsed config w') \<and>
     local_route config = item # local_route c \<and> rname item = ''null'' \<and> map rname (local_route c) = [''f''] \<and>
     fst (route_match False (local_route config) ''a.b'') = Inr (addr item)"
proof -
  obtain config where main:
    "propd_main 2 plain_cons plain_penv True mem_ok 1 [''--file'', ''/d,f,a.*''] plain_world = Ret (Parsed config plain_world)"
    by (simp add: propd_main_def one_file_args constructor_null_def propd_config_register_def route_register_def
        lift_storage_def file_storage_def route_item_create_def arraydup_cstring_def)
  from propd_main_shadowed [OF main, of "''a.b''" "\<lparr>vtype = 1, vlength = 0, vdata = []\<rparr>" False plain_world]
  obtain c item where "Ret (Parsed c plain_world) = propd_config_parse plain_penv (builtin_config 2 plain_cons) [''--file'', ''/d,f,a.*''] plain_world"
    "local_route config = item # local_route c" "rname item = ''null''" "fst (route_match False (local_route config) ''a.b'') = Inr (addr item)"
    by (auto simp: value_wf_def value_ok_def)
  moreover from this(1) have "map rname (local_route c) = [''f'']" unfolding one_file_args by (simp add: lift_storage_def file_storage_def)
  ultimately show ?thesis
    using main by (intro exI [of _ config] exI [of _ plain_world] exI [of _ c] exI [of _ item]) (simp only: simp_thms)
qed

end
