(* ===== verification/Propd_Run.thy ===== *)
theory Propd_Run
  imports Propd_Config Ctrl Server Thread_Pool
begin

text \<open>
  The life of a daemon: \<^verbatim>\<open>__propd_run\<close> and \<^verbatim>\<open>propd_run\<close> of \<^verbatim>\<open>lib/propd.c\<close>, with \<^verbatim>\<open>thread_pool_destroy\<close> of
  \<^verbatim>\<open>lib/infra/thread_pool.c\<close>. The components are created in the order of the code, over their own
  definitions; a step that fails skips the later ones, and what exists is taken down in the order of
  the code. The outcomes of system calls are arguments. The allocations counted are the components' own
  structures; the blocks of items, values and storages are those of the ownership theories.
\<close>

section \<open>State\<close>

text \<open>
  The components that exist. \<open>d_io\<close> holds the namespace's tree, the cache and the route table; whether
  the first and the last of them have been created is \<open>d_has_ns\<close> and \<open>d_has_route\<close>.
\<close>

record ('w, 'a) daemon_state =
  d_os :: os
  d_pool :: "(nat \<times> 'a task_queue) option"
  d_has_ns :: bool
  d_has_route :: bool
  d_io :: "'w io_ctx"
  d_io_srv :: "server option"
  d_ctrl_srv :: "server option"

text \<open>
  The assertions are compiled in when \<open>r_debug\<close>; the default build is without them. Requests that are
  running when the signal comes go on while the parents are asked (\<open>r_late\<close>); those of them that have not
  ended when the storages have been unregistered end or are cancelled after that (\<open>r_busy\<close>).
\<close>

record ('w, 'a) run_env =
  r_debug :: bool
  r_exists :: bool \<comment> \<open>\<^verbatim>\<open>access(g_at, F_OK)\<close>\<close>
  r_mkdir :: bool
  r_pool_mem :: alloc
  r_pool_thread :: "nat \<Rightarrow> errno option"
  r_zero :: "'a task"
  r_ncpu :: int
  r_ns_mem :: bool
  r_cache_mem :: bool
  r_cache_lock :: "errno option"
  r_cache_thread :: "errno option"
  r_route_mem :: bool
  r_route_lock :: "errno option"
  r_io :: srv_env
  r_ctrl :: srv_env
  r_send :: "'w io_ctx ctrl_peer" \<comment> \<open>another daemon's control server, which may in turn ask this one\<close>
  r_freed :: byte
  r_junk :: "byte list"
  r_serve :: "'w io_ctx \<Rightarrow> 'w io_ctx" \<comment> \<open>what the requests between start and signal make of the components\<close>
  r_lost :: nat \<comment> \<open>sockets that control requests of the workers have left open between start and signal\<close>
  r_open :: nat \<comment> \<open>connections that are open when the workers are cancelled, which close neither them nor free their argument\<close>
  r_late :: "'w io_ctx \<Rightarrow> 'w io_ctx" \<comment> \<open>what requests do from then on, until the storages are unregistered\<close>
  r_busy :: "(string option \<times> nat option) list" \<comment> \<open>the key and the storage of each request that is running then\<close>

section \<open>The thread pool and the cache as resources\<close>

text \<open>Allocations of a pool: the structure, its threads, the queue and the queue's slots.\<close>

definition with_pool :: "nat \<Rightarrow> os \<Rightarrow> os" where
  "with_pool n os = (sys_alloc 4 os)\<lparr>threads := threads os + int n\<rparr>"

text \<open>
  \<^verbatim>\<open>thread_pool_destroy\<close>: the workers are cancelled and joined, the slots of the queue are freed by
  \<^verbatim>\<open>task_queue_deinit\<close>; what is queued is forgotten.
\<close>

definition thread_pool_destroy :: "(nat \<times> 'a task_queue) option \<Rightarrow> os \<Rightarrow> os" where
  "thread_pool_destroy pool os =
     (case pool of
        None \<Rightarrow> os
      | Some (n, q) \<Rightarrow> (sys_free (if num q \<noteq> 0 then 4 else 3) os)\<lparr>threads := threads os - int n\<rparr>)"

text \<open>The cache's structure and its cleaner.\<close>

definition with_cleaner :: "os \<Rightarrow> os" where
  "with_cleaner os = (sys_alloc 1 os)\<lparr>threads := threads os + 1\<rparr>"

definition stop_cleaner :: "os \<Rightarrow> os" where
  "stop_cleaner os = (sys_free 1 os)\<lparr>threads := threads os - 1\<rparr>"

section \<open>Start\<close>

definition propd_name :: "'w propd_config \<Rightarrow> string" where
  "propd_name config = (case cname config of None \<Rightarrow> ''root'' | Some n \<Rightarrow> n)"

definition g_at :: "'w propd_config \<Rightarrow> string" where
  "g_at config = (case namespace config of None \<Rightarrow> ''/tmp'' | Some d \<Rightarrow> d)"

text \<open>A step is taken if all before it succeeded (\<^verbatim>\<open>if (!ret)\<close>).\<close>

definition and_then ::
  "(int \<times> 's) c_out \<Rightarrow> ('s \<Rightarrow> (int \<times> 's) c_out) \<Rightarrow> (int \<times> 's) c_out" where
  "and_then r f = c_bind r (\<lambda>(ret, d). if ret = 0 then f d else Ret (ret, d))"

definition run_namespace :: "('w, 'a) run_env \<Rightarrow> ('w, 'a) daemon_state \<Rightarrow> (int \<times> ('w, 'a) daemon_state) c_out" where
  "run_namespace env d = Ret (if r_exists env \<or> r_mkdir env then 0 else - 1, d)"

definition run_pool ::
  "('w, 'a) run_env \<Rightarrow> 'w propd_config \<Rightarrow> ('w, 'a) daemon_state \<Rightarrow> (int \<times> ('w, 'a) daemon_state) c_out" where
  "run_pool env config d =
     (case thread_pool_create (r_pool_mem env) (r_pool_thread env) (r_zero env) (r_ncpu env)
             (thread_num config) 5 (thread_num_max_if_auto config) 0 of
        Inl e \<Rightarrow> Ret (- 1, d)
      | Inr (n, q) \<Rightarrow> Ret (0, d\<lparr>d_pool := Some (n, q), d_os := with_pool n (d_os d)\<rparr>))"

definition run_ns :: "('w, 'a) run_env \<Rightarrow> ('w, 'a) daemon_state \<Rightarrow> (int \<times> ('w, 'a) daemon_state) c_out" where
  "run_ns env d =
     (case named_mutex_create_namespace (r_ns_mem env) of
        None \<Rightarrow> Ret (- 1, d)
      | Some t \<Rightarrow> Ret (0, d\<lparr>d_has_ns := True, d_io := (d_io d)\<lparr>nmtx_ns := t\<rparr>, d_os := sys_alloc 1 (d_os d)\<rparr>))"

definition run_cache ::
  "('w, 'a) run_env \<Rightarrow> 'w propd_config \<Rightarrow> ('w, 'a) daemon_state \<Rightarrow> (int \<times> ('w, 'a) daemon_state) c_out" where
  "run_cache env config d =
     (if cache_interval config = 0 then Ret (0, d)
      else case cache_create (timestamp_from_ms 500) (timestamp_from_s (cache_interval config))
                  (timestamp_from_s (cache_default_duration config)) (timestamp_from_ms 100)
                  (r_cache_mem env) (r_cache_lock env) (r_cache_thread env) of
          Inl e \<Rightarrow> Ret (- 1, d)
        | Inr c \<Rightarrow> Ret (0, d\<lparr>d_io := (d_io d)\<lparr>iocache := Some c\<rparr>, d_os := with_cleaner (d_os d)\<rparr>))"

definition run_route ::
  "('w, 'a) run_env \<Rightarrow> 'w propd_config \<Rightarrow> ('w, 'a) daemon_state \<Rightarrow> (int \<times> ('w, 'a) daemon_state) c_out" where
  "run_route env config d =
     (case route_create (r_route_mem env) (r_route_lock env) of
        Inl e \<Rightarrow> Ret (- 1, d)
      | Inr route \<Rightarrow>
          Ret (0, d\<lparr>d_has_route := True, d_io := (d_io d)\<lparr>ioroute := route_init route (local_route config)\<rparr>,
                 d_os := sys_alloc 1 (d_os d)\<rparr>))"

definition run_io_server ::
  "('w, 'a) run_env \<Rightarrow> 'w propd_config \<Rightarrow> ('w, 'a) daemon_state \<Rightarrow> (int \<times> ('w, 'a) daemon_state) c_out" where
  "run_io_server env config d =
     (case start_io_server (r_io env) (g_at config) (propd_name config) (d_os d) of
        (Inl e, os') \<Rightarrow> Ret (errno_code e, d\<lparr>d_os := os'\<rparr>)
      | (Inr srv, os') \<Rightarrow> Ret (0, d\<lparr>d_io_srv := Some srv, d_os := os'\<rparr>))"

definition run_ctrl_server ::
  "('w, 'a) run_env \<Rightarrow> 'w propd_config \<Rightarrow> ('w, 'a) daemon_state \<Rightarrow> (int \<times> ('w, 'a) daemon_state) c_out" where
  "run_ctrl_server env config d =
     c_bind (start_ctrl_server (r_ctrl env) (g_at config) (propd_name config) (caches config) (prefixes config) (d_os d)) (\<lambda>(r, os').
       case r of
         Inl e \<Rightarrow> Ret (errno_code e, d\<lparr>d_os := os'\<rparr>)
       | Inr srv \<Rightarrow> Ret (0, d\<lparr>d_ctrl_srv := Some srv, d_os := os'\<rparr>))"

text \<open>The sockets that a control request leaves open.\<close>

fun keep_sockets :: "nat \<Rightarrow> os \<Rightarrow> os" where
  "keep_sockets 0 os = os"
| "keep_sockets (Suc n) os = sys_socket (keep_sockets n os)"

text \<open>The registrations with children and parents, up to the first that fails.\<close>

fun register_each ::
  "(string \<Rightarrow> 'w io_ctx \<Rightarrow> (errno option \<times> nat \<times> 'w io_ctx) c_out) \<Rightarrow> string list \<Rightarrow> ('w, 'a) daemon_state \<Rightarrow>
   (int \<times> ('w, 'a) daemon_state) c_out" where
  "register_each reg [] d = Ret (0, d)"
| "register_each reg (n # names) d =
     c_bind (reg n (d_io d)) (\<lambda>(r, kept, io').
       let d = d\<lparr>d_io := io', d_os := keep_sockets kept (d_os d)\<rparr>
       in if r = None then register_each reg names d else Ret (result_code r, d))"

definition run_children ::
  "('w, 'a) run_env \<Rightarrow> 'w propd_config \<Rightarrow> ('w, 'a) daemon_state \<Rightarrow> (int \<times> ('w, 'a) daemon_state) c_out" where
  "run_children env config d =
     register_each (\<lambda>child. ctrl_register_parent (r_send env) (r_freed env) (r_junk env) child (propd_name config))
       (case children config of None \<Rightarrow> [] | Some cs \<Rightarrow> cs) d"

definition run_parents ::
  "('w, 'a) run_env \<Rightarrow> 'w propd_config \<Rightarrow> ('w, 'a) daemon_state \<Rightarrow> (int \<times> ('w, 'a) daemon_state) c_out" where
  "run_parents env config d =
     register_each (\<lambda>parent. ctrl_register_parent (r_send env) (r_freed env) (r_junk env) (propd_name config) parent)
       (case parents config of None \<Rightarrow> [] | Some ps \<Rightarrow> ps) d"

definition propd_start ::
  "('w, 'a) run_env \<Rightarrow> 'w propd_config \<Rightarrow> ('w, 'a) daemon_state \<Rightarrow> (int \<times> ('w, 'a) daemon_state) c_out" where
  "propd_start env config d =
     and_then (and_then (and_then (and_then (and_then (and_then (and_then (and_then
       (run_namespace env d) (run_pool env config)) (run_ns env)) (run_cache env config)) (run_route env config))
       (run_io_server env config)) (run_ctrl_server env config)) (run_children env config)) (run_parents env config)"

section \<open>Stop\<close>

text \<open>
  A server thread that is cancelled waits for its next arrival, with the allocations of that turn
  (\<open>server_loop\<close> without a further turn).
\<close>

definition stop_waiting :: "nat \<Rightarrow> server option \<Rightarrow> os \<Rightarrow> os" where
  "stop_waiting n srv os = (case srv of None \<Rightarrow> os | Some s \<Rightarrow> stop_server n s (sys_alloc (int n) os))"

text \<open>The parents are told, whatever they answer; the first result is the number of sockets left open.\<close>

fun unregister_each ::
  "(string \<Rightarrow> 'w io_ctx \<Rightarrow> (errno option \<times> nat \<times> 'w io_ctx) c_out) \<Rightarrow> string list \<Rightarrow> 'w io_ctx \<Rightarrow> (nat \<times> 'w io_ctx) c_out" where
  "unregister_each unreg [] io = Ret (0, io)"
| "unregister_each unreg (n # names) io =
     c_bind (unreg n io) (\<lambda>(r, kept, io). c_bind (unregister_each unreg names io) (\<lambda>(kept', io). Ret (kept + kept', io)))"

definition unregister_parents ::
  "('w, 'a) run_env \<Rightarrow> 'w propd_config \<Rightarrow> 'w io_ctx \<Rightarrow> (nat \<times> 'w io_ctx) c_out" where
  "unregister_parents env config =
     unregister_each (\<lambda>parent. ctrl_unregister_child (r_send env) (r_freed env) (r_junk env) parent (propd_name config))
       (case parents config of None \<Rightarrow> [] | Some ps \<Rightarrow> ps)"

text \<open>The cancelled workers run the cleanup of the request they were in.\<close>

fun cancel_each :: "(string option \<times> nat option) list \<Rightarrow> 'w io_ctx \<Rightarrow> 'w io_ctx c_out" where
  "cancel_each [] io = Ret io"
| "cancel_each ((key, st) # bs) io = c_bind (cleanup key st io) (cancel_each bs)"

definition unregister_route :: "'w io_ctx \<Rightarrow> 'w io_ctx" where
  "unregister_route io =
     (case route_unregister (ioroute io) None (ioworld io) of (r, route', w') \<Rightarrow> io\<lparr>ioroute := route', ioworld := w'\<rparr>)"

text \<open>The assertions that the table and the tree of the namespace are empty are not in every build.\<close>

definition propd_stop ::
  "('w, 'a) run_env \<Rightarrow> 'w propd_config \<Rightarrow> ('w, 'a) daemon_state \<Rightarrow> ('w, 'a) daemon_state c_out" where
  "propd_stop env config d =
     (let os = stop_waiting 1 (d_io_srv d) (stop_waiting 2 (d_ctrl_srv d) (d_os d))
      in c_bind
           (if d_has_route d then
              c_bind (unregister_parents env config (d_io d)) (\<lambda>(kept, io).
                Ret (keep_sockets kept os, unregister_route (r_late env io)))
            else Ret (os, d_io d)) (\<lambda>(os, io).
         c_bind (if d_pool d = None then Ret io else cancel_each (r_busy env) io) (\<lambda>io.
           let os = thread_pool_destroy (d_pool d) os
           in c_bind (if d_has_route d \<and> r_debug env then route_destroy (ioroute io) else Ret ()) (\<lambda>_.
                let os = (if d_has_route d then sys_free 1 os else os);
                    os = (if iocache io = None then os else stop_cleaner os);
                    io = io\<lparr>iocache := map_option (\<lambda>c. c\<lparr>tree := cache_destroy c\<rparr>) (iocache io)\<rparr>
                in c_bind (if d_has_ns d \<and> r_debug env then named_mutex_destroy_namespace (nmtx_ns io) else Ret ()) (\<lambda>_.
                     Ret (d\<lparr>d_os := (if d_has_ns d then sys_free 1 os else os), d_pool := None, d_has_ns := False,
                            d_has_route := False, d_io := io\<lparr>iocache := None\<rparr>, d_io_srv := None, d_ctrl_srv := None\<rparr>))))))"

definition propd_serve :: "('w, 'a) run_env \<Rightarrow> int \<Rightarrow> ('w, 'a) daemon_state \<Rightarrow> ('w, 'a) daemon_state" where
  "propd_serve env ret d = (if ret = 0 then d\<lparr>d_io := r_serve env (d_io d), d_os := sys_alloc (int (r_open env)) (keep_sockets (r_lost env + r_open env) (d_os d))\<rparr>
                            else d)"

text \<open>\<^verbatim>\<open>__propd_run\<close>: its result, and what it writes to \<^verbatim>\<open>syncfd\<close>, up to the point where it aborts if it does.\<close>

definition propd_run1 ::
  "('w, 'a) run_env \<Rightarrow> 'w propd_config \<Rightarrow> ('w, 'a) daemon_state \<Rightarrow> (int \<times> ('w, 'a) daemon_state) c_out" where
  "propd_run1 env config d =
     c_bind (propd_start env config d) (\<lambda>(ret, d1). c_bind (propd_stop env config (propd_serve env ret d1)) (\<lambda>d2. Ret (ret, d2)))"

definition sync_writes :: "('w, 'a) run_env \<Rightarrow> 'w propd_config \<Rightarrow> ('w, 'a) daemon_state \<Rightarrow> int list" where
  "sync_writes env config d =
     (case propd_start env config d of
        UB \<Rightarrow> []
      | Ret (ret, d1) \<Rightarrow>
          if ret = 0 then [0]
          else ret # (case propd_stop env config (propd_serve env ret d1) of UB \<Rightarrow> [] | Ret _ \<Rightarrow> [ret]))"

section \<open>Daemon mode\<close>

text \<open>The parent's reads of the pipe, which end when every writer is gone.\<close>

definition sync_read :: "int list \<Rightarrow> int" where
  "sync_read ws =
     (case ws of
        [] \<Rightarrow> 0
      | ret # ws' \<Rightarrow> if ret \<noteq> 0 then (case ws' of [] \<Rightarrow> ret | ret' # _ \<Rightarrow> ret') else ret)"

record fork_env =
  f_pipe :: bool
  f_fork1 :: bool
  f_fork2 :: "errno option"

text \<open>
  \<^verbatim>\<open>propd_run\<close>, as the process that called it sees it: the result of the daemon in the foreground, and
  what the pipe brings in daemon mode.
\<close>

definition propd_run ::
  "('w, 'a) run_env \<Rightarrow> fork_env \<Rightarrow> 'w propd_config \<Rightarrow> ('w, 'a) daemon_state \<Rightarrow> int c_out" where
  "propd_run env f config d =
     (if \<not> daemon config then c_bind (propd_run1 env config d) (\<lambda>(ret, d'). Ret ret)
      else if \<not> f_pipe f then Ret (- 1)
      else if \<not> f_fork1 f then Ret (- 1)
      else
        Ret (sync_read (case f_fork2 f of
             Some e \<Rightarrow> [errno_code e, errno_code e]
           | None \<Rightarrow> sync_writes env config d)))"

section \<open>Resources while the daemon runs\<close>

text \<open>No key is locked and no storage is referenced.\<close>

definition idle :: "'w io_ctx \<Rightarrow> bool" where
  "idle io \<longleftrightarrow> nmtx_ns io = Null \<and> (\<forall>i \<in> set (ioroute io). nref i = 0)"

definition same_parts :: "'w io_ctx \<Rightarrow> 'w io_ctx \<Rightarrow> bool" where
  "same_parts io io' \<longleftrightarrow> (idle io \<longrightarrow> idle io') \<and> (iocache io' = None \<longleftrightarrow> iocache io = None)"

text \<open>
  What the environment does between requests: the other daemons and the requests that are served leave
  no key locked and no storage referenced, and nothing is running when the signal comes.
\<close>

definition calm :: "('w, 'a) run_env \<Rightarrow> bool" where
  "calm env \<longleftrightarrow>
     r_busy env = [] \<and> (\<forall>server pkg io. same_parts io (snd (r_send env server pkg io))) \<and>
     (\<forall>io. same_parts io (r_serve env io)) \<and> (\<forall>io. same_parts io (r_late env io))"

text \<open>\<^verbatim>\<open>ctrl_final0\<close> does not take a freed package for a dump.\<close>

definition freed_ok :: "('w, 'a) run_env \<Rightarrow> bool" where
  "freed_ok env \<longleftrightarrow> r_freed env \<noteq> ctrl_dump_db_route_t \<and> r_freed env \<noteq> ctrl_dump_db_cache_t"

text \<open>No connection is open at the end; no control request lacks memory for its package or fails to send it.\<close>

definition all_closed :: "('w, 'a) run_env \<Rightarrow> bool" where
  "all_closed env \<longleftrightarrow> r_lost env = 0 \<and> r_open env = 0 \<and> (\<forall>server pkg io. fst (r_send env server pkg io) \<notin> {No_package, Unsent})"

definition of_opt :: "'b option \<Rightarrow> 'b list" where
  "of_opt x = (case x of None \<Rightarrow> [] | Some a \<Rightarrow> [a])"

lemma of_opt_simps [simp]: "of_opt None = []" "of_opt (Some a) = [a]"
  by (simp_all add: of_opt_def)

text \<open>
  The resources are those the components hold, on top of \<open>os\<close>, and the sockets \<open>lost\<close>; the components from
  the \<open>k\<close>-th on have not been created.
\<close>

definition run_inv :: "os \<Rightarrow> nat list \<Rightarrow> nat \<Rightarrow> ('w, 'a) daemon_state \<Rightarrow> bool" where
  "run_inv os lost k d \<longleftrightarrow>
     (let srvs = of_opt (d_ctrl_srv d) @ of_opt (d_io_srv d); b = (\<lambda>p. if p then 1 else 0)
      in fds (d_os d) = lost @ map s_fd srvs @ fds os \<and> set lost \<inter> (s_fd ` set srvs \<union> set (fds os)) = {} \<and>
         bound (d_os d) = map s_path srvs @ bound os \<and>
         allocs (d_os d) = allocs os + sum_list (map s_own srvs) + b (d_has_route d) + b (iocache (d_io d) \<noteq> None) +
           b (d_has_ns d) + (case d_pool d of None \<Rightarrow> 0 | Some _ \<Rightarrow> 4) \<and>
         threads (d_os d) = threads os + int (length srvs) + b (iocache (d_io d) \<noteq> None) +
           (case d_pool d of None \<Rightarrow> 0 | Some (n, _) \<Rightarrow> int n)) \<and>
     (\<forall>n q. d_pool d = Some (n, q) \<longrightarrow> num q \<noteq> 0) \<and> idle (d_io d) \<and>
     (k \<le> 1 \<longrightarrow> d_pool d = None) \<and> (k \<le> 2 \<longrightarrow> \<not> d_has_ns d) \<and> (k \<le> 3 \<longrightarrow> iocache (d_io d) = None) \<and>
     (k \<le> 4 \<longrightarrow> \<not> d_has_route d) \<and> (k \<le> 5 \<longrightarrow> d_io_srv d = None) \<and> (k \<le> 6 \<longrightarrow> d_ctrl_srv d = None)"

text \<open>All has been created, and at most \<open>n\<close> sockets are lost, none if \<open>sent\<close>.\<close>

definition run_lost :: "bool \<Rightarrow> os \<Rightarrow> nat \<Rightarrow> ('w, 'a) daemon_state \<Rightarrow> bool" where
  "run_lost sent os n d \<longleftrightarrow> (\<exists>lost. run_inv os lost 7 d \<and> length lost \<le> n \<and> (sent \<longrightarrow> lost = []))"

definition keeps :: "('s \<Rightarrow> bool) \<Rightarrow> (int \<times> 's) c_out \<Rightarrow> bool" where
  "keeps P r \<longleftrightarrow> (\<exists>ret d. r = Ret (ret, d) \<and> P d)"

lemma keeps_Ret [simp]: "keeps P (Ret (ret, d)) \<longleftrightarrow> P d"
  by (simp add: keeps_def)

lemma keeps_and_then:
  assumes "keeps P r" "\<And>d. P d \<Longrightarrow> Q d" "\<And>d. P d \<Longrightarrow> keeps Q (f d)"
  shows "keeps Q (and_then r f)"
  using assms by (auto simp: keeps_def and_then_def simp del: c_bind_Ret)

lemma run_inv_later: "run_inv os [] k d \<Longrightarrow> k \<le> m \<Longrightarrow> run_inv os [] m d"
  by (simp add: run_inv_def)

lemma pool_num:
  assumes "thread_pool_create mem th zero ncpu tn 5 mx 0 = Inr (n, q)" "tn \<noteq> 0 \<or> mx \<noteq> 0"
  shows "num q \<noteq> 0"
  using assms by (auto simp: thread_pool_create_def thread_pool_nums_def task_queue_init_def Let_def
      split: if_splits option.splits)

lemmas run_inv_simps = run_inv_def Let_def idle_def with_pool_def with_cleaner_def sys_alloc_def

lemma run_pool_keeps:
  assumes "run_inv os [] 1 d" "thread_num config \<noteq> 0 \<or> thread_num_max_if_auto config \<noteq> 0"
  shows "keeps (run_inv os [] 2) (run_pool env config d)"
  using assms pool_num [of "r_pool_mem env" "r_pool_thread env" "r_zero env" "r_ncpu env" "thread_num config"
      "thread_num_max_if_auto config"]
  by (auto simp: run_pool_def run_inv_simps split: sum.split)

lemma run_ns_keeps: "run_inv os [] 2 d \<Longrightarrow> keeps (run_inv os [] 3) (run_ns env d)"
  by (auto simp: run_ns_def named_mutex_create_namespace_def run_inv_simps)

lemma run_cache_keeps: "run_inv os [] 3 d \<Longrightarrow> keeps (run_inv os [] 4) (run_cache env config d)"
  by (auto simp: run_cache_def run_inv_simps split: sum.split)

lemma run_route_keeps:
  assumes "run_inv os [] 4 d" "\<forall>i \<in> set (local_route config). nref i = 0"
  shows "keeps (run_inv os [] 5) (run_route env config d)"
  using assms by (auto simp: run_route_def route_init_def run_inv_simps split: sum.split)

lemma run_io_server_keeps:
  assumes "run_inv os [] 5 d"
  shows "keeps (run_inv os [] 6) (run_io_server env config d)"
  using assms
  by (cases rule: start_io_server_cases [of "r_io env" "g_at config" "propd_name config" "d_os d"])
    (auto simp: run_io_server_def run_inv_simps with_server_def)

lemma run_ctrl_server_keeps:
  assumes "run_inv os [] 6 d"
  shows "keeps (run_inv os [] 7) (run_ctrl_server env config d)"
  using assms
  by (cases rule: start_ctrl_server_cases [of "r_ctrl env" "g_at config" "propd_name config" "caches config" "prefixes config" "d_os d"])
    (auto simp: run_ctrl_server_def run_inv_simps with_server_def)

text \<open>An exchange with another daemon, whatever it answers, is defined, keeps the components and at most one socket.\<close>

definition exchanges :: "bool \<Rightarrow> (string \<Rightarrow> 'w io_ctx \<Rightarrow> (errno option \<times> nat \<times> 'w io_ctx) c_out) \<Rightarrow> bool" where
  "exchanges sent f \<longleftrightarrow> (\<forall>n io. \<exists>r kept io'. f n io = Ret (r, kept, io') \<and> same_parts io io' \<and> kept \<le> 1 \<and> (sent \<longrightarrow> kept = 0))"

lemma exchangesE:
  assumes "exchanges sent f"
  obtains r kept io' where "f n io = Ret (r, kept, io')" "same_parts io io'" "kept \<le> 1" "sent \<longrightarrow> kept = 0"
  using assms unfolding exchanges_def by blast

lemma ctrl_exchange_calm:
  assumes "calm env" "freed_ok env"
  shows "\<exists>r kept io'. ctrl_exchange (r_send env) (r_freed env) server pkg io = Ret (r, kept, io') \<and> same_parts io io' \<and>
    kept \<le> 1 \<and> (all_closed env \<longrightarrow> kept = 0)"
proof -
  obtain a io' where send: "r_send env server pkg io = (a, io')" by (cases "r_send env server pkg io")
  with assms have "same_parts io io'" by (metis calm_def snd_conv)
  moreover have "all_closed env \<Longrightarrow> a \<noteq> No_package \<and> a \<noteq> Unsent" using send by (metis all_closed_def fst_conv insertCI)
  ultimately show ?thesis using assms(2) send by (cases a) (auto simp: ctrl_exchange_def freed_ok_def)
qed

lemma ctrl_calm:
  assumes "calm env" "freed_ok env"
  shows "exchanges (all_closed env) (\<lambda>n. ctrl_register_parent (r_send env) (r_freed env) (r_junk env) n b)"
    and "exchanges (all_closed env) (ctrl_register_parent (r_send env) (r_freed env) (r_junk env) b)"
    and "exchanges (all_closed env) (\<lambda>n. ctrl_unregister_child (r_send env) (r_freed env) (r_junk env) n b)"
  using ctrl_exchange_calm [OF assms]
  by (simp_all add: exchanges_def ctrl_register_parent_def ctrl_unregister_child_def ctrl_generic0_def)

lemma keep_sockets_fds:
  "\<exists>ns. keep_sockets k os = os\<lparr>fds := ns @ fds os\<rparr> \<and> length ns = k \<and> set ns \<inter> set (fds os) = {}"
proof (induction k)
  case (Suc k)
  then obtain ns where ns: "keep_sockets k os = os\<lparr>fds := ns @ fds os\<rparr>" "length ns = k" "set ns \<inter> set (fds os) = {}" by blast
  have "next_fd (keep_sockets k os) \<notin> set (fds (keep_sockets k os))" by (rule next_fd_fresh)
  with ns show ?case by (intro exI [of _ "next_fd (keep_sockets k os) # ns"]) (auto simp: sys_socket_def)
qed simp

lemma run_inv_io:
  assumes "run_lost sent os m d" "same_parts (d_io d) io'" "sent \<longrightarrow> kept = 0"
  shows "run_lost sent os (m + kept) (d\<lparr>d_io := io', d_os := keep_sockets kept (d_os d)\<rparr>)"
proof -
  from assms(1) obtain lost where lost: "run_inv os lost 7 d" "length lost \<le> m" "sent \<longrightarrow> lost = []" unfolding run_lost_def by blast
  obtain ns where ns: "keep_sockets kept (d_os d) = (d_os d)\<lparr>fds := ns @ fds (d_os d)\<rparr>" "length ns = kept" "set ns \<inter> set (fds (d_os d)) = {}"
    using keep_sockets_fds by blast
  have "run_inv os (ns @ lost) 7 (d\<lparr>d_io := io', d_os := keep_sockets kept (d_os d)\<rparr>)"
    using lost(1) assms(2) ns(3) unfolding ns(1) by (auto simp: run_inv_def same_parts_def Let_def)
  with lost ns(2) assms(3) show ?thesis unfolding run_lost_def by (intro exI [of _ "ns @ lost"]) auto
qed

lemma run_lost_more: "run_lost sent os n d \<Longrightarrow> n \<le> m \<Longrightarrow> run_lost sent os m d"
  by (auto simp: run_lost_def)

lemma run_lost_alloc:
  "run_lost sent os m d \<Longrightarrow> run_lost sent (os\<lparr>allocs := allocs os + k\<rparr>) m (d\<lparr>d_os := sys_alloc k (d_os d)\<rparr>)"
  by (auto simp: run_lost_def run_inv_def sys_alloc_def Let_def)

lemma register_each_keeps:
  assumes "exchanges sent reg" "run_lost sent os m d"
  shows "keeps (run_lost sent os (m + length names)) (register_each reg names d)"
  using assms(2)
proof (induction names arbitrary: m d)
  case (Cons n names)
  from assms(1) obtain r kept io' where reg: "reg n (d_io d) = Ret (r, kept, io')" "same_parts (d_io d) io'" "kept \<le> 1" "sent \<longrightarrow> kept = 0"
    by (rule exchangesE)
  have one: "run_lost sent os (m + 1) (d\<lparr>d_io := io', d_os := keep_sockets kept (d_os d)\<rparr>)"
    by (rule run_lost_more [OF run_inv_io [OF Cons.prems reg(2,4)]]) (use reg(3) in simp)
  from Cons.IH [OF one] reg(1) run_lost_more [OF one, of "m + length (n # names)"] show ?case by (simp add: Let_def)
qed simp

lemma unregister_each_keeps:
  assumes "exchanges sent unreg"
  shows "\<exists>kept io'. unregister_each unreg names io = Ret (kept, io') \<and> same_parts io io' \<and> kept \<le> length names \<and> (sent \<longrightarrow> kept = 0)"
proof (induction names arbitrary: io)
  case (Cons n names)
  from assms obtain r k1 io1 where unreg: "unreg n io = Ret (r, k1, io1)" "same_parts io io1" "k1 \<le> 1" "sent \<longrightarrow> k1 = 0" by (rule exchangesE)
  obtain k2 io2 where "unregister_each unreg names io1 = Ret (k2, io2)" "same_parts io1 io2" "k2 \<le> length names" "sent \<longrightarrow> k2 = 0"
    using Cons.IH by blast
  with unreg show ?case by (auto simp: same_parts_def)
qed (simp add: same_parts_def)

lemma propd_start_keeps:
  assumes "calm env" "freed_ok env" "run_inv os [] 1 d" "thread_num config \<noteq> 0 \<or> thread_num_max_if_auto config \<noteq> 0"
    "\<forall>i \<in> set (local_route config). nref i = 0"
  shows "keeps (run_lost (all_closed env) os (length (concat (of_opt (children config))) + length (concat (of_opt (parents config)))))
    (propd_start env config d)"
proof -
  have "keeps (run_inv os [] 1) (run_namespace env d)" using assms(3) by (simp add: run_namespace_def)
  then have "keeps (run_inv os [] 2) (and_then (run_namespace env d) (run_pool env config))"
    by (rule keeps_and_then) (auto intro: run_inv_later run_pool_keeps [OF _ assms(4)])
  then have "keeps (run_inv os [] 3) (and_then (and_then (run_namespace env d) (run_pool env config)) (run_ns env))"
    by (rule keeps_and_then) (auto intro: run_inv_later run_ns_keeps)
  then have "keeps (run_inv os [] 4) (and_then (and_then (and_then (run_namespace env d) (run_pool env config)) (run_ns env)) (run_cache env config))"
    by (rule keeps_and_then) (auto intro: run_inv_later run_cache_keeps)
  then have "keeps (run_inv os [] 5) (and_then (and_then (and_then (and_then (run_namespace env d) (run_pool env config)) (run_ns env)) (run_cache env config)) (run_route env config))"
    by (rule keeps_and_then) (auto intro: run_inv_later run_route_keeps [OF _ assms(5)])
  then have "keeps (run_inv os [] 6) (and_then (and_then (and_then (and_then (and_then (run_namespace env d) (run_pool env config)) (run_ns env)) (run_cache env config)) (run_route env config)) (run_io_server env config))"
    by (rule keeps_and_then) (auto intro: run_inv_later run_io_server_keeps)
  then have *: "keeps (run_inv os [] 7) (and_then (and_then (and_then (and_then (and_then (and_then (run_namespace env d) (run_pool env config)) (run_ns env)) (run_cache env config)) (run_route env config)) (run_io_server env config)) (run_ctrl_server env config))"
    by (rule keeps_and_then) (auto intro: run_inv_later run_ctrl_server_keeps)
  let ?cs = "concat (of_opt (children config))" and ?ps = "concat (of_opt (parents config))"
  have cs: "(case children config of None \<Rightarrow> [] | Some cs \<Rightarrow> cs) = ?cs" "(case parents config of None \<Rightarrow> [] | Some ps \<Rightarrow> ps) = ?ps"
    by (simp_all split: option.split)
  have zero: "run_lost (all_closed env) os 0 d'" if "run_inv os [] 7 d'" for d' using that by (auto simp: run_lost_def)
  have one: "keeps (run_lost (all_closed env) os (length ?cs)) (run_children env config d')" if "run_inv os [] 7 d'" for d'
    unfolding run_children_def cs using register_each_keeps [OF ctrl_calm(1) [OF assms(1,2)] zero [OF that]] by simp
  have two: "keeps (run_lost (all_closed env) os (length ?cs + length ?ps)) (run_parents env config d')"
    if "run_lost (all_closed env) os (length ?cs) d'" for d'
    unfolding run_parents_def cs by (rule register_each_keeps [OF ctrl_calm(2) [OF assms(1,2)] that])
  show ?thesis unfolding propd_start_def
    by (rule keeps_and_then [OF keeps_and_then [OF * _ one] _ two]) (auto intro: run_lost_more zero)
qed

lemma stop_waiting_fields:
  "stop_waiting n srv os =
     os\<lparr>fds := (case srv of None \<Rightarrow> fds os | Some s \<Rightarrow> remove1 (s_fd s) (fds os)),
       bound := (case srv of None \<Rightarrow> bound os | Some s \<Rightarrow> remove1 (s_path s) (bound os)),
       allocs := allocs os - (case srv of None \<Rightarrow> 0 | Some s \<Rightarrow> s_own s),
       threads := threads os - (case srv of None \<Rightarrow> 0 | Some _ \<Rightarrow> 1)\<rparr>"
  by (auto simp: stop_waiting_def stop_server_def server_cleanup_def sys_free_def sys_close_def sys_unlink_def
      sys_alloc_def split: option.split)

lemma unregister_idle:
  assumes "idle io"
  shows "ioroute (unregister_route io) = []" "nmtx_ns (unregister_route io) = Null"
    "iocache (unregister_route io) = iocache io"
proof -
  have "dropWhile (\<lambda>i. nref i = 0) (ioroute io) = []" using assms by (simp add: idle_def)
  then show "ioroute (unregister_route io) = []" "nmtx_ns (unregister_route io) = Null"
    "iocache (unregister_route io) = iocache io"
    using assms by (simp_all add: unregister_route_def route_unregister_def unregister_all_eq Let_def idle_def)
qed

text \<open>Nothing of the daemon is left, and the resources are those of \<open>os\<close>.\<close>

definition gone :: "os \<Rightarrow> ('w, 'a) daemon_state \<Rightarrow> bool" where
  "gone os d \<longleftrightarrow> d_os d = os \<and> d_pool d = None \<and> \<not> d_has_ns d \<and> \<not> d_has_route d \<and> iocache (d_io d) = None \<and>
     d_io_srv d = None \<and> d_ctrl_srv d = None"

text \<open>What is freed after the servers are gone.\<close>

lemma components_freed:
  assumes "os0 = os\<lparr>fds := xs,
      allocs := allocs os + (if r then 1 else 0) + (if c then 1 else 0) + (if n then 1 else 0) + (case p of None \<Rightarrow> 0 | Some _ \<Rightarrow> 4),
      threads := threads os + (if c then 1 else 0) + (case p of None \<Rightarrow> 0 | Some (m, _) \<Rightarrow> int m)\<rparr>"
    "\<forall>m q. p = Some (m, q) \<longrightarrow> num q \<noteq> 0"
  shows "(let os = thread_pool_destroy p os0; os = (if r then sys_free 1 os else os); os = (if c then stop_cleaner os else os)
    in if n then sys_free 1 os else os) = os\<lparr>fds := xs\<rparr>"
  using assms by (cases p; cases r; cases c; cases n) (auto simp: thread_pool_destroy_def stop_cleaner_def sys_free_def Let_def)

lemma servers_stopped:
  assumes "run_inv os lost 7 d"
  shows "stop_waiting 1 (d_io_srv d) (stop_waiting 2 (d_ctrl_srv d) (d_os d)) = os\<lparr>fds := lost @ fds os,
      allocs := allocs os + (if d_has_route d then 1 else 0) + (if iocache (d_io d) \<noteq> None then 1 else 0) + (if d_has_ns d then 1 else 0) +
        (case d_pool d of None \<Rightarrow> 0 | Some _ \<Rightarrow> 4),
      threads := threads os + (if iocache (d_io d) \<noteq> None then 1 else 0) + (case d_pool d of None \<Rightarrow> 0 | Some (m, _) \<Rightarrow> int m)\<rparr>"
proof (rule os.equality)
qed (use assms in \<open>cases "d_io_srv d"; cases "d_ctrl_srv d"; simp add: run_inv_def Let_def stop_waiting_fields remove1_append\<close>)+

lemma propd_stop_gone:
  assumes "calm env" "freed_ok env" "run_lost (all_closed env) os m d"
  shows "\<exists>lost d'. propd_stop env config d = Ret d' \<and> gone (os\<lparr>fds := lost @ fds os\<rparr>) d' \<and> set lost \<inter> set (fds os) = {} \<and>
    length lost \<le> m + length (concat (of_opt (parents config))) \<and> (all_closed env \<longrightarrow> lost = [])"
proof -
  from assms(3) obtain lost where lost: "run_inv os lost 7 d" "length lost \<le> m" "all_closed env \<longrightarrow> lost = []" unfolding run_lost_def by blast
  have "(case parents config of None \<Rightarrow> [] | Some ps \<Rightarrow> ps) = concat (of_opt (parents config))" by (simp split: option.split)
  then obtain kept io1 where io1: "unregister_parents env config (d_io d) = Ret (kept, io1)" "same_parts (d_io d) io1"
    "kept \<le> length (concat (of_opt (parents config)))" "all_closed env \<longrightarrow> kept = 0"
    using unregister_each_keeps [OF ctrl_calm(3) [OF assms(1,2)], of "propd_name config"] unfolding unregister_parents_def by metis
  have late: "same_parts io1 (r_late env io1)" using assms(1) by (simp add: calm_def)
  have idle: "idle (d_io d)" "idle (r_late env io1)" using lost(1) io1(2) late by (auto simp: run_inv_def same_parts_def)
  let ?io = "if d_has_route d then unregister_route (r_late env io1) else d_io d"
  have io: "nmtx_ns ?io = Null" "d_has_route d \<Longrightarrow> ioroute ?io = []" "iocache ?io = None \<longleftrightarrow> iocache (d_io d) = None"
    using idle unregister_idle [OF idle(2)] io1(2) late by (auto simp: idle_def same_parts_def)
  let ?os0 = "stop_waiting 1 (d_io_srv d) (stop_waiting 2 (d_ctrl_srv d) (d_os d))"
  let ?kept = "if d_has_route d then kept else 0"
  let ?os3 = "let os = thread_pool_destroy (d_pool d) (keep_sockets ?kept ?os0); os = (if d_has_route d then sys_free 1 os else os);
      os = (if iocache (d_io d) \<noteq> None then stop_cleaner os else os) in if d_has_ns d then sys_free 1 os else os"
  have stop: "propd_stop env config d =
    Ret (d\<lparr>d_os := ?os3, d_pool := None, d_has_ns := False, d_has_route := False, d_io := ?io\<lparr>iocache := None\<rparr>,
           d_io_srv := None, d_ctrl_srv := None\<rparr>)"
    using assms(1) io io1(1)
    by (cases "d_has_route d"; cases "d_has_ns d"; cases "d_pool d")
      (simp_all add: propd_stop_def Let_def calm_def route_destroy_def named_mutex_destroy_namespace_def del: c_bind_Ret)
  obtain ns where ns: "keep_sockets ?kept ?os0 = ?os0\<lparr>fds := ns @ fds ?os0\<rparr>" "length ns = ?kept" "set ns \<inter> set (fds ?os0) = {}"
    using keep_sockets_fds by blast
  note os0 = servers_stopped [OF lost(1)]
  have fds: "fds ?os0 = lost @ fds os" unfolding os0 by simp
  have "?os3 = os\<lparr>fds := (ns @ lost) @ fds os\<rparr>"
  proof (rule components_freed, goal_cases)
    case 1
    have "keep_sockets ?kept ?os0 = ?os0\<lparr>fds := (ns @ lost) @ fds os\<rparr>" using ns(1) fds by simp
    then show ?case unfolding os0 by simp
  next
    case 2
    show ?case using lost(1) by (simp add: run_inv_def Let_def)
  qed
  moreover have "set (ns @ lost) \<inter> set (fds os) = {}" using ns(3) lost(1) unfolding fds by (auto simp: run_inv_def Let_def)
  moreover have "length (ns @ lost) \<le> m + length (concat (of_opt (parents config)))" "all_closed env \<longrightarrow> ns @ lost = []"
    using ns(2) lost(2,3) io1(3,4) by auto
  ultimately show ?thesis unfolding stop gone_def by (intro exI [of _ "ns @ lost"]) auto
qed

section \<open>What a successful start has made\<close>

lemma and_then_0: "and_then r f = Ret (0, d') \<Longrightarrow> \<exists>d. r = Ret (0, d) \<and> f d = Ret (0, d')"
  by (auto simp: and_then_def split: if_splits)

lemma register_each_parts:
  "register_each reg names d = Ret (ret, d') \<Longrightarrow> d_has_route d' = d_has_route d \<and> d_pool d' = d_pool d"
proof (induction names arbitrary: d)
  case (Cons n names)
  then obtain r kept io' where "reg n (d_io d) = Ret (r, kept, io')" by auto
  with Cons show ?case by (cases r) (auto simp: Let_def)
qed simp

lemma propd_start_parts:
  assumes "propd_start env config d = Ret (0, d1)"
  shows "d_has_route d1" "d_pool d1 \<noteq> None"
proof -
  from and_then_0 [OF assms [unfolded propd_start_def]] obtain d8 where d8: "run_parents env config d8 = Ret (0, d1)"
    "and_then (and_then (and_then (and_then (and_then (and_then (and_then (run_namespace env d) (run_pool env config)) (run_ns env))
       (run_cache env config)) (run_route env config)) (run_io_server env config)) (run_ctrl_server env config)) (run_children env config) = Ret (0, d8)"
    by blast
  from and_then_0 [OF d8(2)] obtain d7 where d7: "run_children env config d7 = Ret (0, d8)"
    "and_then (and_then (and_then (and_then (and_then (and_then (run_namespace env d) (run_pool env config)) (run_ns env))
       (run_cache env config)) (run_route env config)) (run_io_server env config)) (run_ctrl_server env config) = Ret (0, d7)"
    by blast
  from and_then_0 [OF d7(2)] obtain d6 where d6: "run_ctrl_server env config d6 = Ret (0, d7)"
    "and_then (and_then (and_then (and_then (and_then (run_namespace env d) (run_pool env config)) (run_ns env))
       (run_cache env config)) (run_route env config)) (run_io_server env config) = Ret (0, d6)"
    by blast
  from and_then_0 [OF d6(2)] obtain d5 where d5: "run_io_server env config d5 = Ret (0, d6)"
    "and_then (and_then (and_then (and_then (run_namespace env d) (run_pool env config)) (run_ns env))
       (run_cache env config)) (run_route env config) = Ret (0, d5)"
    by blast
  from and_then_0 [OF d5(2)] obtain d4 where d4: "run_route env config d4 = Ret (0, d5)"
    "and_then (and_then (and_then (run_namespace env d) (run_pool env config)) (run_ns env)) (run_cache env config) = Ret (0, d4)" by blast
  from and_then_0 [OF d4(2)] obtain d3 where d3: "run_cache env config d3 = Ret (0, d4)"
    "and_then (and_then (run_namespace env d) (run_pool env config)) (run_ns env) = Ret (0, d3)" by blast
  from and_then_0 [OF d3(2)] obtain d2 where d2: "run_ns env d2 = Ret (0, d3)"
    "and_then (run_namespace env d) (run_pool env config) = Ret (0, d2)" by blast
  from and_then_0 [OF d2(2)] obtain d9 where "run_pool env config d9 = Ret (0, d2)" by blast
  then have "d_pool d2 \<noteq> None" by (auto simp: run_pool_def split: sum.splits)
  then have "d_pool d3 \<noteq> None" using d2(1) by (auto simp: run_ns_def split: option.splits)
  then have "d_pool d4 \<noteq> None" using d3(1) by (auto simp: run_cache_def split: if_splits sum.splits)
  then have "d_has_route d5 \<and> d_pool d5 \<noteq> None" using d4(1) by (auto simp: run_route_def split: sum.splits)
  then have "d_has_route d6 \<and> d_pool d6 \<noteq> None" using d5(1) by (auto simp: run_io_server_def split: prod.splits sum.splits)
  then have "d_has_route d7 \<and> d_pool d7 \<noteq> None"
    using d6(1)
    by (cases rule: start_ctrl_server_cases [of "r_ctrl env" "g_at config" "propd_name config" "caches config" "prefixes config" "d_os d6"])
      (auto simp: run_ctrl_server_def)
  then show "d_has_route d1" "d_pool d1 \<noteq> None"
    using d7(1) d8(1) by (auto simp: run_children_def run_parents_def dest!: register_each_parts)
qed

section \<open>Requests that are running when the daemon stops\<close>

lemma route_deref_addrs: "route_deref a route = Ret route' \<Longrightarrow> map addr route' = map addr route"
  by (induction route arbitrary: route') (auto split: if_splits)

lemma cleanup_addrs: "cleanup key st io = Ret io' \<Longrightarrow> map addr (ioroute io') = map addr (ioroute io)"
  by (auto simp: cleanup_def split: option.splits dest!: route_deref_addrs)

lemma cancel_each_addrs: "cancel_each bs io = Ret io' \<Longrightarrow> map addr (ioroute io') = map addr (ioroute io)"
  by (induction bs io rule: cancel_each.induct) (auto dest!: cleanup_addrs)

lemma unregister_route_left: "ioroute (unregister_route io) = dropWhile (\<lambda>i. nref i = 0) (ioroute io)"
  by (simp add: unregister_route_def route_unregister_def unregister_all_eq Let_def)

section \<open>Properties\<close>

definition daemon_init :: "os \<Rightarrow> 'w \<Rightarrow> ('w, 'a) daemon_state" where
  "daemon_init os w =
     \<lparr>d_os = os, d_pool = None, d_has_ns = False, d_has_route = False,
      d_io = \<lparr>nmtx_ns = Null, iocache = None, ioroute = [], ioworld = w\<rparr>, d_io_srv = None, d_ctrl_srv = None\<rparr>"

lemma daemon_init_inv: "run_inv os [] 1 (daemon_init os w)"
  by (simp add: run_inv_def daemon_init_def idle_def Let_def)

text \<open>
  C13: whatever step of the start fails before a client connects, and also after a run that is ended by a
  signal when no request is running, the daemon takes down all it has built, with assertions and without, and nothing aborts: socket
  files, threads, the allocations of its components and descriptors are what they were, with two exceptions.
  The sockets of control requests that lacked memory or were not sent are not closed: at most one for each
  child and two for each parent it names, next to those that its workers lost. And each connection that is
  still open at the end keeps its descriptor and the block of its argument, as its worker is cancelled. In
  daemon mode the daemon reports 0 once, or its error twice. The byte that a control request reads in the package it
  has freed must not be that of a dump, and a control server that receives a request must answer it, as the
  daemon waits for the answer without end.
\<close>

theorem propd_run_restores:
  assumes "calm env" "freed_ok env" "thread_num config \<noteq> 0 \<or> thread_num_max_if_auto config \<noteq> 0"
    "\<forall>i \<in> set (local_route config). nref i = 0"
  shows "\<exists>ret lost d'. propd_run1 env config (daemon_init os w) = Ret (ret, d') \<and>
    gone (os\<lparr>fds := lost @ fds os, allocs := allocs os + (if ret = 0 then int (r_open env) else 0)\<rparr>) d' \<and>
    set lost \<inter> set (fds os) = {} \<and> (all_closed env \<longrightarrow> lost = []) \<and>
    length lost \<le> r_lost env + r_open env + length (concat (of_opt (children config))) + 2 * length (concat (of_opt (parents config))) \<and>
    sync_writes env config (daemon_init os w) = (if ret = 0 then [0] else [ret, ret])"
proof -
  let ?n = "length (concat (of_opt (children config))) + length (concat (of_opt (parents config)))"
  let ?m = "?n + (r_lost env + r_open env)" and ?os = "\<lambda>ret :: int. os\<lparr>allocs := allocs os + (if ret = 0 then int (r_open env) else 0)\<rparr>"
  obtain ret d1 where start: "propd_start env config (daemon_init os w) = Ret (ret, d1)" "run_lost (all_closed env) os ?n d1"
    using propd_start_keeps [OF assms(1,2) daemon_init_inv [of os w] assms(3,4)] unfolding keeps_def by blast
  have "same_parts (d_io d1) (r_serve env (d_io d1))" using assms(1) by (simp add: calm_def)
  from run_lost_alloc [OF run_inv_io [OF start(2) this, of "r_lost env + r_open env"], of "int (r_open env)"]
    run_lost_more [OF start(2), of ?m]
  have "run_lost (all_closed env) (?os ret) ?m (propd_serve env ret d1)" by (simp add: propd_serve_def all_closed_def)
  from propd_stop_gone [OF assms(1,2) this, of config] obtain lost d' where stop:
    "propd_stop env config (propd_serve env ret d1) = Ret d'" "gone ((?os ret)\<lparr>fds := lost @ fds (?os ret)\<rparr>) d'"
    "set lost \<inter> set (fds (?os ret)) = {}" "length lost \<le> ?m + length (concat (of_opt (parents config)))" "all_closed env \<longrightarrow> lost = []"
    by blast
  have "(?os ret)\<lparr>fds := lost @ fds (?os ret)\<rparr> = os\<lparr>fds := lost @ fds os, allocs := allocs os + (if ret = 0 then int (r_open env) else 0)\<rparr>"
    by simp
  note gone = stop(2) [unfolded this]
  show ?thesis
  proof (intro exI conjI)
    show "propd_run1 env config (daemon_init os w) = Ret (ret, d')" using start(1) stop(1) by (simp add: propd_run1_def)
    show "length lost \<le> r_lost env + r_open env + length (concat (of_opt (children config))) + 2 * length (concat (of_opt (parents config)))"
      using stop(4) by linarith
  qed (use gone stop(1,3,5) start(1) in \<open>simp_all add: sync_writes_def\<close>)
qed

abbreviation plain_srv :: srv_env where
  "plain_srv \<equiv> \<lparr>s_mem = mem_ok, s_socket = None, s_bind = None, s_listen = None, s_thread = None\<rparr>"

abbreviation plain_run :: "(nat, nat) run_env" where
  "plain_run \<equiv> \<lparr>r_debug = True, r_exists = True, r_mkdir = True, r_pool_mem = mem_ok, r_pool_thread = (\<lambda>_. None),
     r_zero = make_task 0 0 False 0, r_ncpu = 2, r_ns_mem = True, r_cache_mem = True, r_cache_lock = None,
     r_cache_thread = None, r_route_mem = True, r_route_lock = None, r_io = plain_srv, r_ctrl = plain_srv,
     r_send = (\<lambda>server pkg io. (Unsent, io)), r_freed = 9, r_junk = [], r_serve = (\<lambda>io. io), r_lost = 0, r_open = 0,
     r_late = (\<lambda>io. io), r_busy = []\<rparr>"

abbreviation no_os :: os where
  "no_os \<equiv> \<lparr>fds = [], bound = [], allocs = 0, threads = 0\<rparr>"

lemma deaf_run_lost:
  "case propd_run1 plain_run ((propd_config_default 2)\<lparr>parents := Some [''p'']\<rparr>) (daemon_init no_os 0) of
     UB \<Rightarrow> False | Ret (ret, d') \<Rightarrow> length (fds (d_os d')) = 2"
  by code_simp

text \<open>Nobody hears the daemon: it registers with its parent in vain and loses the socket, and again when it stops.\<close>

theorem propd_run_restores_witness:
  "\<exists>ret lost d'. propd_run1 plain_run ((propd_config_default 2)\<lparr>parents := Some [''p'']\<rparr>) (daemon_init no_os 0) = Ret (ret, d') \<and>
     gone (no_os\<lparr>fds := lost\<rparr>) d' \<and> length lost = 2"
proof -
  let ?c = "(propd_config_default 2)\<lparr>parents := Some [''p'']\<rparr>"
  have "calm plain_run" "freed_ok plain_run" by (simp_all add: calm_def same_parts_def freed_ok_def)
  moreover have "thread_num ?c \<noteq> 0 \<or> thread_num_max_if_auto ?c \<noteq> 0" "\<forall>i \<in> set (local_route ?c). nref i = 0"
    by (simp_all add: propd_config_default_def)
  ultimately obtain ret lost d' where run: "propd_run1 plain_run ?c (daemon_init no_os 0) = Ret (ret, d')"
      "gone (no_os\<lparr>fds := lost @ fds no_os, allocs := allocs no_os + (if ret = 0 then int (r_open plain_run) else 0)\<rparr>) d'"
    using propd_run_restores [of plain_run ?c no_os 0] by blast
  from run(2) have "gone (no_os\<lparr>fds := lost\<rparr>) d'" by (cases "ret = 0") simp_all
  with run(1) deaf_run_lost show ?thesis by (intro exI [of _ ret] exI [of _ lost] exI [of _ d']) (simp add: gone_def)
qed

text \<open>
  C19: a request that is still running when the daemon, having told its parents, unregisters its storages:
  the unregistering stops at the first storage that is referenced, and the workers are cancelled only after
  it. With assertions the daemon aborts, as \<^verbatim>\<open>route_destroy\<close> finds the storages that are left. In the
  default build, without them, it frees the table and returns 0, and that storage and all behind it in the
  table are never destroyed. (It is undefined in either build if what the requests release at their end is
  not theirs.)
\<close>

theorem propd_run_busy_aborts:
  assumes "propd_start env config d = Ret (0, d1)" "unregister_parents env config (r_serve env (d_io d1)) = Ret (kept, io1)"
    "i \<in> set (ioroute (r_late env io1))" "nref i \<noteq> 0"
  shows "case cancel_each (r_busy env) (unregister_route (r_late env io1)) of
      UB \<Rightarrow> propd_run1 env config d = UB
    | Ret io2 \<Rightarrow>
        if r_debug env then propd_run1 env config d = UB
        else \<exists>d'. propd_run1 env config d = Ret (0, d') \<and>
          map addr (ioroute (d_io d')) = map addr (dropWhile (\<lambda>i. nref i = 0) (ioroute (r_late env io1))) \<and> ioroute (d_io d') \<noteq> []"
proof -
  let ?io = "unregister_route (r_late env io1)" and ?d = "propd_serve env 0 d1"
  note parts = propd_start_parts [OF assms(1)]
  obtain p where "d_pool d1 = Some p" using parts(2) by blast
  then have d: "d_has_route ?d" "d_pool ?d = Some p" "unregister_parents env config (d_io ?d) = Ret (kept, io1)"
    using parts assms(2) by (simp_all add: propd_serve_def)
  have left: "ioroute ?io \<noteq> []" using assms(3,4) by (auto simp: unregister_route_left)
  show ?thesis
  proof (cases "cancel_each (r_busy env) ?io")
    case UB
    with assms(1) d show ?thesis by (simp add: propd_run1_def propd_stop_def Let_def)
  next
    case (Ret io2)
    note addrs = cancel_each_addrs [OF Ret]
    with left have left: "ioroute io2 \<noteq> []" by auto
    show ?thesis
    proof (cases "r_debug env")
      case True
      with assms(1) d Ret left show ?thesis by (simp add: propd_run1_def propd_stop_def Let_def route_destroy_def)
    next
      case False
      with d Ret have "\<exists>d'. propd_stop env config ?d = Ret d' \<and> ioroute (d_io d') = ioroute io2"
        by (simp add: propd_stop_def Let_def)
      with False assms(1) Ret addrs left show ?thesis by (auto simp: propd_run1_def unregister_route_left)
    qed
  qed
qed

abbreviation busy_run :: "(nat, nat) run_env" where
  "busy_run \<equiv> plain_run\<lparr>r_debug := False, r_serve := (\<lambda>io. io\<lparr>ioroute := [\<lparr>addr = 1, storage = nil_storage ''s'', prefix = [''*''], nref = 1\<rparr>]\<rparr>),
     r_busy := [(None, Some 1)]\<rparr>"

lemma find_never [simp]: "List.find (\<lambda>_. False) xs = None"
  by (induction xs) auto

lemma and_then_Ret [simp]: "and_then (Ret (0, d)) f = f d"
  by (simp add: and_then_def)

theorem propd_run_busy_aborts_witness:
  "propd_run1 (busy_run\<lparr>r_debug := True\<rparr>) (propd_config_default 2) (daemon_init no_os 0) = UB \<and>
   (\<exists>d'. propd_run1 busy_run (propd_config_default 2) (daemon_init no_os 0) = Ret (0, d') \<and> map addr (ioroute (d_io d')) = [1])"
proof -
  let ?c = "propd_config_default 2 :: nat propd_config"
  have c: "thread_num ?c = 0" "thread_num_max_if_auto ?c = 16" "cache_interval ?c = 0" "children ?c = None" "parents ?c = None"
    "caches ?c = None" "prefixes ?c = None" "g_at ?c = ''/tmp''" "propd_name ?c = ''root''"
    by (simp_all add: propd_config_default_def g_at_def propd_name_def)
  have ends: "if b then propd_run1 (busy_run\<lparr>r_debug := b\<rparr>) ?c (daemon_init no_os 0) = UB
      else \<exists>d'. propd_run1 (busy_run\<lparr>r_debug := b\<rparr>) ?c (daemon_init no_os 0) = Ret (0, d') \<and> map addr (ioroute (d_io d')) = [1]" for b
  proof -
    let ?e = "busy_run\<lparr>r_debug := b\<rparr>"
    obtain d1 where d1: "run_pool ?e ?c (daemon_init no_os 0) = Ret (0, d1)" "fds (d_os d1) = []" "bound (d_os d1) = []"
      by (simp add: run_pool_def c thread_pool_create_def thread_pool_nums_def task_queue_init_def daemon_init_def
          with_pool_def sys_alloc_def)
    obtain d2 where d2: "run_ns ?e d1 = Ret (0, d2)" "fds (d_os d2) = []" "bound (d_os d2) = []"
      using d1 by (simp add: run_ns_def named_mutex_create_namespace_def sys_alloc_def)
    obtain d3 where d3: "run_route ?e ?c d2 = Ret (0, d3)" "fds (d_os d3) = []" "bound (d_os d3) = []"
      using d2 by (simp add: run_route_def route_create_def sys_alloc_def)
    obtain d4 where d4: "run_io_server ?e ?c d3 = Ret (0, d4)" "bound (d_os d4) = [''/tmp/propd.root.io'']"
      using d3 by (simp add: run_io_server_def c start_io_server_def start_on_socket_def sys_bind_def sys_alloc_def
          sys_socket_def io_server_path_def snprintf_def)
    obtain d5 where d5: "run_ctrl_server ?e ?c d4 = Ret (0, d5)"
      using d4 by (simp add: run_ctrl_server_def c start_ctrl_server_def start_on_socket_def sys_bind_def sys_alloc_def
          sys_socket_def ctrl_server_path_def snprintf_def arraydup_cstring_def Let_def del: c_bind_Ret)
    have start: "propd_start ?e ?c (daemon_init no_os 0) = Ret (0, d5)"
      using d1 d2 d3 d4 d5 by (simp add: propd_start_def run_namespace_def run_cache_def c run_children_def run_parents_def)
    let ?i = "\<lparr>addr = 1, storage = nil_storage ''s'', prefix = [''*''], nref = 1\<rparr> :: nat route_item"
    have un: "unregister_parents ?e ?c (r_serve ?e (d_io d5)) = Ret (0, (d_io d5)\<lparr>ioroute := [?i]\<rparr>)"
      by (simp add: unregister_parents_def c)
    have cancel: "cancel_each (r_busy ?e) (unregister_route (r_late ?e ((d_io d5)\<lparr>ioroute := [?i]\<rparr>))) =
        Ret ((unregister_route ((d_io d5)\<lparr>ioroute := [?i]\<rparr>))\<lparr>ioroute := [?i\<lparr>nref := 0\<rparr>]\<rparr>)"
      by (simp add: cleanup_def unregister_route_left)
    from propd_run_busy_aborts [OF start un, of ?i] show ?thesis unfolding cancel by auto
  qed
  have "busy_run\<lparr>r_debug := False\<rparr> = busy_run" by simp
  with ends [of True] ends [of False] show ?thesis unfolding if_True if_False by metis
qed

text \<open>
  Daemon mode gives its caller the result that the daemon would give in the foreground, be it success
  or the error of a failed start. A daemon that dies while it starts is reported as a success.
\<close>

theorem propd_run_result:
  assumes "f_pipe f" "f_fork1 f" "f_fork2 f = None"
  shows "(\<forall>ret d'. propd_run1 env config d = Ret (ret, d') \<longrightarrow> propd_run env f config d = Ret ret) \<and>
    (propd_start env config d = UB \<and> daemon config \<longrightarrow> propd_run env f config d = Ret 0)"
proof (cases "daemon config")
  case False
  then show ?thesis by (auto simp: propd_run_def)
next
  case True
  show ?thesis
  proof (cases "propd_start env config d")
    case UB
    with True assms show ?thesis by (simp add: propd_run_def propd_run1_def sync_writes_def sync_read_def)
  next
    case (Ret r)
    then obtain ret d1 where "propd_start env config d = Ret (ret, d1)" by (cases r) auto
    with True assms show ?thesis by (auto simp: propd_run_def propd_run1_def sync_writes_def sync_read_def)
  qed
qed

theorem propd_run_result_witness:
  "propd_run (plain_run\<lparr>r_exists := False, r_mkdir := False\<rparr>) \<lparr>f_pipe = True, f_fork1 = True, f_fork2 = None\<rparr>
     ((propd_config_default 2)\<lparr>daemon := True\<rparr>) (daemon_init no_os 0) = Ret (- 1)"
proof -
  let ?env = "plain_run\<lparr>r_exists := False, r_mkdir := False\<rparr>" and ?c = "(propd_config_default 2)\<lparr>daemon := True\<rparr> :: nat propd_config"
  have "\<exists>d'. propd_run1 ?env ?c (daemon_init no_os 0) = Ret (- 1, d')"
    by (simp add: propd_run1_def propd_start_def and_then_def run_namespace_def propd_serve_def propd_stop_def
        daemon_init_def Let_def del: c_bind_Ret)
  with propd_run_result [of "\<lparr>f_pipe = True, f_fork1 = True, f_fork2 = None\<rparr>" ?env ?c "daemon_init no_os 0"] show ?thesis by auto
qed

text \<open>
  A daemon that is started with neither \<^verbatim>\<open>--caches\<close> nor \<^verbatim>\<open>--prefixes\<close>, which is the default, cannot be
  registered with a parent: what its control server sends for it names no key and no pattern, and the
  parent refuses that with \<open>EINVAL\<close>.
\<close>

theorem default_child_refused:
  assumes "caches config = None" "prefixes config = None"
  shows "register_child ask ce io (recv_package room_for heap
      (ctrl_package_child (propd_name config) (concat (of_opt (caches config))) (concat (of_opt (prefixes config))))) =
    Ret (Some (Some EINVAL, io))"
proof -
  let ?pkg = "ctrl_package_child (propd_name config) [] []"
  have len: "length ?pkg = CTRL_SIZE" by (simp add: ctrl_package_child_def key_field_def)
  then have pkg: "recv_package room_for heap ?pkg = ?pkg @ take (room_for * NAME_MAX) (drop CTRL_SIZE heap)"
    by (simp add: recv_package_def)
  have zero: "le_nat (le_bytes 4 0) = 0" by simp
  have "take 4 (drop 256 ?pkg) = le_bytes 4 0" "take 4 (drop 260 ?pkg) = le_bytes 4 0"
    by (simp_all add: ctrl_package_child_def key_field_def)
  with len have "take 4 (drop 256 (recv_package room_for heap ?pkg)) = le_bytes 4 0"
      "take 4 (drop 260 (recv_package room_for heap ?pkg)) = le_bytes 4 0"
    unfolding pkg by simp_all
  with zero assms show ?thesis by (simp add: register_child_def Let_def)
qed

theorem default_child_refused_witness:
  "register_child deaf_peer plain_ce bare_io (recv_package 16 []
      (ctrl_package_child ''root'' [] [])) = Ret (Some (Some EINVAL, bare_io))"
  using default_child_refused [of "propd_config_default 2" deaf_peer plain_ce bare_io 16 "[]"]
  by (simp add: propd_config_default_def propd_name_def)

end
