(* ===== verification/Prop_Tool.thy ===== *)
theory Prop_Tool
  imports Getopt Ctrl
begin

text \<open>
  The command-line client \<^verbatim>\<open>app/prop/main.c\<close>: its options, its subcommands and what they print, with
  \<^verbatim>\<open>ctrl_dump_db_route\<close> and \<^verbatim>\<open>ctrl_dump_db_cache\<close> of \<^verbatim>\<open>lib/ctrl_client.c\<close> as it calls them, and the
  default of the socket directory in \<^verbatim>\<open>lib/global.c\<close>.
\<close>

section \<open>Environment\<close>

text \<open>
  The daemons below a socket directory, as the unix storage (\<open>q_ask\<close>) and the control client (\<open>q_send\<close>)
  reach them; the outcomes of allocations, of the connection, and the floating-point conversions.
\<close>

record 'w prop_env =
  q_ask :: "string \<Rightarrow> 'w unix_peer"
  q_send :: "string \<Rightarrow> 'w ctrl_peer"
  q_freed :: byte
  q_junk :: "byte list"
  q_mem :: alloc
  q_conn :: "errno option"
  q_get_mem :: bool
  q_created :: timestamp
  q_fmt_f :: "32 word \<Rightarrow> string"
  q_fmt_g :: "64 word \<Rightarrow> string"
  q_strtof :: "string \<Rightarrow> (32 word \<times> bool) option"
  q_strtod :: "string \<Rightarrow> (64 word \<times> bool) option"
  q_stale :: bool \<comment> \<open>\<^verbatim>\<open>errno\<close> is \<open>ERANGE\<close> when a value is parsed\<close>
  q_value_mem :: alloc

datatype out_line = Stdout string | Stderr string

text \<open>The result of a command, the state of the daemons and the lines printed, usage messages left out.\<close>

type_synonym 'w command_out = "(int \<times> 'w \<times> out_line list) c_out"

abbreviation UINT8_MAX :: int where "UINT8_MAX \<equiv> 255"

section \<open>The commands on keys\<close>

definition fail_line :: "string \<Rightarrow> int \<Rightarrow> out_line" where
  "fail_line what ret = Stderr (''fail to '' @ what @ '' ('' @ fmt_d ret @ '')'')"

text \<open>The loops; \<open>ret\<close> is the result so far, which every turn overwrites.\<close>

fun get_each :: "'w prop_env \<Rightarrow> 'w storage_ctx \<Rightarrow> string list \<Rightarrow> int \<Rightarrow> 'w \<Rightarrow> 'w command_out" where
  "get_each env st [] ret w = Ret (ret, w, [])"
| "get_each env st (key # keys) ret w =
     c_bind (storage_get st w key) (\<lambda>(r, w').
       c_bind
         (case r of
            Inl e \<Rightarrow> Ret (errno_code e, fail_line (''get '' @ key) (errno_code e))
          | Inr (v, d) \<Rightarrow> c_bind (value_fmt (q_fmt_f env) (q_fmt_g env) [] 512 v True) (\<lambda>s. Ret (0, Stdout s)))
         (\<lambda>(ret', line).
           c_bind (get_each env st keys ret' w') (\<lambda>(ret'', w'', lines). Ret (ret'', w'', line # lines))))"

text \<open>A value that is not understood is NULL, which \<^verbatim>\<open>storage_set\<close> asserts it is not.\<close>

fun set_each :: "'w prop_env \<Rightarrow> 'w storage_ctx \<Rightarrow> string list \<Rightarrow> int \<Rightarrow> 'w \<Rightarrow> 'w command_out" where
  "set_each env st [] ret w = Ret (ret, w, [])"
| "set_each env st [key] ret w = UB"
| "set_each env st (key # value_str # args) ret w =
     (case value_parse (q_strtof env) (q_strtod env) (q_stale env) (q_value_mem env) value_str of
        Inl e \<Rightarrow> UB
      | Inr v \<Rightarrow>
          c_bind (storage_set st w key v) (\<lambda>(r, w').
            let ret' = result_code r;
                line = (if ret' = 0 then Stderr (''set '' @ key @ '' to '' @ value_str)
                        else fail_line (''set '' @ key @ '' to '' @ value_str) ret')
            in c_bind (set_each env st args ret' w') (\<lambda>(ret'', w'', lines). Ret (ret'', w'', line # lines))))"

fun del_each :: "'w prop_env \<Rightarrow> 'w storage_ctx \<Rightarrow> string list \<Rightarrow> int \<Rightarrow> 'w \<Rightarrow> 'w command_out" where
  "del_each env st [] ret w = Ret (ret, w, [])"
| "del_each env st (key # keys) ret w =
     c_bind (storage_del st w key) (\<lambda>(r, w').
       let ret' = result_code r;
           line = (if ret' = 0 then Stderr (''del '' @ key) else fail_line (''del '' @ key) ret')
       in c_bind (del_each env st keys ret' w') (\<lambda>(ret'', w'', lines). Ret (ret'', w'', line # lines)))"

text \<open>The connection to the server, the loop, the end of the connection.\<close>

definition on_server ::
  "'w prop_env \<Rightarrow> string \<Rightarrow> string \<Rightarrow> ('w storage_ctx \<Rightarrow> 'w \<Rightarrow> 'w command_out) \<Rightarrow> 'w \<Rightarrow> 'w command_out" where
  "on_server env at server loop w =
     (case constructor_unix (q_ask env at) (q_get_mem env) (q_created env) (q_mem env) (q_conn env) server True of
        Inl e \<Rightarrow> Ret (- 1, w, [])
      | Inr st \<Rightarrow> c_bind (loop st w) (\<lambda>(ret, w', lines). Ret (ret, storage_destructor st w', lines)))"

definition command_get :: "'w prop_env \<Rightarrow> string \<Rightarrow> string \<Rightarrow> string list \<Rightarrow> 'w \<Rightarrow> 'w command_out" where
  "command_get env at server argv w =
     (if length argv < 2 then Ret (UINT8_MAX, w, []) else on_server env at server (\<lambda>st. get_each env st (tl argv) 0) w)"

definition command_set :: "'w prop_env \<Rightarrow> string \<Rightarrow> string \<Rightarrow> string list \<Rightarrow> 'w \<Rightarrow> 'w command_out" where
  "command_set env at server argv w =
     (if length argv < 3 \<or> length argv mod 2 = 0 then Ret (UINT8_MAX, w, [])
      else on_server env at server (\<lambda>st. set_each env st (tl argv) 0) w)"

definition command_del :: "'w prop_env \<Rightarrow> string \<Rightarrow> string \<Rightarrow> string list \<Rightarrow> 'w \<Rightarrow> 'w command_out" where
  "command_del env at server argv w =
     (if length argv < 2 then Ret (UINT8_MAX, w, []) else on_server env at server (\<lambda>st. del_each env st (tl argv) 0) w)"

section \<open>The control command\<close>

text \<open>
  \<^verbatim>\<open>ctrl_generic1\<close> with a NULL \<^verbatim>\<open>data\<close>: the rest of the package is what the allocation held. If the freed
  package still has the type of a dump, the assertion on \<^verbatim>\<open>data\<close> fails.
\<close>

definition ctrl_generic1 ::
  "'w ctrl_peer \<Rightarrow> byte \<Rightarrow> byte list \<Rightarrow> string \<Rightarrow> byte \<Rightarrow> 'w \<Rightarrow> (errno option \<times> nat \<times> 'w) c_out" where
  "ctrl_generic1 send freed junk server ty w = ctrl_exchange send freed server (ty # junk) w"

definition ctrl_dump_db_route :: "'w ctrl_peer \<Rightarrow> byte \<Rightarrow> byte list \<Rightarrow> string \<Rightarrow> 'w \<Rightarrow> (errno option \<times> nat \<times> 'w) c_out" where
  "ctrl_dump_db_route send freed junk server w = ctrl_generic1 send freed junk server ctrl_dump_db_route_t w"

definition ctrl_dump_db_cache :: "'w ctrl_peer \<Rightarrow> byte \<Rightarrow> byte list \<Rightarrow> string \<Rightarrow> 'w \<Rightarrow> (errno option \<times> nat \<times> 'w) c_out" where
  "ctrl_dump_db_cache send freed junk server w = ctrl_generic1 send freed junk server ctrl_dump_db_cache_t w"

text \<open>The process ends with the result, and with it the sockets that are still open.\<close>

definition ctrl_result :: "(errno option \<times> nat \<times> 'w) c_out \<Rightarrow> 'w command_out" where
  "ctrl_result r = c_bind r (\<lambda>(r, kept, w'). Ret (result_code r, w', []))"

definition command_ctrl :: "'w prop_env \<Rightarrow> string \<Rightarrow> string \<Rightarrow> string list \<Rightarrow> 'w \<Rightarrow> 'w command_out" where
  "command_ctrl env at server argv w =
     (let send = q_send env at; freed = q_freed env; junk = q_junk env; argc = length argv; usage = Ret (UINT8_MAX, w, [])
      in if argc < 2 then usage
         else if argv ! 1 = ''register_child'' then
           (if 4 \<le> argc then ctrl_result (ctrl_register_child send freed server (argv ! 2) [] (drop 3 argv) w) else usage)
         else if argv ! 1 = ''register_parent'' then
           (if 3 \<le> argc then ctrl_result (ctrl_register_parent send freed junk server (argv ! 2) w) else usage)
         else if argv ! 1 = ''unregister_child'' then
           (if 3 \<le> argc then ctrl_result (ctrl_unregister_child send freed junk server (argv ! 2) w) else usage)
         else if argv ! 1 = ''unregister_parent'' then
           (if 3 \<le> argc then ctrl_result (ctrl_unregister_parent send freed junk server (argv ! 2) w) else usage)
         else if argv ! 1 = ''dump_db_route'' then ctrl_result (ctrl_dump_db_route send freed junk server w)
         else if argv ! 1 = ''dump_db_cache'' then ctrl_result (ctrl_dump_db_cache send freed junk server w)
         else usage)"

section \<open>The program\<close>

text \<open>\<^verbatim>\<open>__propd_env_parse\<close>: the socket directory before any option, from the variable \<^verbatim>\<open>propd_namespace\<close>.\<close>

definition propd_env_parse :: "string option \<Rightarrow> string" where
  "propd_env_parse namespace_s = (case namespace_s of Some (c # s) \<Rightarrow> c # s | _ \<Rightarrow> ''/tmp'')"

definition prop_shortopts :: short_opts where
  "prop_shortopts = [(CHR ''t'', True), (CHR ''N'', True), (CHR ''h'', False)]"

text \<open>The options in turn: the server and the directory, or the exit code.\<close>

fun prop_opts :: "opt_event list \<Rightarrow> string \<Rightarrow> string \<Rightarrow> int + string \<times> string" where
  "prop_opts [] server at = Inr (server, at)"
| "prop_opts (Opt v (Some optarg) # es) server at =
     (if v = opt_char CHR ''t'' then prop_opts es optarg at
      else if v = opt_char CHR ''N'' then prop_opts es server optarg else Inl 1)"
| "prop_opts (Opt v None # es) server at = Inl (if v = opt_char CHR ''h'' then 0 else 1)"
| "prop_opts (Opt_bad # es) server at = Inl 1"

definition prop_main :: "'w prop_env \<Rightarrow> string option \<Rightarrow> string list \<Rightarrow> 'w \<Rightarrow> 'w command_out" where
  "prop_main env namespace_s args w =
     (let (events, argv) = getopt_long prop_shortopts [] args
      in case prop_opts events ''root'' (propd_env_parse namespace_s) of
          Inl code \<Rightarrow> Ret (code, w, [])
        | Inr (server, at) \<Rightarrow>
            if argv = [] then Ret (UINT8_MAX, w, [])
            else if hd argv = ''ctrl'' then command_ctrl env at server argv w
            else if hd argv = ''get'' then command_get env at server argv w
            else if hd argv = ''set'' then command_set env at server argv w
            else if hd argv = ''del'' then command_del env at server argv w
            else Ret (UINT8_MAX, w, []))"

section \<open>The commands on a storage that keeps its contract\<close>

lemma value_fmt_512: "value_wf v \<Longrightarrow> \<exists>t. value_fmt ff fg [] 512 v True = Ret t"
  using value_fmt_wf [of v 512 ff fg True] by auto

context kv_storage
begin

text \<open>
  One line per key, in order: the value of the key or a failure; the result is that of the last key.
\<close>

definition shows_key :: "'w prop_env \<Rightarrow> 'w \<Rightarrow> string \<Rightarrow> out_line \<Rightarrow> int \<Rightarrow> bool" where
  "shows_key env w k line ret \<longleftrightarrow>
     (case contents w k of
        Some v \<Rightarrow> ret = 0 \<and> (\<exists>t. value_fmt (q_fmt_f env) (q_fmt_g env) [] 512 v True = Ret t \<and> line = Stdout t)
      | None \<Rightarrow> ret \<noteq> 0 \<and> line = fail_line (''get '' @ k) ret)"

lemma get_one:
  assumes "ok w" "keys k"
  shows "\<exists>ret w' line. get_each env storage (k # ks) r w =
      c_bind (get_each env storage ks ret w') (\<lambda>(ret'', w'', lines). Ret (ret'', w'', line # lines)) \<and>
    ok w' \<and> contents w' = contents w \<and> shows_key env w k line ret"
proof (cases "contents w k")
  case None
  from get_none_law [OF assms None] obtain w' e where "storage_get storage w k = Ret (Inl e, w')" "errno_ok e" "ok w'" "contents w' = contents w"
    by blast
  moreover from this(2) have "errno_code e \<noteq> 0" by (auto simp: errno_ok_def)
  ultimately show ?thesis
    using None by (intro exI [of _ "errno_code e"] exI [of _ w'] exI [of _ "fail_line (''get '' @ k) (errno_code e)"])
      (simp add: shows_key_def del: c_bind_Ret)
next
  case (Some v)
  from get_law [OF assms Some] obtain w' d where get: "vals v" "storage_get storage w k = Ret (Inr (v, d), w')" "ok w'" "contents w' = contents w"
    by blast
  obtain t where "value_fmt (q_fmt_f env) (q_fmt_g env) [] 512 v True = Ret t"
    using value_fmt_512 [OF vals_ok [OF get(1)]] by blast
  with get Some show ?thesis
    by (intro exI [of _ 0] exI [of _ w'] exI [of _ "Stdout t"]) (simp add: shows_key_def del: c_bind_Ret)
qed

lemma get_each_shows:
  assumes "ok w" "\<forall>k \<in> set ks. keys k"
  shows "\<exists>ret w' lines rets. get_each env storage ks r w = Ret (ret, w', lines) \<and> ok w' \<and> contents w' = contents w \<and>
    length lines = length ks \<and> length rets = length ks \<and>
    (\<forall>i < length ks. shows_key env w (ks ! i) (lines ! i) (rets ! i)) \<and> ret = last (r # rets)"
  using assms
proof (induction ks arbitrary: w r)
  case Nil
  then show ?case by (intro exI [of _ r] exI [of _ w] exI [of _ "[]"]) simp
next
  case (Cons k ks)
  from get_one [of w k env ks r] Cons.prems obtain ret1 w1 line where one:
    "get_each env storage (k # ks) r w = c_bind (get_each env storage ks ret1 w1) (\<lambda>(ret'', w'', lines). Ret (ret'', w'', line # lines))"
    "ok w1" "contents w1 = contents w" "shows_key env w k line ret1" by auto
  from Cons.IH [of w1 ret1] one(2) Cons.prems obtain ret w' lines rets where rest:
    "get_each env storage ks ret1 w1 = Ret (ret, w', lines)" "ok w'" "contents w' = contents w1"
    "length lines = length ks" "length rets = length ks"
    "\<forall>i < length ks. shows_key env w1 (ks ! i) (lines ! i) (rets ! i)" "ret = last (ret1 # rets)" by auto
  have "shows_key env w1 = shows_key env w" using one(3) by (simp add: shows_key_def fun_eq_iff)
  with one rest show ?case
    by (intro exI [of _ ret] exI [of _ w'] exI [of _ "line # lines"] exI [of _ "ret1 # rets"])
      (auto simp: nth_Cons split: nat.split)
qed

lemma set_one:
  assumes "ok w" "keys k" "vals v" "value_parse (q_strtof env) (q_strtod env) (q_stale env) (q_value_mem env) s = Inr v"
  shows "\<exists>ret w' line. set_each env storage [k, s] r w = Ret (ret, w', [line]) \<and> ok w' \<and>
    (ret = 0 \<longrightarrow> contents w' k = Some v \<and> line = Stderr (''set '' @ k @ '' to '' @ s)) \<and>
    (ret \<noteq> 0 \<longrightarrow> contents w' k = contents w k)"
proof -
  from set_law [OF assms(1-3)] obtain r w' where set: "storage_set storage w k v = Ret (r, w')" "\<forall>e. r = Some e \<longrightarrow> errno_ok e" "ok w'"
    "contents w' k = (if r = None then Some v else contents w k)" by blast
  then have "result_code r = 0 \<longleftrightarrow> r = None" by (cases r) (auto simp: result_code_def errno_ok_def)
  with set assms(4) show ?thesis by (auto simp: Let_def)
qed

lemma del_one:
  assumes "ok w" "keys k"
  shows "\<exists>ret w' line. del_each env storage [k] r w = Ret (ret, w', [line]) \<and> ok w' \<and>
    contents w' k = (if ret = 0 then None else contents w k)"
proof -
  from del_law [OF assms] obtain r w' where del: "storage_del storage w k = Ret (r, w')" "\<forall>e. r = Some e \<longrightarrow> errno_ok e" "ok w'"
    "contents w' k = (if r = None then None else contents w k)" by blast
  then have "result_code r = 0 \<longleftrightarrow> r = None" by (cases r) (auto simp: result_code_def errno_ok_def)
  with del show ?thesis by (auto simp: Let_def)
qed

end

section \<open>Properties\<close>

text \<open>
  A value that \<^verbatim>\<open>value_parse\<close> does not understand aborts \<^verbatim>\<open>prop set\<close> once it is connected: the NULL it
  gets is passed on to \<^verbatim>\<open>storage_set\<close>, whose assertion fails. Options are looked for in all words, so that
  a key or a value that begins with a dash, such as a negative number, ends the program with 1
  unless it stands behind two dashes.
\<close>

theorem prop_set_refuses:
  assumes "constructor_unix (q_ask env (propd_env_parse ns')) (q_get_mem env) (q_created env) (q_mem env) (q_conn env) ''root'' True = Inr st"
    "\<forall>s \<in> {k, v}. \<not> is_option s \<and> s \<noteq> ''--''"
  shows "(\<forall>e. value_parse (q_strtof env) (q_strtod env) (q_stale env) (q_value_mem env) v = Inl e \<longrightarrow>
      prop_main env ns' [''set'', k, v] w = UB) \<and>
    (\<forall>c s. c \<notin> {CHR ''t'', CHR ''N'', CHR ''h'', CHR ''-''} \<longrightarrow>
      prop_main env ns' [''set'', k, ''-'' @ [c] @ s] w = Ret (1, w, []) \<and>
      prop_main env ns' [''--'', ''set'', k, ''-'' @ [c] @ s] w = command_set env (propd_env_parse ns') ''root'' [''set'', k, ''-'' @ [c] @ s] w)"
proof (intro conjI allI impI)
  have k: "\<not> is_option k" "k \<noteq> ''--''" "\<not> is_option v" "v \<noteq> ''--''" using assms(2) by auto
  have set: "\<not> is_option ''set''" by (simp add: is_option_def)
  fix e
  assume "value_parse (q_strtof env) (q_strtod env) (q_stale env) (q_value_mem env) v = Inl e"
  with assms(1) k set show "prop_main env ns' [''set'', k, v] w = UB"
    by (simp add: prop_main_def getopt_long_def scan_operand command_set_def on_server_def)
next
  have k: "\<not> is_option k" "k \<noteq> ''--''" using assms(2) by auto
  have set: "\<not> is_option ''set''" by (simp add: is_option_def)
  fix c s
  assume c: "c \<notin> {CHR ''t'', CHR ''N'', CHR ''h'', CHR ''-''}"
  then have "getopt_word prop_shortopts [] (CHR ''-'' # c # s) [] = ([Opt_bad], [])"
    by (simp add: getopt_word_def prop_shortopts_def)
  with c have bad: "getopt_scan prop_shortopts [] ops [CHR ''-'' # c # s] = ([Opt_bad], ops)" for ops
    by (simp add: getopt_scan.simps(2) is_option_def)
  show "prop_main env ns' [''set'', k, ''-'' @ [c] @ s] w = Ret (1, w, [])"
    using k set bad by (simp add: prop_main_def getopt_long_def scan_operand)
  have "getopt_scan prop_shortopts [] [] (''--'' # args) = ([], args)" for args by (simp add: getopt_scan.simps(2))
  then show "prop_main env ns' [''--'', ''set'', k, ''-'' @ [c] @ s] w =
      command_set env (propd_env_parse ns') ''root'' [''set'', k, ''-'' @ [c] @ s] w"
    by (simp add: prop_main_def getopt_long_def)
qed

abbreviation plain_prop :: "nat prop_env" where
  "plain_prop \<equiv> \<lparr>q_ask = (\<lambda>at target request w. Ret (Inl ENXIO, w)), q_send = (\<lambda>at server pkg w. (Unsent, w)), q_freed = 9, q_junk = [],
     q_mem = mem_ok, q_conn = None, q_get_mem = True, q_created = 0, q_fmt_f = (\<lambda>_. []), q_fmt_g = (\<lambda>_. []),
     q_strtof = (\<lambda>_. None), q_strtod = (\<lambda>_. None), q_stale = False, q_value_mem = mem_ok\<rparr>"

theorem prop_set_refuses_witness:
  "prop_main plain_prop None [''set'', ''k'', ''u32:x''] 0 = UB \<and> prop_main plain_prop None [''set'', ''k'', ''-5''] 0 = Ret (1, 0, [])"
proof -
  obtain st where st: "constructor_unix (q_ask plain_prop (propd_env_parse None)) (q_get_mem plain_prop) (q_created plain_prop)
      (q_mem plain_prop) (q_conn plain_prop) ''root'' True = Inr st"
    by (simp add: constructor_unix_def)
  have "value_parse (q_strtof plain_prop) (q_strtod plain_prop) (q_stale plain_prop) (q_value_mem plain_prop) ''u32:x'' = Inl EINVAL"
    by (simp add: value_parse_def value_split_def strtoul_def strto_scan_def strto_sign_def strto_base_def c_isspace_def digit_val_def)
  moreover have "\<forall>s \<in> {''k'', ''u32:x''}. \<not> is_option s \<and> s \<noteq> ''--''" by (simp add: is_option_def)
  ultimately show ?thesis using prop_set_refuses [OF st, of "''k''" "''u32:x''" 0] by auto
qed

end
