(* ===== verification/Splay.thy ===== *)
theory Splay
  imports RB_Tree
begin

text \<open>
  The splay tree of \<^verbatim>\<open>lib/infra/tree.h\<close>. \<^verbatim>\<open>SPLAY\<close> works top-down: the nodes it passes are hung, one
  below the other, to a left and a right tree, whose free ends the pointers \<^verbatim>\<open>__left\<close> and \<^verbatim>\<open>__right\<close> hold;
  at the end both are put below the new root. Here the two trees are the lists of what has been hung to
  them, the last one first; \<open>None\<close> is a NULL dereference or a loop that does not end.
\<close>

section \<open>Trees and the macros on them\<close>

datatype 'a splay = Tip | Bin (splay_left: "'a splay") 'a (splay_right: "'a splay")

fun SPLAY_ROTATE_RIGHT :: "'a splay \<Rightarrow> 'a splay" where
  "SPLAY_ROTATE_RIGHT (Bin (Bin a tmp b) x c) = Bin a tmp (Bin b x c)"
| "SPLAY_ROTATE_RIGHT t = t"

fun SPLAY_ROTATE_LEFT :: "'a splay \<Rightarrow> 'a splay" where
  "SPLAY_ROTATE_LEFT (Bin a x (Bin b tmp c)) = Bin (Bin a x b) tmp c"
| "SPLAY_ROTATE_LEFT t = t"

text \<open>Hang the root, without its left subtree, to the right tree, and go on with the left subtree.\<close>

fun SPLAY_LINKLEFT :: "'a splay \<Rightarrow> ('a \<times> 'a splay) list \<Rightarrow> 'a splay \<times> ('a \<times> 'a splay) list" where
  "SPLAY_LINKLEFT (Bin l x r) R = (l, (x, r) # R)"
| "SPLAY_LINKLEFT Tip R = (Tip, R)"

fun SPLAY_LINKRIGHT :: "'a splay \<Rightarrow> ('a splay \<times> 'a) list \<Rightarrow> 'a splay \<times> ('a splay \<times> 'a) list" where
  "SPLAY_LINKRIGHT (Bin l x r) L = (r, (l, x) # L)"
| "SPLAY_LINKRIGHT Tip L = (Tip, L)"

text \<open>The left and the right tree, with a subtree at the free end.\<close>

definition hang_left :: "('a splay \<times> 'a) list \<Rightarrow> 'a splay \<Rightarrow> 'a splay" where
  "hang_left L t = fold (\<lambda>(l, x) t. Bin l x t) L t"

definition hang_right :: "('a \<times> 'a splay) list \<Rightarrow> 'a splay \<Rightarrow> 'a splay" where
  "hang_right R t = fold (\<lambda>(x, r) t. Bin t x r) R t"

fun SPLAY_ASSEMBLE :: "'a splay \<times> ('a splay \<times> 'a) list \<times> ('a \<times> 'a splay) list \<Rightarrow> 'a splay option" where
  "SPLAY_ASSEMBLE (Bin l x r, L, R) = Some (Bin (hang_left L l) x (hang_right R r))"
| "SPLAY_ASSEMBLE (Tip, L, R) = None"

section \<open>Operations\<close>

function SPLAY_loop ::
  "('a \<Rightarrow> int) \<Rightarrow> 'a splay \<Rightarrow> ('a splay \<times> 'a) list \<Rightarrow> ('a \<times> 'a splay) list \<Rightarrow>
   ('a splay \<times> ('a splay \<times> 'a) list \<times> ('a \<times> 'a splay) list) option" where
  "SPLAY_loop c Tip L R = None"
| "SPLAY_loop c (Bin l x r) L R =
     (if c x < 0 then
        (case l of
           Tip \<Rightarrow> Some (Bin l x r, L, R)
         | Bin ll tmp lr \<Rightarrow>
             let root = (if c tmp < 0 then SPLAY_ROTATE_RIGHT (Bin l x r) else Bin l x r)
             in if c tmp < 0 \<and> splay_left root = Tip then Some (root, L, R)
                else case SPLAY_LINKLEFT root R of (root', R') \<Rightarrow> SPLAY_loop c root' L R')
      else if 0 < c x then
        (case r of
           Tip \<Rightarrow> Some (Bin l x r, L, R)
         | Bin rl tmp rr \<Rightarrow>
             let root = (if 0 < c tmp then SPLAY_ROTATE_LEFT (Bin l x r) else Bin l x r)
             in if 0 < c tmp \<and> splay_right root = Tip then Some (root, L, R)
                else case SPLAY_LINKRIGHT root L of (root', L') \<Rightarrow> SPLAY_loop c root' L' R)
      else Some (Bin l x r, L, R))"
  by pat_completeness auto

termination SPLAY_loop
  by (relation "measure (\<lambda>(c, t, L, R). size t)") (auto split: if_splits)

definition SPLAY :: "('a \<Rightarrow> int) \<Rightarrow> 'a splay \<Rightarrow> 'a splay option" where
  "SPLAY c t = Option.bind (SPLAY_loop c t [] []) SPLAY_ASSEMBLE"

text \<open>\<^verbatim>\<open>SPLAY_MINMAX\<close> is the same loop with a direction instead of a key; with direction 0 it never ends.\<close>

function SPLAY_MINMAX_loop ::
  "int \<Rightarrow> 'a splay \<Rightarrow> ('a splay \<times> 'a) list \<Rightarrow> ('a \<times> 'a splay) list \<Rightarrow>
   ('a splay \<times> ('a splay \<times> 'a) list \<times> ('a \<times> 'a splay) list) option" where
  "SPLAY_MINMAX_loop val Tip L R = None"
| "SPLAY_MINMAX_loop val (Bin l x r) L R =
     (if val < 0 then
        (case l of
           Tip \<Rightarrow> Some (Bin l x r, L, R)
         | Bin ll tmp lr \<Rightarrow>
             let root = SPLAY_ROTATE_RIGHT (Bin l x r)
             in if splay_left root = Tip then Some (root, L, R)
                else case SPLAY_LINKLEFT root R of (root', R') \<Rightarrow> SPLAY_MINMAX_loop val root' L R')
      else if 0 < val then
        (case r of
           Tip \<Rightarrow> Some (Bin l x r, L, R)
         | Bin rl tmp rr \<Rightarrow>
             let root = SPLAY_ROTATE_LEFT (Bin l x r)
             in if splay_right root = Tip then Some (root, L, R)
                else case SPLAY_LINKRIGHT root L of (root', L') \<Rightarrow> SPLAY_MINMAX_loop val root' L' R)
      else None)"
  by pat_completeness auto

termination SPLAY_MINMAX_loop
  by (relation "measure (\<lambda>(c, t, L, R). size t)") (auto split: if_splits)

definition SPLAY_MINMAX :: "int \<Rightarrow> 'a splay \<Rightarrow> 'a splay option" where
  "SPLAY_MINMAX val t = Option.bind (SPLAY_MINMAX_loop val t [] []) SPLAY_ASSEMBLE"

text \<open>The operations return their result and the new tree.\<close>

definition SPLAY_INSERT :: "('a \<Rightarrow> 'a \<Rightarrow> int) \<Rightarrow> 'a \<Rightarrow> 'a splay \<Rightarrow> ('a option \<times> 'a splay) option" where
  "SPLAY_INSERT cmp elm t =
     (if t = Tip then Some (None, Bin Tip elm Tip)
      else case SPLAY (cmp elm) t of
          Some (Bin l x r) \<Rightarrow>
            if cmp elm x < 0 then Some (None, Bin l elm (Bin Tip x r))
            else if 0 < cmp elm x then Some (None, Bin (Bin l x Tip) elm r)
            else Some (Some x, Bin l x r)
        | _ \<Rightarrow> None)"

text \<open>The result is the argument, not the element that was in the tree.\<close>

definition SPLAY_REMOVE :: "('a \<Rightarrow> 'a \<Rightarrow> int) \<Rightarrow> 'a \<Rightarrow> 'a splay \<Rightarrow> ('a option \<times> 'a splay) option" where
  "SPLAY_REMOVE cmp elm t =
     (if t = Tip then Some (None, Tip)
      else case SPLAY (cmp elm) t of
          Some (Bin l x r) \<Rightarrow>
            if cmp elm x = 0 then
              if l = Tip then Some (Some elm, r)
              else (case SPLAY (cmp elm) l of
                  Some (Bin l' y r') \<Rightarrow> Some (Some elm, Bin l' y r)
                | _ \<Rightarrow> None)
            else Some (None, Bin l x r)
        | _ \<Rightarrow> None)"

definition SPLAY_FIND :: "('a \<Rightarrow> int) \<Rightarrow> 'a splay \<Rightarrow> ('a option \<times> 'a splay) option" where
  "SPLAY_FIND c t =
     (if t = Tip then Some (None, Tip)
      else case SPLAY c t of
          Some (Bin l x r) \<Rightarrow> Some (if c x = 0 then Some x else None, Bin l x r)
        | _ \<Rightarrow> None)"

text \<open>The walk to the left; \<^verbatim>\<open>SPLAY_NEXT\<close> is for an element of the tree, which \<^verbatim>\<open>SPLAY\<close> makes its root.\<close>

fun splay_leftmost :: "'a splay \<Rightarrow> 'a option" where
  "splay_leftmost Tip = None"
| "splay_leftmost (Bin l x r) = (if l = Tip then Some x else splay_leftmost l)"

definition SPLAY_NEXT :: "('a \<Rightarrow> int) \<Rightarrow> 'a splay \<Rightarrow> ('a option \<times> 'a splay) option" where
  "SPLAY_NEXT c t =
     (case SPLAY c t of
        Some (Bin l x r) \<Rightarrow> Some (splay_leftmost r, Bin l x r)
      | _ \<Rightarrow> None)"

definition SPLAY_MIN_MAX :: "int \<Rightarrow> 'a splay \<Rightarrow> ('a option \<times> 'a splay) option" where
  "SPLAY_MIN_MAX val t =
     (if t = Tip then Some (None, Tip)
      else case SPLAY_MINMAX val t of
          Some (Bin l x r) \<Rightarrow> Some (Some x, Bin l x r)
        | _ \<Rightarrow> None)"

text \<open>\<^verbatim>\<open>SPLAY_FOREACH\<close>, with a body on a state of its own; every turn splays the tree.\<close>

fun SPLAY_FOREACH_from ::
  "nat \<Rightarrow> ('a \<Rightarrow> 'a \<Rightarrow> int) \<Rightarrow> ('a \<Rightarrow> 's \<Rightarrow> 's) \<Rightarrow> 'a option \<Rightarrow> 'a splay \<Rightarrow> 's \<Rightarrow> ('s \<times> 'a splay) option" where
  "SPLAY_FOREACH_from n cmp body None t s = Some (s, t)"
| "SPLAY_FOREACH_from 0 cmp body (Some x) t s = None"
| "SPLAY_FOREACH_from (Suc n) cmp body (Some x) t s =
     (case SPLAY_NEXT (cmp x) t of
        None \<Rightarrow> None
      | Some (y, t') \<Rightarrow> SPLAY_FOREACH_from n cmp body y t' (body x s))"

definition SPLAY_FOREACH ::
  "('a \<Rightarrow> 'a \<Rightarrow> int) \<Rightarrow> ('a \<Rightarrow> 's \<Rightarrow> 's) \<Rightarrow> 'a splay \<Rightarrow> 's \<Rightarrow> ('s \<times> 'a splay) option" where
  "SPLAY_FOREACH cmp body t s =
     (case SPLAY_MIN_MAX (-1) t of
        None \<Rightarrow> None
      | Some (x, t') \<Rightarrow> SPLAY_FOREACH_from (size t) cmp body x t' s)"

section \<open>Contents\<close>

fun splay_elems :: "'a splay \<Rightarrow> 'a list" where
  "splay_elems Tip = []"
| "splay_elems (Bin l x r) = splay_elems l @ x # splay_elems r"

fun left_elems :: "('a splay \<times> 'a) list \<Rightarrow> 'a list" where
  "left_elems [] = []"
| "left_elems ((l, x) # L) = left_elems L @ splay_elems l @ [x]"

fun right_elems :: "('a \<times> 'a splay) list \<Rightarrow> 'a list" where
  "right_elems [] = []"
| "right_elems ((x, r) # R) = x # splay_elems r @ right_elems R"

lemma hang_elems:
  "splay_elems (hang_left L t) = left_elems L @ splay_elems t"
  "splay_elems (hang_right R t) = splay_elems t @ right_elems R"
proof -
  show "splay_elems (hang_left L t) = left_elems L @ splay_elems t"
    by (induction L arbitrary: t rule: left_elems.induct) (auto simp: hang_left_def)
  show "splay_elems (hang_right R t) = splay_elems t @ right_elems R"
    by (induction R arbitrary: t rule: right_elems.induct) (auto simp: hang_right_def)
qed

lemma splay_elems_Nil [simp]: "splay_elems t = [] \<longleftrightarrow> t = Tip"
  by (cases t) auto

lemma size_splay_elems: "size t = length (splay_elems t)"
  by (induction t) auto

lemma splay_leftmost_first: "splay_leftmost t = first (splay_elems t)"
  by (induction t) auto

text \<open>Both loops end and keep the elements and their order.\<close>

lemma SPLAY_loop_elems:
  "t \<noteq> Tip \<Longrightarrow> \<exists>l x r L' R'. SPLAY_loop c t L R = Some (Bin l x r, L', R') \<and>
     left_elems L' @ (splay_elems l @ x # splay_elems r) @ right_elems R' = left_elems L @ splay_elems t @ right_elems R"
proof (induction c t L R rule: SPLAY_loop.induct)
  case (2 c l x r L R)
  show ?case
  proof (cases "c x < 0")
    case True
    show ?thesis
    proof (cases l)
      case (Bin ll y lr)
      then show ?thesis using "2.IH"(1) [OF True Bin] True by (cases ll) (auto split: if_splits)
    qed (use True in simp)
  next
    case False
    show ?thesis
    proof (cases r)
      case (Bin rl y rr)
      then show ?thesis using "2.IH"(2) [OF False _ Bin] False by (cases rr) (auto split: if_splits)
    qed (use False in simp)
  qed
qed simp

lemma SPLAY_elems:
  assumes "t \<noteq> Tip"
  obtains l x r where "SPLAY c t = Some (Bin l x r)" "splay_elems t = splay_elems l @ x # splay_elems r"
proof -
  from SPLAY_loop_elems [OF assms, of c "[]" "[]"] obtain l x r L R where
    "SPLAY_loop c t [] [] = Some (Bin l x r, L, R)"
    "left_elems L @ (splay_elems l @ x # splay_elems r) @ right_elems R = splay_elems t" by auto
  with that [of "hang_left L l" x "hang_right R r"] show thesis by (simp add: SPLAY_def hang_elems)
qed

lemma SPLAY_MINMAX_loop_eq: "val \<noteq> 0 \<Longrightarrow> SPLAY_MINMAX_loop val t L R = SPLAY_loop (\<lambda>_. val) t L R"
proof (induction val t L R rule: SPLAY_MINMAX_loop.induct)
  case (2 val l x r L R)
  show ?case
  proof (cases "val < 0")
    case True
    show ?thesis
    proof (cases l)
      case (Bin ll y lr)
      then show ?thesis using "2.IH"(1) [OF True Bin] True by (cases ll) auto
    qed (use True in simp)
  next
    case False
    with "2.prems" have "0 < val" by simp
    show ?thesis
    proof (cases r)
      case (Bin rl y rr)
      then show ?thesis using "2.IH"(2) [OF False \<open>0 < val\<close> Bin] \<open>0 < val\<close> by (cases rr) auto
    qed (use \<open>0 < val\<close> in simp)
  qed
qed simp

lemma SPLAY_loop_end:
  "SPLAY_loop (\<lambda>_. val) t L R = Some (Bin l x r, L', R') \<Longrightarrow>
     (val < 0 \<longrightarrow> l = Tip \<and> L' = L) \<and> (0 < val \<longrightarrow> r = Tip \<and> R' = R)"
proof (induction "\<lambda>_ :: 'a. val" t L R rule: SPLAY_loop.induct)
  case (2 l0 x0 r0 L R)
  show ?case
  proof (cases "val < 0")
    case True
    show ?thesis
    proof (cases l0)
      case (Bin ll y lr)
      then show ?thesis using "2.hyps"(1) [OF True Bin] "2.prems" True by (cases ll) auto
    qed (use "2.prems" True in auto)
  next
    case False
    show ?thesis
    proof (cases r0)
      case (Bin rl y rr)
      then show ?thesis using "2.hyps"(2) [OF False _ Bin] "2.prems" False by (cases rr) (auto split: if_splits)
    qed (use "2.prems" False in \<open>auto split: if_splits\<close>)
  qed
qed simp

lemma SPLAY_MIN_first:
  "\<exists>t'. SPLAY_MIN_MAX (-1) t = Some (first (splay_elems t), t') \<and> splay_elems t' = splay_elems t"
proof (cases "t = Tip")
  case False
  obtain l x r L R where loop: "SPLAY_loop (\<lambda>_. - 1) t [] [] = Some (Bin l x r, L, R)"
    and elems: "left_elems L @ (splay_elems l @ x # splay_elems r) @ right_elems R = splay_elems t"
    using SPLAY_loop_elems [OF False, of "\<lambda>_. - 1" "[]" "[]"] by auto
  from SPLAY_loop_end [OF loop] have "l = Tip" "L = []" by auto
  with loop elems [symmetric] False show ?thesis
    by (simp add: SPLAY_MIN_MAX_def SPLAY_MINMAX_def SPLAY_MINMAX_loop_eq hang_elems hang_left_def)
qed (simp add: SPLAY_MIN_MAX_def)

lemma SPLAY_MAX_last:
  "\<exists>t'. SPLAY_MIN_MAX 1 t = Some (first (rev (splay_elems t)), t') \<and> splay_elems t' = splay_elems t"
proof (cases "t = Tip")
  case False
  obtain l x r L R where loop: "SPLAY_loop (\<lambda>_. 1) t [] [] = Some (Bin l x r, L, R)"
    and elems: "left_elems L @ (splay_elems l @ x # splay_elems r) @ right_elems R = splay_elems t"
    using SPLAY_loop_elems [OF False, of "\<lambda>_. 1" "[]" "[]"] by auto
  from SPLAY_loop_end [OF loop] have "r = Tip" "R = []" by auto
  with loop elems [symmetric] False show ?thesis
    by (simp add: SPLAY_MIN_MAX_def SPLAY_MINMAX_def SPLAY_MINMAX_loop_eq hang_elems hang_right_def)
qed (simp add: SPLAY_MIN_MAX_def)

text \<open>
  Where the loop stops, and what has been hung to the two trees last: the comparison says that they are
  on their sides of the searched key.
\<close>

lemma SPLAY_loop_ends:
  assumes "SPLAY_loop c t L R = Some (Bin l x r, L', R')" "L = [] \<or> 0 < c (snd (hd L))" "R = [] \<or> c (fst (hd R)) < 0"
  shows "(L' = [] \<or> 0 < c (snd (hd L'))) \<and> (R' = [] \<or> c (fst (hd R')) < 0) \<and>
    (c x = 0 \<or> c x < 0 \<and> l = Tip \<or> 0 < c x \<and> r = Tip)"
  using assms
proof (induction c t L R rule: SPLAY_loop.induct)
  case (2 c l0 x0 r0 L R)
  show ?case
  proof (cases "c x0 < 0")
    case True
    show ?thesis
    proof (cases l0)
      case (Bin ll y lr)
      then show ?thesis using "2.IH"(1) [OF True Bin] "2.prems" True by (cases ll) (auto split: if_splits)
    qed (use "2.prems" True in auto)
  next
    case False
    show ?thesis
    proof (cases r0)
      case (Bin rl y rr)
      then show ?thesis using "2.IH"(2) [OF False _ Bin] "2.prems" False by (cases rr) (auto split: if_splits)
    qed (use "2.prems" False in \<open>auto split: if_splits\<close>)
  qed
qed simp

section \<open>With keys\<close>

context three_way
begin

abbreviation splay_sorted :: "'a splay \<Rightarrow> bool" where
  "splay_sorted t \<equiv> sorted_wrt (<) (map key (splay_elems t))"

lemma left_elems_less:
  "sorted_wrt (<) (map key (left_elems L)) \<Longrightarrow> L = [] \<or> 0 < probe k (snd (hd L)) \<Longrightarrow> \<forall>y \<in> set (left_elems L). key y < k"
  by (cases L rule: left_elems.cases) (fastforce simp: sorted_wrt_append probe_greater)+

lemma right_elems_greater:
  "sorted_wrt (<) (map key (right_elems R)) \<Longrightarrow> R = [] \<or> probe k (fst (hd R)) < 0 \<Longrightarrow> \<forall>y \<in> set (right_elems R). k < key y"
  by (cases R rule: right_elems.cases) (auto simp: sorted_wrt_append probe_less intro: less_trans)

lemma SPLAY_split:
  assumes "splay_sorted t" "t \<noteq> Tip"
  obtains l x r where "SPLAY (probe k) t = Some (Bin l x r)" "splay_elems t = splay_elems l @ x # splay_elems r"
    "\<forall>y \<in> set (splay_elems l). key y < k" "\<forall>y \<in> set (splay_elems r). k < key y"
proof -
  from SPLAY_loop_elems [OF assms(2), of "probe k" "[]" "[]"] obtain l x r L R where
    loop: "SPLAY_loop (probe k) t [] [] = Some (Bin l x r, L, R)"
    and elems: "left_elems L @ (splay_elems l @ x # splay_elems r) @ right_elems R = splay_elems t" by auto
  note ends = SPLAY_loop_ends [OF loop, simplified]
  from assms(1) have s: "sorted_wrt (<) (map key (left_elems L @ (splay_elems l @ x # splay_elems r) @ right_elems R))"
    by (simp only: elems)
  then have x: "\<forall>y \<in> set (splay_elems l). key y < key x" "\<forall>y \<in> set (splay_elems r). key x < key y"
    by (auto simp: sorted_wrt_append)
  from s have "\<forall>y \<in> set (left_elems L). key y < k" "\<forall>y \<in> set (right_elems R). k < key y"
    using ends left_elems_less [of L k] right_elems_greater [of R k] by (auto simp: sorted_wrt_append)
  moreover have "\<forall>y \<in> set (splay_elems l). key y < k" "\<forall>y \<in> set (splay_elems r). k < key y"
    using ends x probe_less [of k x] probe_greater [of k x] by fastforce+
  ultimately show thesis
    using that [of "hang_left L l" x "hang_right R r"] loop elems by (simp add: SPLAY_def hang_elems ball_Un)
qed

lemma SPLAY_FIND_spec:
  assumes "splay_sorted t"
  shows "\<exists>t'. SPLAY_FIND (probe k) t = Some (List.find (\<lambda>y. key y = k) (splay_elems t), t') \<and> splay_elems t' = splay_elems t"
proof (cases "t = Tip")
  case False
  from assms False obtain l x r where splay: "SPLAY (probe k) t = Some (Bin l x r)" "splay_elems t = splay_elems l @ x # splay_elems r"
    "\<forall>y \<in> set (splay_elems l). key y < k" "\<forall>y \<in> set (splay_elems r). k < key y" by (rule SPLAY_split)
  have "List.find (\<lambda>y. key y = k) (splay_elems t) = (if probe k x = 0 then Some x else None)"
  proof (cases "key x = k")
    case True
    then have "probe k x = 0" using probe_less [of k x] probe_greater [of k x] by simp
    with True assms splay(2) find_sorted_keys [OF assms, of k x] show ?thesis by simp
  next
    case False
    then have "probe k x \<noteq> 0" using probe_less [of k x] probe_greater [of k x] by fastforce
    with False splay(2-4) show ?thesis by (auto simp: find_None_iff)
  qed
  with splay False show ?thesis by (simp add: SPLAY_FIND_def)
qed (simp add: SPLAY_FIND_def)

lemma SPLAY_INSERT_spec:
  assumes "splay_sorted t"
  shows "\<exists>res t'. SPLAY_INSERT cmp x t = Some (res, t') \<and> res = List.find (\<lambda>y. key y = key x) (splay_elems t) \<and>
    splay_elems t' = (if res = None then filter (\<lambda>y. key y < key x) (splay_elems t) @ x # filter (\<lambda>y. key x < key y) (splay_elems t)
      else splay_elems t)"
proof (cases "t = Tip")
  case False
  from assms False obtain l z r where splay: "SPLAY (cmp x) t = Some (Bin l z r)" "splay_elems t = splay_elems l @ z # splay_elems r"
    "\<forall>y \<in> set (splay_elems l). key y < key x" "\<forall>y \<in> set (splay_elems r). key x < key y" by (rule SPLAY_split)
  consider (LT) "key x < key z" | (GT) "key z < key x" | (EQ) "key z = key x" by fastforce
  then show ?thesis
  proof cases
    case LT
    then have "cmp x z < 0" by (simp add: probe_less)
    moreover from LT splay(2-4) have "List.find (\<lambda>y. key y = key x) (splay_elems t) = None" by (auto simp: find_None_iff)
    moreover have "\<forall>y \<in> set (z # splay_elems r). key x < key y" using LT splay(4) by simp
    ultimately show ?thesis
      using splay False key_split [OF splay(3), of "z # splay_elems r"] by (simp add: SPLAY_INSERT_def)
  next
    case GT
    then have "\<not> cmp x z < 0" "0 < cmp x z" using probe_less [of "key x" z] probe_greater [of "key x" z] by auto
    moreover from GT splay(2-4) have "List.find (\<lambda>y. key y = key x) (splay_elems t) = None" by (auto simp: find_None_iff)
    moreover have "\<forall>y \<in> set (splay_elems l @ [z]). key y < key x" using GT splay(3) by auto
    ultimately show ?thesis
      using splay False key_split [OF _ splay(4), of "splay_elems l @ [z]"] by (simp add: SPLAY_INSERT_def)
  next
    case EQ
    then have "cmp x z = 0" using probe_less [of "key x" z] probe_greater [of "key x" z] by simp
    moreover have "List.find (\<lambda>y. key y = key x) (splay_elems t) = Some z"
      using find_sorted_keys [OF assms, of "key x" z] splay(2) EQ by simp
    ultimately show ?thesis using splay False by (simp add: SPLAY_INSERT_def)
  qed
qed (simp add: SPLAY_INSERT_def)

lemma SPLAY_REMOVE_spec:
  assumes "splay_sorted t"
  shows "\<exists>t'. SPLAY_REMOVE cmp x t = Some (if key x \<in> key ` set (splay_elems t) then Some x else None, t') \<and>
    splay_elems t' = filter (\<lambda>y. key y \<noteq> key x) (splay_elems t)"
proof (cases "t = Tip")
  case False
  from assms False obtain l z r where splay: "SPLAY (cmp x) t = Some (Bin l z r)" "splay_elems t = splay_elems l @ z # splay_elems r"
    "\<forall>y \<in> set (splay_elems l). key y < key x" "\<forall>y \<in> set (splay_elems r). key x < key y" by (rule SPLAY_split)
  have rest: "filter (\<lambda>y. key y \<noteq> key x) (splay_elems l) = splay_elems l" "filter (\<lambda>y. key y \<noteq> key x) (splay_elems r) = splay_elems r"
    using splay(3,4) by (auto intro!: filter_True)
  show ?thesis
  proof (cases "key z = key x")
    case True
    then have cmp: "cmp x z = 0" using probe_less [of "key x" z] probe_greater [of "key x" z] by simp
    show ?thesis
    proof (cases "l = Tip")
      case True
      with splay rest cmp \<open>key z = key x\<close> False show ?thesis by (auto simp: SPLAY_REMOVE_def)
    next
      case l: False
      have "splay_sorted l" using assms splay(2) by (simp add: sorted_wrt_append)
      from this l obtain l' y r' where again: "SPLAY (cmp x) l = Some (Bin l' y r')" "splay_elems l = splay_elems l' @ y # splay_elems r'"
        "\<forall>y \<in> set (splay_elems l'). key y < key x" "\<forall>y \<in> set (splay_elems r'). key x < key y" by (rule SPLAY_split)
      have "r' = Tip"
      proof (rule ccontr)
        assume "r' \<noteq> Tip"
        then obtain u where u: "u \<in> set (splay_elems r')" by (cases r') auto
        with again(2) have "u \<in> set (splay_elems l)" by simp
        with splay(3) have "key u < key x" by blast
        moreover from again(4) u have "key x < key u" by blast
        ultimately show False by simp
      qed
      with again splay rest cmp \<open>key z = key x\<close> False l show ?thesis by (auto simp: SPLAY_REMOVE_def)
    qed
  next
    case ne: False
    then have "cmp x z \<noteq> 0" using probe_less [of "key x" z] probe_greater [of "key x" z] by fastforce
    with splay ne rest False show ?thesis by (auto simp: SPLAY_REMOVE_def)
  qed
qed (simp add: SPLAY_REMOVE_def)

lemma SPLAY_NEXT_first:
  assumes "splay_sorted t" "splay_elems t = as @ x # bs"
  shows "\<exists>t'. SPLAY_NEXT (cmp x) t = Some (first bs, t') \<and> splay_elems t' = splay_elems t"
proof -
  have "t \<noteq> Tip" using assms(2) by auto
  with assms(1) obtain l z r where splay: "SPLAY (cmp x) t = Some (Bin l z r)" "splay_elems t = splay_elems l @ z # splay_elems r"
    "\<forall>y \<in> set (splay_elems l). key y < key x" "\<forall>y \<in> set (splay_elems r). key x < key y" by (rule SPLAY_split)
  have "x \<in> set (splay_elems t)" using assms(2) by simp
  with splay(2-4) have "key z = key x" by auto
  have "sorted_wrt (<) (map key (as @ x # bs))" using assms by (simp only:)
  from unique_key_split [OF this, of "splay_elems l" z "splay_elems r"] \<open>key z = key x\<close> assms(2) splay(2)
  have "bs = splay_elems r" by simp
  with splay show ?thesis by (simp add: SPLAY_NEXT_def splay_leftmost_first)
qed

lemma SPLAY_FOREACH_spec:
  assumes "splay_sorted t"
  shows "\<exists>t'. SPLAY_FOREACH cmp body t s = Some (fold body (splay_elems t) s, t') \<and> splay_elems t' = splay_elems t"
proof -
  have "\<exists>t'. SPLAY_FOREACH_from n cmp body (first bs) u s = Some (fold body bs s, t') \<and> splay_elems t' = splay_elems t"
    if "splay_elems u = splay_elems t" "splay_elems u = as @ bs" "length bs \<le> n" for n u as bs s
    using that
  proof (induction n arbitrary: u as bs s)
    case (Suc n)
    show ?case
    proof (cases bs)
      case (Cons x cs)
      with SPLAY_NEXT_first [of u as x cs] assms Suc.prems obtain u' where
        "SPLAY_NEXT (cmp x) u = Some (first cs, u')" "splay_elems u' = splay_elems u" by auto
      with Suc.IH [of u' "as @ [x]" cs "body x s"] Suc.prems Cons show ?thesis by simp
    qed (use Suc.prems in simp)
  qed simp
  with SPLAY_MIN_first [of t] show ?thesis
    by (auto simp: SPLAY_FOREACH_def size_splay_elems) 
qed

end

section \<open>Properties\<close>

text \<open>
  C39: On a sorted tree, the operations of the splay tree never dereference NULL and end; \<^verbatim>\<open>SPLAY_FIND\<close> finds
  the element with the key, \<^verbatim>\<open>SPLAY_INSERT\<close> and \<^verbatim>\<open>SPLAY_REMOVE\<close> add and remove exactly the element with
  the key, and the traversal visits the elements in order, although each of them changes the shape of
  the tree. The direction 0 for \<^verbatim>\<open>SPLAY_MINMAX\<close>, which no macro passes, would not end.
\<close>

theorem SPLAY_correct:
  assumes "three_way probe key" "sorted_wrt (<) (map key (splay_elems t))"
  shows "(\<exists>t'. SPLAY_FIND (probe k) t = Some (List.find (\<lambda>y. key y = k) (splay_elems t), t') \<and> splay_elems t' = splay_elems t) \<and>
    (\<exists>res t'. SPLAY_INSERT (\<lambda>a. probe (key a)) x t = Some (res, t') \<and> res = List.find (\<lambda>y. key y = key x) (splay_elems t) \<and>
       splay_elems t' = (if res = None then filter (\<lambda>y. key y < key x) (splay_elems t) @ x # filter (\<lambda>y. key x < key y) (splay_elems t)
         else splay_elems t)) \<and>
    (\<exists>t'. SPLAY_REMOVE (\<lambda>a. probe (key a)) x t = Some (if key x \<in> key ` set (splay_elems t) then Some x else None, t') \<and>
       splay_elems t' = filter (\<lambda>y. key y \<noteq> key x) (splay_elems t)) \<and>
    (\<exists>t'. SPLAY_FOREACH (\<lambda>a. probe (key a)) body t s = Some (fold body (splay_elems t) s, t') \<and> splay_elems t' = splay_elems t)"
  using three_way.SPLAY_FIND_spec [OF assms] three_way.SPLAY_INSERT_spec [OF assms] three_way.SPLAY_REMOVE_spec [OF assms]
    three_way.SPLAY_FOREACH_spec [OF assms, of body s] by blast

theorem SPLAY_correct_witness:
  "\<exists>t'. SPLAY_INSERT (\<lambda>a. strcmp a) ''ab'' (Bin (Bin Tip ''a'' Tip) ''b'' Tip) = Some (None, t') \<and>
     splay_elems t' = [''a'', ''ab'', ''b'']"
  using SPLAY_correct [OF three_way_strcmp, of "Bin (Bin Tip ''a'' Tip) ''b'' Tip" "''ab''" "''ab''" "(#)" "[]"] by auto

end
