(* ===== verification/Misc_Tests.thy ===== *)
theory Misc_Tests
  imports Misc
begin

text \<open>
  The tests that \<^verbatim>\<open>lib/misc.c\<close> carries under \<^verbatim>\<open>__TEST_MISC\<close>, over the definitions of \<open>Misc\<close>. Each is the
  list of its assertions; output and the random filling of buffers between them are left out.
\<close>

section \<open>The tests\<close>

text \<open>\<^verbatim>\<open>isalnum\<close> in the C locale.\<close>

definition isalnum :: "char \<Rightarrow> bool" where
  "isalnum c \<longleftrightarrow> (let n = of_char c :: nat in 48 \<le> n \<and> n \<le> 57 \<or> 65 \<le> n \<and> n \<le> 90 \<or> 97 \<le> n \<and> n \<le> 122)"

definition TEST_random_alnum :: "(nat \<Rightarrow> nat \<times> nat) \<Rightarrow> nat \<Rightarrow> bool list" where
  "TEST_random_alnum rand_r seed = map isalnum (random_alnum rand_r seed 64)"

text \<open>\<^verbatim>\<open>strncmp\<close> on whole buffers compares the strings; a NULL result of the formatter has no string.\<close>

definition TEST_cstring_array :: "bool list c_out" where
  "TEST_cstring_array =
     (let cstring = [Some ''hello'', Some ''world'', Some '''', Some ''abc,def'', Some '''', None] in
      c_bind (arraydup_cstring mem_ok (Some cstring) 5) (\<lambda>dup0.
      c_bind (arraydup_cstring mem_ok (Some cstring) 0) (\<lambda>dup1.
      c_bind (arrayfmt_cstring 64 (the dup0)) (\<lambda>buffer0.
      c_bind (arrayfmt_cstring 64 (the dup1)) (\<lambda>buffer1.
      c_bind (arrayparse_cstring mem_ok buffer0) (\<lambda>parsed.
      c_bind (arrayfmt_cstring 64 (the parsed)) (\<lambda>buffer2.
      c_bind (arrayfmt_cstring 10 (the parsed)) (\<lambda>buffer3.
      Ret [buffer0 = buffer1, length (the parsed) = 6, buffer0 = buffer2, buffer3 = ''hello,...'']))))))))"

definition TEST_hexmem :: "bool list c_out" where
  "TEST_hexmem =
     (let buffer0 = the (hex2mem 16 ''12345678901234567890abff'');
          dump = (\<lambda>b n. hexmem b (take n buffer0) False)
      in Ret
       [hex2mem 16 ''12345678901234567890abcdefaabbccddeeff'' = None,
        hex2mem 16 ''12345678901234567890abff'' \<noteq> None \<and> length buffer0 = 12,
        hexmem 16 [] False = Ret '''',
        dump 16 5 = Ret ''1234567890'',
        dump 16 7 = Ret ''12345678901234'',
        dump 16 8 = Ret ''123456..123456'',
        dump 16 12 = Ret ''123456..90abff'',
        dump 6 12 = Ret ''.....'',
        dump 5 12 = Ret ''....'',
        dump 4 12 = Ret ''...'',
        dump 3 12 = Ret ''..'',
        dump 2 12 = Ret ''.'',
        dump 1 12 = Ret ''''])"

section \<open>They pass\<close>

lemma alnum_char_isalnum: "n < 62 \<Longrightarrow> isalnum (alnum_char n)"
  by (auto simp: isalnum_def alnum_char_def Let_def)

lemma random_alnum_isalnum: "list_all isalnum (random_alnum rand_r seed n)"
proof (induction rand_r seed n rule: random_alnum.induct)
  case (2 rand_r seed n)
  then show ?case by (auto simp: Let_def split: prod.split intro!: alnum_char_isalnum)
qed simp

text \<open>
  The assertions of the tests hold, the first one whatever the generator gives.
\<close>

theorem misc_tests_pass:
  "list_all (\<lambda>b. b) (TEST_random_alnum rand_r seed) \<and>
   (\<exists>bs. TEST_cstring_array = Ret bs \<and> list_all (\<lambda>b. b) bs) \<and>
   (\<exists>bs. TEST_hexmem = Ret bs \<and> list_all (\<lambda>b. b) bs)"
proof (intro conjI)
  show "list_all (\<lambda>b. b) (TEST_random_alnum rand_r seed)"
    using random_alnum_isalnum by (simp add: TEST_random_alnum_def list_all_iff)
  have "TEST_cstring_array = Ret [True, True, True, True]" by code_simp
  then show "\<exists>bs. TEST_cstring_array = Ret bs \<and> list_all (\<lambda>b. b) bs"
    by (intro exI [of _ "[True, True, True, True]"]) simp
  have "TEST_hexmem = Ret (replicate 13 True)" by code_simp
  then show "\<exists>bs. TEST_hexmem = Ret bs \<and> list_all (\<lambda>b. b) bs"
    by (intro exI [of _ "replicate 13 True"]) (simp add: list_all_iff)
qed

end
