(* ===== verification/Ownership.thy ===== *)
theory Ownership
  imports Propd_Prelude
begin

text \<open>
  Who frees what: the calls of \<^verbatim>\<open>malloc\<close>, \<^verbatim>\<open>calloc\<close>, \<^verbatim>\<open>strdup\<close> and \<^verbatim>\<open>free\<close> in the constructors and
  destructors of cache items, named mutexes, string arrays, route items, storages and layouts, in
  the order of the code. The other theories say what these functions compute; here only the blocks
  count. Freeing a block that is not live, or an uninitialised pointer, is \<open>UB\<close>.
\<close>

section \<open>Blocks\<close>

datatype ptr = PNull | Junk | At nat

text \<open>
  \<open>tries\<close> numbers the calls that allocate; a block has the number of its call as its address, and the
  oracle says for every call whether it succeeds.
\<close>

record heap =
  live :: "nat set"
  tries :: nat

definition h_malloc :: "alloc \<Rightarrow> heap \<Rightarrow> ptr \<times> heap" where
  "h_malloc mem h =
     (if mem (tries h) then (At (tries h), h\<lparr>live := insert (tries h) (live h), tries := tries h + 1\<rparr>)
      else (PNull, h\<lparr>tries := tries h + 1\<rparr>))"

fun h_free :: "ptr \<Rightarrow> heap \<Rightarrow> heap c_out" where
  "h_free PNull h = Ret h"
| "h_free Junk h = UB"
| "h_free (At a) h = (if a \<in> live h then Ret (h\<lparr>live := live h - {a}\<rparr>) else UB)"

definition heap_ok :: "heap \<Rightarrow> bool" where
  "heap_ok h \<longleftrightarrow> (\<forall>a \<in> live h. a < tries h)"

fun blocks :: "ptr \<Rightarrow> nat list" where
  "blocks (At a) = [a]"
| "blocks _ = []"

section \<open>Arrays of strings\<close>

record arr =
  a_self :: ptr
  a_cells :: "ptr list"

text \<open>The loop of \<^verbatim>\<open>arrayfree_cstring\<close> stops at the first NULL; past the last cell it is undefined.\<close>

fun free_cells :: "ptr list \<Rightarrow> heap \<Rightarrow> heap c_out" where
  "free_cells [] h = UB"
| "free_cells (PNull # ps) h = Ret h"
| "free_cells (p # ps) h = c_bind (h_free p h) (free_cells ps)"

definition arrayfree_cstring_h :: "arr \<Rightarrow> heap \<Rightarrow> heap c_out" where
  "arrayfree_cstring_h a h = c_bind (free_cells (a_cells a) h) (h_free (a_self a))"

text \<open>\<open>i\<close> is the next cell, \<open>n\<close> the number of strings left.\<close>

fun dup_loop :: "alloc \<Rightarrow> arr \<Rightarrow> nat \<Rightarrow> nat \<Rightarrow> heap \<Rightarrow> (arr option \<times> heap) c_out" where
  "dup_loop mem a i 0 h = Ret (Some a, h)"
| "dup_loop mem a i (Suc n) h =
     (let (p, h) = h_malloc mem h; a = a\<lparr>a_cells := (a_cells a)[i := p]\<rparr>
      in if p = PNull then c_bind (arrayfree_cstring_h a h) (\<lambda>h. Ret (None, h))
         else dup_loop mem a (i + 1) n h)"

definition arraydup_cstring_h :: "nat \<Rightarrow> alloc \<Rightarrow> heap \<Rightarrow> (arr option \<times> heap) c_out" where
  "arraydup_cstring_h num mem h =
     (let (dup, h) = h_malloc mem h
      in if dup = PNull then Ret (None, h)
         else dup_loop mem \<lparr>a_self = dup, a_cells = replicate (num + 1) PNull\<rparr> 0 num h)"

definition arrayparse_cstring_h :: "nat \<Rightarrow> alloc \<Rightarrow> heap \<Rightarrow> (arr option \<times> heap) c_out" where
  "arrayparse_cstring_h num mem h =
     (let (s, h) = h_malloc mem h
      in if s = PNull then Ret (None, h)
         else let (array, h) = h_malloc mem h
           in if array = PNull then c_bind (h_free s h) (\<lambda>h. Ret (None, h))
              else c_bind (arraydup_cstring_h num mem h) (\<lambda>(dup, h).
                c_bind (h_free array h) (\<lambda>h. c_bind (h_free s h) (\<lambda>h. Ret (dup, h)))))"

section \<open>Cache items\<close>

record item_h =
  i_self :: ptr
  i_key :: ptr
  i_value :: ptr

definition item_destroy_h :: "item_h \<Rightarrow> heap \<Rightarrow> heap c_out" where
  "item_destroy_h i h = c_bind (h_free (i_key i) h) (\<lambda>h. c_bind (h_free (i_value i) h) (h_free (i_self i)))"

text \<open>What \<^verbatim>\<open>malloc\<close> returns is uninitialised; \<^verbatim>\<open>value_dup\<close> is one allocation.\<close>

definition item_create_h :: "alloc \<Rightarrow> heap \<Rightarrow> (item_h option \<times> heap) c_out" where
  "item_create_h mem h =
     (let (self, h) = h_malloc mem h
      in if self = PNull then Ret (None, h)
         else let (k, h) = h_malloc mem h; item = \<lparr>i_self = self, i_key = k, i_value = Junk\<rparr>
           in if k = PNull then c_bind (item_destroy_h item h) (\<lambda>h. Ret (None, h))
              else let (v, h) = h_malloc mem h; item = item\<lparr>i_value := v\<rparr>
                in if v = PNull then c_bind (item_destroy_h item h) (\<lambda>h. Ret (None, h))
                   else Ret (Some item, h))"

text \<open>
  The cache as the list of its items, the order of which does not matter here. \<^verbatim>\<open>cache_set\<close> makes an item
  first; if the tree has one with its key, the new one is destroyed, and the value of the old one is
  freed and copied anew.
\<close>

type_synonym cache_h = "(string \<times> item_h) list"

fun insert_h :: "alloc \<Rightarrow> string \<Rightarrow> item_h \<Rightarrow> cache_h \<Rightarrow> heap \<Rightarrow> (cache_h \<times> heap) c_out" where
  "insert_h mem key item [] h = Ret ([(key, item)], h)"
| "insert_h mem key item ((k, old_item) # c) h =
     (if k = key then
        c_bind (item_destroy_h item h) (\<lambda>h.
          c_bind (h_free (i_value old_item) h) (\<lambda>h.
            let (v, h) = h_malloc mem h in Ret ((k, old_item\<lparr>i_value := v\<rparr>) # c, h)))
      else c_bind (insert_h mem key item c h) (\<lambda>(c, h). Ret ((k, old_item) # c, h)))"

definition cache_set_h :: "alloc \<Rightarrow> string \<Rightarrow> cache_h \<times> heap \<Rightarrow> (cache_h \<times> heap) c_out" where
  "cache_set_h mem key = (\<lambda>(c, h).
     c_bind (item_create_h mem h) (\<lambda>(r, h).
       case r of None \<Rightarrow> Ret (c, h) | Some item \<Rightarrow> insert_h mem key item c h))"

text \<open>The removals of \<^verbatim>\<open>cache_del\<close>, of the cleaner and of \<^verbatim>\<open>cache_destroy\<close>: the items whose key satisfies \<open>P\<close>.\<close>

fun remove_h :: "(string \<Rightarrow> bool) \<Rightarrow> cache_h \<Rightarrow> heap \<Rightarrow> (cache_h \<times> heap) c_out" where
  "remove_h P [] h = Ret ([], h)"
| "remove_h P ((k, i) # c) h =
     (if P k then c_bind (item_destroy_h i h) (remove_h P c)
      else c_bind (remove_h P c h) (\<lambda>(c, h). Ret ((k, i) # c, h)))"

datatype cache_op = OSet string | ORemove "string \<Rightarrow> bool"

fun cache_op_h :: "alloc \<Rightarrow> cache_op \<Rightarrow> cache_h \<times> heap \<Rightarrow> (cache_h \<times> heap) c_out" where
  "cache_op_h mem (OSet k) s = cache_set_h mem k s"
| "cache_op_h mem (ORemove P) s = remove_h P (fst s) (snd s)"

fun cache_run_h :: "alloc \<Rightarrow> cache_op list \<Rightarrow> cache_h \<times> heap \<Rightarrow> (cache_h \<times> heap) c_out" where
  "cache_run_h mem [] s = Ret s"
| "cache_run_h mem (x # xs) s = c_bind (cache_op_h mem x s) (cache_run_h mem xs)"

section \<open>Named mutexes\<close>

record nmtx_h =
  n_self :: ptr
  n_name :: ptr

definition named_mutex_create_h :: "alloc \<Rightarrow> heap \<Rightarrow> (nmtx_h option \<times> heap) c_out" where
  "named_mutex_create_h mem h =
     (let (nmtx, h) = h_malloc mem h
      in if nmtx = PNull then Ret (None, h)
         else let (name, h) = h_malloc mem h
           in if name = PNull then c_bind (h_free nmtx h) (\<lambda>h. Ret (None, h))
              else Ret (Some \<lparr>n_self = nmtx, n_name = name\<rparr>, h))"

text \<open>After the assertion that \<^verbatim>\<open>nref\<close> is 0.\<close>

definition named_mutex_destroy_h :: "nmtx_h \<Rightarrow> heap \<Rightarrow> heap c_out" where
  "named_mutex_destroy_h n h = c_bind (h_free (n_name n) h) (h_free (n_self n))"

section \<open>Contract of a constructor and its destructor\<close>

text \<open>
  A constructor that fails leaves the live blocks as they were; one that succeeds adds the blocks of
  its object, and the destructor takes exactly these away. \<open>fine\<close> says for which outcomes of the
  allocations this is so.
\<close>

locale owner =
  fixes owned :: "'o \<Rightarrow> nat list" and wf :: "'o \<Rightarrow> bool" and fine :: "alloc \<Rightarrow> heap \<Rightarrow> bool"
    and create :: "alloc \<Rightarrow> heap \<Rightarrow> ('o option \<times> heap) c_out" and destroy :: "'o \<Rightarrow> heap \<Rightarrow> heap c_out"
  assumes create_law: "heap_ok h \<Longrightarrow> fine mem h \<Longrightarrow> \<exists>r h'. create mem h = Ret (r, h') \<and> heap_ok h' \<and> tries h \<le> tries h' \<and>
      (case r of None \<Rightarrow> live h' = live h
       | Some x \<Rightarrow> wf x \<and> distinct (owned x) \<and> set (owned x) \<inter> live h = {} \<and> live h' = live h \<union> set (owned x))"
    and destroy_law: "heap_ok h \<Longrightarrow> wf x \<Longrightarrow> distinct (owned x) \<Longrightarrow> set (owned x) \<subseteq> live h \<Longrightarrow>
      \<exists>h'. destroy x h = Ret h' \<and> heap_ok h' \<and> tries h' = tries h \<and> live h' = live h - set (owned x)"
begin

lemma create_destroy:
  assumes "heap_ok h" "fine mem h"
  obtains (failed) h' where "create mem h = Ret (None, h')" "heap_ok h'" "tries h \<le> tries h'" "live h' = live h"
  | (made) x h' h'' where "create mem h = Ret (Some x, h')" "heap_ok h'" "tries h \<le> tries h'" "wf x" "distinct (owned x)"
      "set (owned x) \<inter> live h = {}" "live h' = live h \<union> set (owned x)"
      "destroy x h' = Ret h''" "heap_ok h''" "live h'' = live h"
proof -
  from create_law [OF assms] obtain r h' where r: "create mem h = Ret (r, h')" "heap_ok h'" "tries h \<le> tries h'"
    "case r of None \<Rightarrow> live h' = live h
       | Some x \<Rightarrow> wf x \<and> distinct (owned x) \<and> set (owned x) \<inter> live h = {} \<and> live h' = live h \<union> set (owned x)" by blast
  show thesis
  proof (cases r)
    case None
    with r failed show ?thesis by simp
  next
    case (Some x)
    with destroy_law [OF r(2), of x] r(4) obtain h'' where "destroy x h' = Ret h''" "heap_ok h''" "live h'' = live h' - set (owned x)" by auto
    with r Some made [of x h' h''] show ?thesis by auto
  qed
qed

text \<open>A list of objects, destroyed one after the other.\<close>

fun destroy_all :: "'o list \<Rightarrow> heap \<Rightarrow> heap c_out" where
  "destroy_all [] h = Ret h"
| "destroy_all (x # xs) h = c_bind (destroy x h) (destroy_all xs)"

lemma destroy_all_law:
  "heap_ok h \<Longrightarrow> \<forall>x \<in> set xs. wf x \<Longrightarrow> distinct (concat (map owned xs)) \<Longrightarrow> set (concat (map owned xs)) \<subseteq> live h \<Longrightarrow>
     \<exists>h'. destroy_all xs h = Ret h' \<and> heap_ok h' \<and> live h' = live h - set (concat (map owned xs))"
proof (induction xs arbitrary: h)
  case (Cons x xs)
  from destroy_law [OF Cons.prems(1), of x] Cons.prems obtain h1 where
    h1: "destroy x h = Ret h1" "heap_ok h1" "live h1 = live h - set (owned x)" by auto
  have "set (concat (map owned xs)) \<subseteq> live h1" using Cons.prems(3,4) h1(3) by auto
  from Cons.IH [OF h1(2) _ _ this] Cons.prems(2,3) h1 show ?case by auto
qed simp

end

section \<open>Allocation and release\<close>

lemma h_malloc_cases:
  assumes "heap_ok h"
  obtains (fail) h' where "h_malloc mem h = (PNull, h')" "\<not> mem (tries h)" "live h' = live h" "tries h' = tries h + 1" "heap_ok h'"
  | (ok) a h' where "h_malloc mem h = (At a, h')" "a = tries h" "mem a" "a \<notin> live h" "live h' = insert a (live h)" "tries h' = tries h + 1" "heap_ok h'"
proof (cases "mem (tries h)")
  case True
  with assms show thesis
    by (intro ok [of "tries h" "h\<lparr>live := insert (tries h) (live h), tries := tries h + 1\<rparr>"])
      (auto simp: h_malloc_def heap_ok_def less_Suc_eq)
next
  case False
  with assms show thesis
    by (intro fail [of "h\<lparr>tries := tries h + 1\<rparr>"]) (auto simp: h_malloc_def heap_ok_def less_Suc_eq)
qed

definition owned_nmtx :: "nmtx_h \<Rightarrow> nat list" where
  "owned_nmtx n = blocks (n_name n) @ blocks (n_self n)"

definition wf_nmtx :: "nmtx_h \<Rightarrow> bool" where
  "wf_nmtx n \<longleftrightarrow> n_name n \<noteq> Junk \<and> n_self n \<noteq> Junk"

interpretation nmo: owner owned_nmtx wf_nmtx "\<lambda>_ _. True" named_mutex_create_h named_mutex_destroy_h
proof
  fix h :: heap and mem :: alloc
  assume ok: "heap_ok h"
  then show "\<exists>r h'. named_mutex_create_h mem h = Ret (r, h') \<and> heap_ok h' \<and> tries h \<le> tries h' \<and>
      (case r of None \<Rightarrow> live h' = live h
       | Some x \<Rightarrow> wf_nmtx x \<and> distinct (owned_nmtx x) \<and> set (owned_nmtx x) \<inter> live h = {} \<and> live h' = live h \<union> set (owned_nmtx x))"
  proof (cases rule: h_malloc_cases [where mem = mem])
    case (fail h1)
    then show ?thesis by (simp add: named_mutex_create_h_def)
  next
    case (ok a h1)
    note a = ok
    from a(7) show ?thesis
      by (cases rule: h_malloc_cases [where mem = mem])
        (use a in \<open>auto simp: named_mutex_create_h_def wf_nmtx_def owned_nmtx_def heap_ok_def\<close>)
  qed
next
  fix h :: heap and n
  assume "heap_ok h" "wf_nmtx n" "distinct (owned_nmtx n)" "set (owned_nmtx n) \<subseteq> live h"
  then show "\<exists>h'. named_mutex_destroy_h n h = Ret h' \<and> heap_ok h' \<and> tries h' = tries h \<and> live h' = live h - set (owned_nmtx n)"
    by (cases "n_name n"; cases "n_self n") (auto simp: named_mutex_destroy_h_def wf_nmtx_def owned_nmtx_def heap_ok_def)
qed

definition owned_item :: "item_h \<Rightarrow> nat list" where
  "owned_item i = blocks (i_key i) @ blocks (i_value i) @ blocks (i_self i)"

definition wf_item :: "item_h \<Rightarrow> bool" where
  "wf_item i \<longleftrightarrow> i_key i \<noteq> Junk \<and> i_value i \<noteq> Junk \<and> i_self i \<noteq> Junk"

text \<open>The copy of the key must not be what fails.\<close>

definition key_fits :: "alloc \<Rightarrow> heap \<Rightarrow> bool" where
  "key_fits mem h \<longleftrightarrow> (mem (tries h) \<longrightarrow> mem (tries h + 1))"

lemma item_create_h_UB: "heap_ok h \<Longrightarrow> item_create_h mem h = UB \<longleftrightarrow> \<not> key_fits mem h"
proof -
  assume ok: "heap_ok h"
  show ?thesis
    by (auto simp: item_create_h_def h_malloc_def key_fits_def item_destroy_h_def Let_def)
qed

interpretation ito: owner owned_item wf_item key_fits item_create_h item_destroy_h
proof
  fix h :: heap and mem :: alloc
  assume ok: "heap_ok h" and fits: "key_fits mem h"
  from ok show "\<exists>r h'. item_create_h mem h = Ret (r, h') \<and> heap_ok h' \<and> tries h \<le> tries h' \<and>
      (case r of None \<Rightarrow> live h' = live h
       | Some x \<Rightarrow> wf_item x \<and> distinct (owned_item x) \<and> set (owned_item x) \<inter> live h = {} \<and> live h' = live h \<union> set (owned_item x))"
  proof (cases rule: h_malloc_cases [where mem = mem])
    case (fail h1)
    then show ?thesis by (simp add: item_create_h_def)
  next
    case (ok a h1)
    note a = ok
    from a(7) show ?thesis
    proof (cases rule: h_malloc_cases [where mem = mem])
      case (ok b h2)
      note b = ok
      from b(7) show ?thesis
        by (cases rule: h_malloc_cases [where mem = mem])
          (use a b in \<open>auto simp: item_create_h_def item_destroy_h_def wf_item_def owned_item_def heap_ok_def\<close>)
    qed (use fits a in \<open>simp add: key_fits_def\<close>)
  qed
next
  fix h :: heap and i
  assume "heap_ok h" "wf_item i" "distinct (owned_item i)" "set (owned_item i) \<subseteq> live h"
  then show "\<exists>h'. item_destroy_h i h = Ret h' \<and> heap_ok h' \<and> tries h' = tries h \<and> live h' = live h - set (owned_item i)"
    by (cases "i_key i"; cases "i_value i"; cases "i_self i") (auto simp: item_destroy_h_def wf_item_def owned_item_def heap_ok_def)
qed

text \<open>A string array: its strings up to the first NULL, and the array itself.\<close>

definition arr_of :: "nat \<Rightarrow> nat list \<Rightarrow> nat \<Rightarrow> arr" where
  "arr_of b as n = \<lparr>a_self = At b, a_cells = map At as @ PNull # replicate n PNull\<rparr>"

lemma arr_of_simps [simp]:
  "a_self (arr_of b as n) = At b" "a_cells (arr_of b as n) = map At as @ PNull # replicate n PNull"
  by (simp_all add: arr_of_def)

lemma arr_of_next:
  "(arr_of b as (Suc n))\<lparr>a_cells := (a_cells (arr_of b as (Suc n)))[length as := At a]\<rparr> = arr_of b (as @ [a]) n"
  "(arr_of b as n)\<lparr>a_cells := (a_cells (arr_of b as n))[length as := PNull]\<rparr> = arr_of b as n"
  by (simp_all add: arr_of_def list_update_append)

definition owned_arr :: "arr \<Rightarrow> nat list" where
  "owned_arr a = blocks (a_self a) @ concat (map blocks (a_cells a))"

definition wf_arr :: "arr \<Rightarrow> bool" where
  "wf_arr a \<longleftrightarrow> (\<exists>b as n. a = arr_of b as n)"

lemma concat_blocks: "concat (map blocks (map At as @ PNull # replicate n PNull)) = as"
proof -
  have "concat (map blocks (map At as)) = as" by (induction as) auto
  moreover have "concat (map blocks (replicate n PNull)) = []" by (induction n) auto
  ultimately show ?thesis by simp
qed

lemma owned_arr_of [simp]: "owned_arr (arr_of b as n) = b # as"
  unfolding owned_arr_def arr_of_simps concat_blocks by simp

lemma free_cells_law:
  "distinct as \<Longrightarrow> set as \<subseteq> live h \<Longrightarrow> free_cells (map At as @ PNull # ps) h = Ret (h\<lparr>live := live h - set as\<rparr>)"
proof (induction as arbitrary: h)
  case (Cons a as)
  have "live h - {a} - set as = live h - set (a # as)" by auto
  moreover from Cons.prems have "set as \<subseteq> live h - {a}" by auto
  ultimately show ?case using Cons.IH [of "h\<lparr>live := live h - {a}\<rparr>"] Cons.prems by simp
qed simp

lemma arrayfree_law:
  assumes "heap_ok h" "wf_arr a" "distinct (owned_arr a)" "set (owned_arr a) \<subseteq> live h"
  shows "\<exists>h'. arrayfree_cstring_h a h = Ret h' \<and> heap_ok h' \<and> tries h' = tries h \<and> live h' = live h - set (owned_arr a)"
proof -
  from assms(2) obtain b as n where a: "a = arr_of b as n" by (auto simp: wf_arr_def)
  with assms(3,4) free_cells_law [of as h "replicate n PNull"] have "free_cells (a_cells a) h = Ret (h\<lparr>live := live h - set as\<rparr>)" by simp
  with assms a show ?thesis by (auto simp: arrayfree_cstring_h_def heap_ok_def)
qed

lemma dup_loop_law:
  assumes "heap_ok h" "distinct (b # as)" "set (b # as) \<subseteq> live h"
  shows "\<exists>r h'. dup_loop mem (arr_of b as n) (length as) n h = Ret (r, h') \<and> heap_ok h' \<and> tries h \<le> tries h' \<and>
    (case r of None \<Rightarrow> live h' = live h - set (b # as)
     | Some x \<Rightarrow> \<exists>bs. x = arr_of b (as @ bs) 0 \<and> distinct (b # as @ bs) \<and> set bs \<inter> live h = {} \<and> live h' = live h \<union> set bs)"
  using assms
proof (induction n arbitrary: as h)
  case 0
  then have "\<exists>bs. arr_of b as 0 = arr_of b (as @ bs) 0 \<and> distinct (b # as @ bs) \<and> set bs \<inter> live h = {} \<and> live h = live h \<union> set bs"
    by (intro exI [of _ "[]"]) auto
  with 0 show ?case by simp
next
  case (Suc n)
  from Suc.prems(1) show ?case
  proof (cases rule: h_malloc_cases [where mem = mem])
    case (fail h1)
    from arrayfree_law [OF fail(5), of "arr_of b as (Suc n)"] Suc.prems fail(3) obtain h2 where
      "arrayfree_cstring_h (arr_of b as (Suc n)) h1 = Ret h2" "heap_ok h2" "tries h2 = tries h1" "live h2 = live h - set (b # as)"
      by (auto simp: wf_arr_def)
    with fail show ?thesis by (auto simp: arr_of_next(2) simp del: arr_of_simps)
  next
    case (ok a h1)
    from ok(4,5) Suc.prems(2,3) have prems: "distinct (b # as @ [a])" "set (b # as @ [a]) \<subseteq> live h1" by auto
    from Suc.IH [OF ok(7) this] obtain r h' where IH:
      "dup_loop mem (arr_of b (as @ [a]) n) (length (as @ [a])) n h1 = Ret (r, h')" "heap_ok h'" "tries h1 \<le> tries h'"
      "case r of None \<Rightarrow> live h' = live h1 - set (b # as @ [a])
       | Some x \<Rightarrow> \<exists>bs. x = arr_of b ((as @ [a]) @ bs) 0 \<and> distinct (b # (as @ [a]) @ bs) \<and> set bs \<inter> live h1 = {} \<and> live h' = live h1 \<union> set bs"
      by blast
    have step: "dup_loop mem (arr_of b as (Suc n)) (length as) (Suc n) h = Ret (r, h')"
      using ok(1) IH(1) by (simp add: arr_of_next(1) del: arr_of_simps)
    show ?thesis
    proof (cases r)
      case None
      have "live h1 - set (b # as @ [a]) = live h - set (b # as)" using ok(4,5) by auto
      with None IH ok(6) step show ?thesis by (intro exI [of _ r] exI [of _ h']) simp
    next
      case (Some x)
      with IH(4) obtain bs where bs: "x = arr_of b ((as @ [a]) @ bs) 0" "distinct (b # (as @ [a]) @ bs)" "set bs \<inter> live h1 = {}"
        "live h' = live h1 \<union> set bs" by auto
      have "\<exists>bs. x = arr_of b (as @ bs) 0 \<and> distinct (b # as @ bs) \<and> set bs \<inter> live h = {} \<and> live h' = live h \<union> set bs"
        using bs ok(4,5) by (intro exI [of _ "a # bs"]) auto
      with Some step IH(2,3) ok(6) show ?thesis by (intro exI [of _ r] exI [of _ h']) simp
    qed
  qed
qed

interpretation aro: owner owned_arr wf_arr "\<lambda>_ _. True" "arraydup_cstring_h num" arrayfree_cstring_h
proof
  fix h :: heap and mem :: alloc
  assume "heap_ok h"
  then show "\<exists>r h'. arraydup_cstring_h num mem h = Ret (r, h') \<and> heap_ok h' \<and> tries h \<le> tries h' \<and>
      (case r of None \<Rightarrow> live h' = live h
       | Some x \<Rightarrow> wf_arr x \<and> distinct (owned_arr x) \<and> set (owned_arr x) \<inter> live h = {} \<and> live h' = live h \<union> set (owned_arr x))"
  proof (cases rule: h_malloc_cases [where mem = mem])
    case (ok b h1)
    have b: "distinct [b]" "set [b] \<subseteq> live h1" using ok(5) by auto
    from dup_loop_law [OF ok(7) b, of mem num] obtain r h' where r:
      "dup_loop mem (arr_of b [] num) 0 num h1 = Ret (r, h')" "heap_ok h'" "tries h1 \<le> tries h'"
      "case r of None \<Rightarrow> live h' = live h1 - set [b]
       | Some x \<Rightarrow> \<exists>bs. x = arr_of b ([] @ bs) 0 \<and> distinct (b # [] @ bs) \<and> set bs \<inter> live h1 = {} \<and> live h' = live h1 \<union> set bs"
      by auto
    from ok(1) r(1) have eq: "arraydup_cstring_h num mem h = Ret (r, h')" by (simp add: arraydup_cstring_h_def arr_of_def)
    show ?thesis
    proof (cases r)
      case None
      with eq r ok show ?thesis by auto
    next
      case (Some x)
      with r(4) obtain bs where "x = arr_of b bs 0" "b \<notin> set bs" "distinct bs" "set bs \<inter> live h1 = {}" "live h' = live h1 \<union> set bs" by auto
      with Some eq r(2,3) ok show ?thesis by (intro exI [of _ r] exI [of _ h']) (auto simp: wf_arr_def)
    qed
  qed (simp add: arraydup_cstring_h_def)
qed (rule arrayfree_law)

text \<open>The copy of the text and the array of its fields are given back before the result is.\<close>

interpretation apo: owner owned_arr wf_arr "\<lambda>_ _. True" "arrayparse_cstring_h num" arrayfree_cstring_h
proof
  fix h :: heap and mem :: alloc
  assume "heap_ok h"
  then show "\<exists>r h'. arrayparse_cstring_h num mem h = Ret (r, h') \<and> heap_ok h' \<and> tries h \<le> tries h' \<and>
      (case r of None \<Rightarrow> live h' = live h
       | Some x \<Rightarrow> wf_arr x \<and> distinct (owned_arr x) \<and> set (owned_arr x) \<inter> live h = {} \<and> live h' = live h \<union> set (owned_arr x))"
  proof (cases rule: h_malloc_cases [where mem = mem])
    case (ok s h1)
    note s = ok
    from s(7) show ?thesis
    proof (cases rule: h_malloc_cases [where mem = mem])
      case (ok a h2)
      from aro.create_law [OF ok(7) TrueI, of num mem] obtain r h3 where r: "arraydup_cstring_h num mem h2 = Ret (r, h3)" "heap_ok h3" "tries h2 \<le> tries h3"
        "case r of None \<Rightarrow> live h3 = live h2
         | Some x \<Rightarrow> wf_arr x \<and> distinct (owned_arr x) \<and> set (owned_arr x) \<inter> live h2 = {} \<and> live h3 = live h2 \<union> set (owned_arr x)" by blast
      from r(4) s(4,5) ok(4,5) have "a \<in> live h3" "s \<in> live h3 - {a}" by (auto split: option.splits)
      with s(1) ok(1) r(1) have "arrayparse_cstring_h num mem h = Ret (r, h3\<lparr>live := live h3 - {a} - {s}\<rparr>)"
        by (simp add: arrayparse_cstring_h_def)
      moreover have "live h2 - {a} - {s} = live h" using s(4,5) ok(4,5) by auto
      ultimately show ?thesis using r s(4,5,6) ok(4,5,6) by (auto simp: heap_ok_def split: option.splits)
    qed (use s in \<open>simp add: arrayparse_cstring_h_def heap_ok_def\<close>)
  qed (simp add: arrayparse_cstring_h_def)
qed (rule arrayfree_law)

section \<open>The cache\<close>

text \<open>The live blocks are those of \<open>base\<close> and those of the items, each once.\<close>

fun items_in :: "nat set \<Rightarrow> cache_h \<Rightarrow> nat set \<Rightarrow> bool" where
  "items_in base [] L \<longleftrightarrow> L = base"
| "items_in base ((k, i) # c) L \<longleftrightarrow>
     wf_item i \<and> distinct (owned_item i) \<and> set (owned_item i) \<inter> base = {} \<and> items_in (base \<union> set (owned_item i)) c L"

lemma items_in_sub: "items_in base c L \<Longrightarrow> base \<subseteq> L"
  by (induction base c L rule: items_in.induct) auto

lemma items_in_change:
  "items_in base c L \<Longrightarrow> X \<subseteq> base \<Longrightarrow> Y \<inter> L = {} \<Longrightarrow> items_in (base - X \<union> Y) c (L - X \<union> Y)"
proof (induction base c L rule: items_in.induct)
  case (2 base k i c L)
  let ?I = "set (owned_item i)"
  from "2.prems" have item: "wf_item i" "distinct (owned_item i)" "?I \<inter> base = {}" and rest: "items_in (base \<union> ?I) c L" by auto
  have "X \<subseteq> base \<union> ?I" using "2.prems"(2) by blast
  from "2.IH" [OF rest this "2.prems"(3)] have "items_in ((base \<union> ?I) - X \<union> Y) c (L - X \<union> Y)" .
  moreover have "(base \<union> ?I) - X \<union> Y = (base - X \<union> Y) \<union> ?I" using item(3) "2.prems"(2) by auto
  moreover have "?I \<inter> Y = {}" using items_in_sub [OF rest] "2.prems"(3) by auto
  ultimately show ?case using item by auto
qed simp

lemma remove_h_law:
  "items_in base c (live h) \<Longrightarrow> heap_ok h \<Longrightarrow>
     \<exists>c' h'. remove_h P c h = Ret (c', h') \<and> items_in base c' (live h') \<and> heap_ok h' \<and> c' = filter (\<lambda>(k, i). \<not> P k) c"
proof (induction c arbitrary: base h)
  case (Cons ki c)
  obtain k i where ki: "ki = (k, i)" by fastforce
  let ?I = "set (owned_item i)"
  from Cons.prems(1) have item: "wf_item i" "distinct (owned_item i)" "?I \<inter> base = {}" and rest: "items_in (base \<union> ?I) c (live h)"
    by (auto simp: ki)
  show ?case
  proof (cases "P k")
    case True
    have "?I \<subseteq> live h" using items_in_sub [OF rest] by blast
    from ito.destroy_law [OF Cons.prems(2) item(1,2) this] obtain h1 where
      h1: "item_destroy_h i h = Ret h1" "heap_ok h1" "live h1 = live h - ?I" by blast
    have "items_in ((base \<union> ?I) - ?I \<union> {}) c (live h - ?I \<union> {})" by (rule items_in_change [OF rest]) auto
    moreover have "(base \<union> ?I) - ?I \<union> {} = base" using item(3) by auto
    ultimately have "items_in base c (live h1)" using h1(3) by simp
    from Cons.IH [OF this h1(2)] h1(1) True show ?thesis by (auto simp: ki)
  next
    case False
    from Cons.IH [OF rest Cons.prems(2)] False item show ?thesis by (auto simp: ki)
  qed
qed simp

text \<open>The value of an item is freed and allocated again; when that fails the item is left without one.\<close>

lemma renew_value:
  assumes "heap_ok h" "wf_item i" "distinct (owned_item i)" "set (owned_item i) \<subseteq> live h"
  obtains h1 v h2 where "h_free (i_value i) h = Ret h1" "h_malloc mem h1 = (v, h2)" "heap_ok h2"
    "live h2 = live h - set (blocks (i_value i)) \<union> set (blocks v)" "set (blocks v) \<inter> live h = {}"
    "wf_item (i\<lparr>i_value := v\<rparr>)" "distinct (owned_item (i\<lparr>i_value := v\<rparr>))"
    "set (owned_item (i\<lparr>i_value := v\<rparr>)) = set (owned_item i) - set (blocks (i_value i)) \<union> set (blocks v)"
proof -
  define h1 where "h1 = h\<lparr>live := live h - set (blocks (i_value i))\<rparr>"
  have "h_free (i_value i) h = Ret h1"
    using assms by (cases "i_value i") (auto simp: h1_def wf_item_def owned_item_def)
  moreover have "heap_ok h1" "tries h1 = tries h" "live h1 = live h - set (blocks (i_value i))"
    using assms(1) by (auto simp: h1_def heap_ok_def)
  ultimately have h1: "h_free (i_value i) h = Ret h1" "heap_ok h1" "tries h1 = tries h" "live h1 = live h - set (blocks (i_value i))" by simp_all
  have old: "\<forall>a \<in> set (owned_item i). a < tries h" using assms(1,4) by (auto simp: heap_ok_def)
  from h1(2) show thesis
  proof (cases rule: h_malloc_cases [where mem = mem])
    case (fail h2)
    then show thesis using h1 assms(2,3) by (intro that [OF h1(1) fail(1)]) (auto simp: wf_item_def owned_item_def)
  next
    case (ok a h2)
    have "a \<notin> live h" using ok(2) h1(3) assms(1) by (auto simp: heap_ok_def)
    with ok h1 assms(2,3) old show thesis by (intro that [OF h1(1) ok(1)]) (auto simp: wf_item_def owned_item_def)
  qed
qed

lemma insert_h_law:
  assumes "items_in (base \<union> set (owned_item item)) c (live h)" "set (owned_item item) \<inter> base = {}"
    "wf_item item" "distinct (owned_item item)" "heap_ok h"
  shows "\<exists>c' h'. insert_h mem key item c h = Ret (c', h') \<and> items_in base c' (live h') \<and> heap_ok h'"
  using assms(1,2)
proof (induction c arbitrary: base)
  case Nil
  with assms show ?case by auto
next
  case (Cons ki c)
  obtain k i where ki: "ki = (k, i)" by fastforce
  let ?I = "set (owned_item i)" and ?E = "set (owned_item item)"
  from Cons.prems(1) have i: "wf_item i" "distinct (owned_item i)" "?I \<inter> (base \<union> ?E) = {}" and rest: "items_in (base \<union> ?E \<union> ?I) c (live h)"
    by (auto simp: ki)
  show ?case
  proof (cases "k = key")
    case True
    have live: "?E \<subseteq> live h" "?I \<subseteq> live h" using items_in_sub [OF rest] by auto
    from ito.destroy_law [OF assms(5,3,4) live(1)] obtain h1 where h1: "item_destroy_h item h = Ret h1" "heap_ok h1" "live h1 = live h - ?E" by blast
    have "?I \<subseteq> live h1" using h1(3) live(2) i(3) by auto
    from renew_value [OF h1(2) i(1,2) this, of mem] obtain h2 v h3 where
      v: "h_free (i_value i) h1 = Ret h2" "h_malloc mem h2 = (v, h3)" "heap_ok h3"
        "live h3 = live h1 - set (blocks (i_value i)) \<union> set (blocks v)" "set (blocks v) \<inter> live h1 = {}"
        "wf_item (i\<lparr>i_value := v\<rparr>)" "distinct (owned_item (i\<lparr>i_value := v\<rparr>))"
        "set (owned_item (i\<lparr>i_value := v\<rparr>)) = ?I - set (blocks (i_value i)) \<union> set (blocks v)" .
    let ?V = "set (blocks (i_value i))" and ?Y = "set (blocks v)"
    have V: "?V \<subseteq> ?I" by (auto simp: owned_item_def)
    have one: "items_in ((base \<union> ?E \<union> ?I) - ?E \<union> {}) c (live h - ?E \<union> {})" by (rule items_in_change [OF rest]) auto
    have "(base \<union> ?E \<union> ?I) - ?E \<union> {} = base \<union> ?I" using Cons.prems(2) i(3) by auto
    with one have "items_in (base \<union> ?I) c (live h1)" using h1(3) by simp
    from items_in_change [OF this, of ?V ?Y] V v(4,5) have two: "items_in ((base \<union> ?I) - ?V \<union> ?Y) c (live h3)" by auto
    have "(base \<union> ?I) - ?V \<union> ?Y = base \<union> (?I - ?V \<union> ?Y)" using i(3) V by auto
    moreover have "base \<subseteq> live h1" using items_in_sub [OF rest] h1(3) Cons.prems(2) by auto
    ultimately have "items_in base ((k, i\<lparr>i_value := v\<rparr>) # c) (live h3)" using two v(5-8) i(3) by auto
    with True h1(1) v(1-3) show ?thesis by (simp add: ki)
  next
    case False
    have eq: "base \<union> ?E \<union> ?I = base \<union> ?I \<union> ?E" by auto
    from Cons.IH [of "base \<union> ?I"] rest i Cons.prems(2) obtain c' h' where
      "insert_h mem key item c h = Ret (c', h')" "items_in (base \<union> ?I) c' (live h')" "heap_ok h'" unfolding eq by auto
    with False i show ?thesis by (auto simp: ki)
  qed
qed

lemma cache_set_h_law:
  assumes "items_in base c (live h)" "heap_ok h" "key_fits mem h"
  shows "\<exists>c' h'. cache_set_h mem key (c, h) = Ret (c', h') \<and> items_in base c' (live h') \<and> heap_ok h'"
  using assms(2,3)
proof (cases rule: ito.create_destroy)
  case (failed h')
  with assms(1) show ?thesis by (simp add: cache_set_h_def)
next
  case (made x h1 h2)
  have "items_in (base - {} \<union> set (owned_item x)) c (live h - {} \<union> set (owned_item x))"
    by (rule items_in_change [OF assms(1)]) (use made(6) in auto)
  with made(7) have "items_in (base \<union> set (owned_item x)) c (live h1)" by simp
  moreover have "set (owned_item x) \<inter> base = {}" using made(6) items_in_sub [OF assms(1)] by auto
  ultimately show ?thesis using insert_h_law [OF _ _ made(4,5,2)] made(1) by (simp add: cache_set_h_def)
qed

lemma cache_run_h_law:
  assumes "items_in base c (live h)" "heap_ok h"
  shows "case cache_run_h mem xs (c, h) of
      Ret (c', h') \<Rightarrow> items_in base c' (live h') \<and> heap_ok h' | UB \<Rightarrow> \<exists>n. mem n \<and> \<not> mem (n + 1)"
  using assms
proof (induction xs arbitrary: c h)
  case (Cons x xs)
  show ?case
  proof (cases "cache_op_h mem x (c, h)")
    case (Ret s)
    obtain c1 h1 where s: "s = (c1, h1)" by fastforce
    have "items_in base c1 (live h1) \<and> heap_ok h1"
    proof (cases x)
      case (OSet k)
      show ?thesis
      proof (cases "key_fits mem h")
        case True
        with cache_set_h_law [OF Cons.prems True, of k] Ret s OSet show ?thesis by auto
      next
        case False
        then have "item_create_h mem h = UB" using item_create_h_UB [OF Cons.prems(2)] by blast
        with Ret OSet show ?thesis by (simp add: cache_set_h_def)
      qed
    next
      case (ORemove P)
      with remove_h_law [OF Cons.prems, of P] Ret s show ?thesis by auto
    qed
    with Cons.IH [of c1 h1] Ret s show ?thesis by simp
  next
    case UB
    have "\<not> key_fits mem h"
    proof (cases x)
      case (OSet k)
      with UB cache_set_h_law [OF Cons.prems, of mem k] show ?thesis by auto
    next
      case (ORemove P)
      with UB remove_h_law [OF Cons.prems, of P] show ?thesis by auto
    qed
    with UB show ?thesis by (auto simp: key_fits_def)
  qed
qed simp


section \<open>Nothing of the cache is lost\<close>

text \<open>
  The cache gives back all its memory. After any sequence of sets and removals, with any allocations
  failing on the way, destroying the cache (the removal of every item) leaves exactly the blocks that
  were live before it had its first item, and no block is freed twice; the one exception is that
  the copy of a key failed after the item was allocated, which frees an uninitialised pointer.
\<close>

theorem cache_no_leak:
  assumes "heap_ok h"
  shows "case cache_run_h mem xs ([], h) of
      Ret (c, h') \<Rightarrow> (\<exists>h''. remove_h (\<lambda>_. True) c h' = Ret ([], h'') \<and> live h'' = live h)
    | UB \<Rightarrow> (\<exists>n. mem n \<and> \<not> mem (n + 1))"
proof (cases "cache_run_h mem xs ([], h)")
  case (Ret s)
  obtain c h' where s: "s = (c, h')" by fastforce
  from cache_run_h_law [of "live h" "[]" h mem xs] Ret s assms have "items_in (live h) c (live h')" "heap_ok h'" by auto
  from remove_h_law [OF this, of "\<lambda>_. True"] show ?thesis by (auto simp: Ret s)
next
  case UB
  with cache_run_h_law [of "live h" "[]" h mem xs] assms show ?thesis by auto
qed

theorem cache_no_leak_witness:
  "\<exists>h''. remove_h (\<lambda>_. True) [(''k'', \<lparr>i_self = At 0, i_key = At 1, i_value = PNull\<rparr>)] \<lparr>live = {0, 1}, tries = 7\<rparr> = Ret ([], h'') \<and> live h'' = {}"
proof -
  have run: "cache_run_h (\<lambda>n. n < 6) [OSet ''k'', OSet ''k''] ([], \<lparr>live = {}, tries = 0\<rparr>) =
      Ret ([(''k'', \<lparr>i_self = At 0, i_key = At 1, i_value = PNull\<rparr>)], \<lparr>live = {0, 1}, tries = 7\<rparr>)"
    by (simp add: cache_set_h_def item_create_h_def item_destroy_h_def h_malloc_def) auto
  have ok: "heap_ok \<lparr>live = {}, tries = 0\<rparr>" by (simp add: heap_ok_def)
  from cache_no_leak [OF ok, of "\<lambda>n. n < 6" "[OSet ''k'', OSet ''k'']"] show ?thesis unfolding run by simp
qed

end
