(* ===== verification/Storage_Ownership.thy ===== *)
theory Storage_Ownership
  imports Ownership
begin

text \<open>
  The blocks of layouts and storages: \<^verbatim>\<open>lib/memio/layout.c\<close>, the constructors and destructors of
  \<^verbatim>\<open>lib/builtin/\<close> and \<^verbatim>\<open>storage_destructor\<close>. What the JSON parser allocates for itself and \<^verbatim>\<open>cJSON_Delete\<close>
  frees is not counted; descriptors are the subject of \<open>Server\<close>.
\<close>

section \<open>Layouts\<close>

record layout_h =
  l_self :: ptr
  l_names :: "ptr list"

text \<open>\<^verbatim>\<open>file_read\<close>, given the outcomes of \<^verbatim>\<open>open\<close>, \<^verbatim>\<open>fstat\<close> and \<^verbatim>\<open>read\<close>.\<close>

definition file_read_h :: "bool \<Rightarrow> bool \<Rightarrow> bool \<Rightarrow> alloc \<Rightarrow> heap \<Rightarrow> (ptr option \<times> heap) c_out" where
  "file_read_h open_ok fstat_ok read_ok mem h =
     (if \<not> open_ok \<or> \<not> fstat_ok then c_bind (h_free PNull h) (\<lambda>h. Ret (None, h))
      else let (buffer, h) = h_malloc mem h
        in if buffer = PNull \<or> \<not> read_ok then c_bind (h_free buffer h) (\<lambda>h. Ret (None, h))
           else Ret (Some buffer, h))"

fun free_names :: "ptr list \<Rightarrow> heap \<Rightarrow> heap c_out" where
  "free_names [] h = Ret h"
| "free_names (p # ps) h = c_bind (h_free p h) (free_names ps)"

definition layout_destroy_h :: "layout_h \<Rightarrow> heap \<Rightarrow> heap c_out" where
  "layout_destroy_h l h = c_bind (free_names (l_names l) h) (h_free (l_self l))"

text \<open>\<^verbatim>\<open>parse_pos\<close> of an item that has the required members or not: the name is copied.\<close>

definition parse_pos_h :: "bool \<Rightarrow> alloc \<Rightarrow> heap \<Rightarrow> ptr option \<times> heap" where
  "parse_pos_h valid mem h =
     (if \<not> valid then (None, h)
      else let (name, h) = h_malloc mem h in if name = PNull then (None, h) else (Some name, h))"

text \<open>The loop over the items; when one fails the names of those before it are freed.\<close>

fun parse_loop_h :: "alloc \<Rightarrow> layout_h \<Rightarrow> bool list \<Rightarrow> heap \<Rightarrow> (layout_h option \<times> heap) c_out" where
  "parse_loop_h mem l [] h = Ret (Some l, h)"
| "parse_loop_h mem l (valid # items) h =
     (case parse_pos_h valid mem h of
        (None, h) \<Rightarrow> c_bind (free_names (l_names l) h) (\<lambda>h. c_bind (h_free (l_self l) h) (\<lambda>h. Ret (None, h)))
      | (Some name, h) \<Rightarrow> parse_loop_h mem (l\<lparr>l_names := l_names l @ [name]\<rparr>) items h)"

text \<open>\<open>json\<close> is what the parser makes of the file: the items of an array, with their validity.\<close>

definition layout_parse_h ::
  "bool \<times> bool \<times> bool \<Rightarrow> bool list option \<Rightarrow> alloc \<Rightarrow> heap \<Rightarrow> (layout_h option \<times> heap) c_out" where
  "layout_parse_h file json mem h =
     (case file of (open_ok, fstat_ok, read_ok) \<Rightarrow>
        c_bind (file_read_h open_ok fstat_ok read_ok mem h) (\<lambda>(data, h).
          case data of
            None \<Rightarrow> Ret (None, h)
          | Some data \<Rightarrow>
              (case json of
                 None \<Rightarrow> c_bind (h_free data h) (\<lambda>h. Ret (None, h))
               | Some items \<Rightarrow>
                   let (layout, h) = h_malloc mem h
                   in if layout = PNull then c_bind (h_free data h) (\<lambda>h. Ret (None, h))
                      else c_bind (parse_loop_h mem \<lparr>l_self = layout, l_names = []\<rparr> items h) (\<lambda>(r, h).
                        c_bind (h_free data h) (\<lambda>h. Ret (r, h))))))"

section \<open>Storages\<close>

text \<open>What \<^verbatim>\<open>priv\<close> is, and with it the destructor. A unix storage with a shared connection has no target.\<close>

datatype priv_h = NullPriv | FilePriv ptr | UnixPriv ptr "ptr option" | MemoryPriv ptr layout_h

record storage_h =
  s_name :: ptr
  s_priv :: priv_h

definition constructor_null_h :: "alloc \<Rightarrow> heap \<Rightarrow> (storage_h option \<times> heap) c_out" where
  "constructor_null_h mem h =
     (let (name, h) = h_malloc mem h
      in if name = PNull then Ret (None, h) else Ret (Some \<lparr>s_name = name, s_priv = NullPriv\<rparr>, h))"

definition constructor_file_h :: "bool \<Rightarrow> alloc \<Rightarrow> heap \<Rightarrow> (storage_h option \<times> heap) c_out" where
  "constructor_file_h dir_ok mem h =
     (if \<not> dir_ok then Ret (None, h)
      else let (name, h) = h_malloc mem h
        in if name = PNull then Ret (None, h)
           else let (priv, h) = h_malloc mem h
             in if priv = PNull then c_bind (h_free name h) (\<lambda>h. Ret (None, h))
                else Ret (Some \<lparr>s_name = name, s_priv = FilePriv priv\<rparr>, h))"

definition constructor_unix_h :: "bool \<Rightarrow> bool \<Rightarrow> alloc \<Rightarrow> heap \<Rightarrow> (storage_h option \<times> heap) c_out" where
  "constructor_unix_h shared connected mem h =
     (let (name, h) = h_malloc mem h
      in if name = PNull then Ret (None, h)
         else let (priv, h) = h_malloc mem h
           in if priv = PNull then c_bind (h_free name h) (\<lambda>h. Ret (None, h))
              else if shared then
                if \<not> connected then c_bind (h_free priv h) (\<lambda>h. c_bind (h_free name h) (\<lambda>h. Ret (None, h)))
                else Ret (Some \<lparr>s_name = name, s_priv = UnixPriv priv None\<rparr>, h)
              else
                let (target, h) = h_malloc mem h
                in if target = PNull then c_bind (h_free priv h) (\<lambda>h. c_bind (h_free name h) (\<lambda>h. Ret (None, h)))
                   else Ret (Some \<lparr>s_name = name, s_priv = UnixPriv priv (Some target)\<rparr>, h))"

text \<open>\<^verbatim>\<open>constructor_tcp\<close> never succeeds, and frees nothing.\<close>

definition constructor_tcp_h :: "alloc \<Rightarrow> heap \<Rightarrow> (storage_h option \<times> heap) c_out" where
  "constructor_tcp_h mem h =
     (let (name, h) = h_malloc mem h
      in if name = PNull then Ret (None, h) else let (priv, h) = h_malloc mem h in Ret (None, h))"

text \<open>The layout is the caller's until the constructor succeeds.\<close>

definition constructor_memory_h :: "bool \<Rightarrow> layout_h \<Rightarrow> alloc \<Rightarrow> heap \<Rightarrow> (storage_h option \<times> heap) c_out" where
  "constructor_memory_h mapped layout mem h =
     (let (name, h) = h_malloc mem h
      in if name = PNull then Ret (None, h)
         else let (priv, h) = h_malloc mem h
           in if priv = PNull then c_bind (h_free name h) (\<lambda>h. Ret (None, h))
              else if \<not> mapped then c_bind (h_free priv h) (\<lambda>h. c_bind (h_free name h) (\<lambda>h. Ret (None, h)))
              else Ret (Some \<lparr>s_name = name, s_priv = MemoryPriv priv layout\<rparr>, h))"

definition memory_parse_h ::
  "bool \<times> bool \<times> bool \<Rightarrow> bool list option \<Rightarrow> bool \<Rightarrow> alloc \<Rightarrow> heap \<Rightarrow> (storage_h option \<times> heap) c_out" where
  "memory_parse_h file json mapped mem h =
     c_bind (layout_parse_h file json mem h) (\<lambda>(layout, h).
       case layout of
         None \<Rightarrow> Ret (None, h)
       | Some layout \<Rightarrow>
           c_bind (constructor_memory_h mapped layout mem h) (\<lambda>(r, h).
             if r = None then c_bind (layout_destroy_h layout h) (\<lambda>h. Ret (None, h)) else Ret (r, h)))"

text \<open>The destructors: \<^verbatim>\<open>free\<close> for a file storage, \<^verbatim>\<open>destructor\<close> of \<^verbatim>\<open>unix.c\<close>, \<^verbatim>\<open>memory_deinit\<close>.\<close>

definition unix_destructor_h :: "ptr \<Rightarrow> ptr option \<Rightarrow> heap \<Rightarrow> heap c_out" where
  "unix_destructor_h priv target h =
     c_bind (case target of None \<Rightarrow> Ret h | Some target \<Rightarrow> h_free target h) (h_free priv)"

definition memory_deinit_h :: "ptr \<Rightarrow> layout_h \<Rightarrow> heap \<Rightarrow> heap c_out" where
  "memory_deinit_h priv layout h = c_bind (layout_destroy_h layout h) (h_free priv)"

fun destructor_h :: "priv_h \<Rightarrow> heap \<Rightarrow> heap c_out" where
  "destructor_h NullPriv h = Ret h"
| "destructor_h (FilePriv priv) h = h_free priv h"
| "destructor_h (UnixPriv priv target) h = unix_destructor_h priv target h"
| "destructor_h (MemoryPriv priv layout) h = memory_deinit_h priv layout h"

definition storage_destructor_h :: "storage_h \<Rightarrow> heap \<Rightarrow> heap c_out" where
  "storage_destructor_h st h = c_bind (destructor_h (s_priv st) h) (h_free (s_name st))"

section \<open>Layouts give back what they took\<close>

definition owned_layout :: "layout_h \<Rightarrow> nat list" where
  "owned_layout l = blocks (l_self l) @ concat (map blocks (l_names l))"

definition wf_layout :: "layout_h \<Rightarrow> bool" where
  "wf_layout l \<longleftrightarrow> l_self l \<noteq> Junk \<and> Junk \<notin> set (l_names l)"

text \<open>What freeing a good pointer does.\<close>

lemma h_free_law:
  assumes "p \<noteq> Junk" "set (blocks p) \<subseteq> live h"
  shows "h_free p h = Ret (h\<lparr>live := live h - set (blocks p)\<rparr>)"
  using assms by (cases p) auto

lemma free_names_law:
  "Junk \<notin> set ps \<Longrightarrow> distinct (concat (map blocks ps)) \<Longrightarrow> set (concat (map blocks ps)) \<subseteq> live h \<Longrightarrow>
     free_names ps h = Ret (h\<lparr>live := live h - set (concat (map blocks ps))\<rparr>)"
proof (induction ps arbitrary: h)
  case (Cons p ps)
  let ?h = "h\<lparr>live := live h - set (blocks p)\<rparr>"
  have "set (concat (map blocks ps)) \<subseteq> live ?h" using Cons.prems(2,3) by auto
  from Cons.IH [OF _ _ this] Cons.prems have "free_names ps ?h = Ret (?h\<lparr>live := live ?h - set (concat (map blocks ps))\<rparr>)" by simp
  moreover have "h_free p h = Ret ?h" using h_free_law [of p h] Cons.prems by auto
  moreover have "live h - set (blocks p) - set (concat (map blocks ps)) = live h - set (concat (map blocks (p # ps)))" by auto
  ultimately show ?case by simp
qed simp

lemma layout_destroy_law:
  assumes "heap_ok h" "wf_layout l" "distinct (owned_layout l)" "set (owned_layout l) \<subseteq> live h"
  shows "\<exists>h'. layout_destroy_h l h = Ret h' \<and> heap_ok h' \<and> tries h' = tries h \<and> live h' = live h - set (owned_layout l)"
proof -
  let ?N = "set (concat (map blocks (l_names l)))"
  let ?h = "h\<lparr>live := live h - ?N\<rparr>"
  have "free_names (l_names l) h = Ret ?h"
    by (rule free_names_law) (use assms in \<open>auto simp: wf_layout_def owned_layout_def\<close>)
  moreover have "h_free (l_self l) ?h = Ret (?h\<lparr>live := live ?h - set (blocks (l_self l))\<rparr>)"
    by (rule h_free_law) (use assms in \<open>auto simp: wf_layout_def owned_layout_def\<close>)
  moreover have "live h - ?N - set (blocks (l_self l)) = live h - set (owned_layout l)" by (auto simp: owned_layout_def)
  ultimately show ?thesis using assms(1) by (auto simp: layout_destroy_h_def heap_ok_def)
qed


lemma parse_loop_law:
  assumes "heap_ok h" "wf_layout l" "distinct (owned_layout l)" "set (owned_layout l) \<subseteq> live h"
  shows "\<exists>r h'. parse_loop_h mem l items h = Ret (r, h') \<and> heap_ok h' \<and> tries h \<le> tries h' \<and>
    (case r of None \<Rightarrow> live h' = live h - set (owned_layout l)
     | Some x \<Rightarrow> wf_layout x \<and> distinct (owned_layout x) \<and> set (owned_layout l) \<subseteq> set (owned_layout x) \<and>
         set (owned_layout x) \<inter> (live h - set (owned_layout l)) = {} \<and> live h' = live h \<union> set (owned_layout x))"
  using assms
proof (induction items arbitrary: l h)
  case Nil
  then show ?case by auto
next
  case (Cons valid items)
  have gone: ?case if "parse_pos_h valid mem h = (None, h1)" "live h1 = live h" "tries h \<le> tries h1" "heap_ok h1" for h1
  proof -
    from layout_destroy_law [OF that(4) Cons.prems(2,3)] Cons.prems(4) that(2) obtain h2 where
      "layout_destroy_h l h1 = Ret h2" "heap_ok h2" "tries h2 = tries h1" "live h2 = live h - set (owned_layout l)" by auto
    with that show ?thesis by (auto simp: layout_destroy_h_def c_bind_assoc [symmetric])
  qed
  show ?case
  proof (cases valid)
    case False
    with gone [of h] Cons.prems(1) show ?thesis by (simp add: parse_pos_h_def)
  next
    case True
    from Cons.prems(1) show ?thesis
    proof (cases rule: h_malloc_cases [where mem = mem])
      case (fail h1)
      with True gone [of h1] show ?thesis by (simp add: parse_pos_h_def)
    next
      case (ok a h1)
      let ?l = "l\<lparr>l_names := l_names l @ [At a]\<rparr>"
      have l: "owned_layout ?l = owned_layout l @ [a]" "wf_layout ?l" using Cons.prems(2) by (auto simp: owned_layout_def wf_layout_def)
      have "distinct (owned_layout ?l)" "set (owned_layout ?l) \<subseteq> live h1" using l(1) Cons.prems(3,4) ok(4,5) by auto
      from Cons.IH [OF ok(7) l(2) this] obtain r h' where IH: "parse_loop_h mem ?l items h1 = Ret (r, h')" "heap_ok h'" "tries h1 \<le> tries h'"
        "case r of None \<Rightarrow> live h' = live h1 - set (owned_layout ?l)
         | Some x \<Rightarrow> wf_layout x \<and> distinct (owned_layout x) \<and> set (owned_layout ?l) \<subseteq> set (owned_layout x) \<and>
             set (owned_layout x) \<inter> (live h1 - set (owned_layout ?l)) = {} \<and> live h' = live h1 \<union> set (owned_layout x)" by blast
      have "live h1 - set (owned_layout ?l) = live h - set (owned_layout l)" using l(1) ok(4,5) by auto
      with IH(4) l(1) ok(5) have "case r of None \<Rightarrow> live h' = live h - set (owned_layout l)
        | Some x \<Rightarrow> wf_layout x \<and> distinct (owned_layout x) \<and> set (owned_layout l) \<subseteq> set (owned_layout x) \<and>
            set (owned_layout x) \<inter> (live h - set (owned_layout l)) = {} \<and> live h' = live h \<union> set (owned_layout x)"
        by (auto split: option.splits)
      moreover have "parse_loop_h mem l (valid # items) h = Ret (r, h')" using ok(1) IH(1) True by (simp add: parse_pos_h_def)
      ultimately show ?thesis using IH(2,3) ok(6) by auto
    qed
  qed
qed


lemma file_read_law:
  assumes "heap_ok h"
  obtains (failed) h' where "file_read_h f1 f2 f3 mem h = Ret (None, h')" "heap_ok h'" "tries h \<le> tries h'" "live h' = live h"
  | (got) a h' where "file_read_h f1 f2 f3 mem h = Ret (Some (At a), h')" "heap_ok h'" "tries h \<le> tries h'" "a \<notin> live h" "live h' = insert a (live h)"
proof (cases "f1 \<and> f2")
  case False
  with assms failed [of h] show thesis by (auto simp: file_read_h_def)
next
  case True
  from assms show thesis
  proof (cases rule: h_malloc_cases [where mem = mem])
    case (fail h1)
    with True failed [of h1] show thesis by (simp add: file_read_h_def)
  next
    case (ok a h1)
    show thesis
    proof (cases f3)
      case True
      with \<open>f1 \<and> f2\<close> ok got [of a h1] show thesis by (simp add: file_read_h_def)
    next
      case False
      with \<open>f1 \<and> f2\<close> ok failed [of "h1\<lparr>live := live h1 - {a}\<rparr>"] show thesis by (simp add: file_read_h_def heap_ok_def)
    qed
  qed
qed

text \<open>The layout from the file: \<open>data\<close> is the buffer of the text, freed on every way out.\<close>

lemma layout_parse_law:
  assumes "heap_ok h"
  shows "\<exists>r h'. layout_parse_h file json mem h = Ret (r, h') \<and> heap_ok h' \<and> tries h \<le> tries h' \<and>
    (case r of None \<Rightarrow> live h' = live h
     | Some x \<Rightarrow> wf_layout x \<and> distinct (owned_layout x) \<and> set (owned_layout x) \<inter> live h = {} \<and> live h' = live h \<union> set (owned_layout x))"
proof -
  obtain f1 f2 f3 where fl: "file = (f1, f2, f3)" by (rule prod_cases3)
  from assms show ?thesis
  proof (cases rule: file_read_law [of h f1 f2 f3 mem])
    case (failed h')
    then show ?thesis by (simp add: layout_parse_h_def fl)
  next
    case (got d h1)
    show ?thesis
    proof (cases json)
      case None
      with got show ?thesis by (simp add: layout_parse_h_def fl heap_ok_def)
    next
      case (Some items)
      from got(2) show ?thesis
      proof (cases rule: h_malloc_cases [where mem = mem])
        case (fail h2)
        with got Some show ?thesis by (simp add: layout_parse_h_def fl heap_ok_def)
      next
        case (ok b h2)
        let ?l = "\<lparr>l_self = At b, l_names = []\<rparr>"
        have l: "owned_layout ?l = [b]" "wf_layout ?l" by (auto simp: owned_layout_def wf_layout_def)
        with ok(5) have "distinct (owned_layout ?l)" "set (owned_layout ?l) \<subseteq> live h2" by auto
        from parse_loop_law [OF ok(7) l(2) this, of mem items] obtain r h' where loop: "parse_loop_h mem ?l items h2 = Ret (r, h')" "heap_ok h'" "tries h2 \<le> tries h'"
          "case r of None \<Rightarrow> live h' = live h2 - set [b]
           | Some x \<Rightarrow> wf_layout x \<and> distinct (owned_layout x) \<and> set [b] \<subseteq> set (owned_layout x) \<and>
               set (owned_layout x) \<inter> (live h2 - set [b]) = {} \<and> live h' = live h2 \<union> set (owned_layout x)" unfolding l(1) by blast
        have d: "d \<in> live h'" "d \<noteq> b" using loop(4) got(5) ok(4,5) by (auto split: option.splits)
        let ?h = "h'\<lparr>live := live h' - {d}\<rparr>"
        have "layout_parse_h file json mem h = Ret (r, ?h)" using got(1) Some ok(1) loop(1) d by (simp add: layout_parse_h_def fl)
        moreover have "case r of None \<Rightarrow> live ?h = live h | Some x \<Rightarrow> wf_layout x \<and> distinct (owned_layout x) \<and>
            set (owned_layout x) \<inter> live h = {} \<and> live ?h = live h \<union> set (owned_layout x)"
          using loop(4) got(4,5) ok(4,5) by (auto split: option.splits)
        ultimately show ?thesis using loop(2,3) got(3) ok(6) by (auto simp: heap_ok_def)
      qed
    qed
  qed
qed

interpretation lao: owner owned_layout wf_layout "\<lambda>_ _. True" "layout_parse_h file json" layout_destroy_h
  by unfold_locales (use layout_parse_law layout_destroy_law in blast)+


section \<open>Storages give back what they took\<close>

fun owned_priv :: "priv_h \<Rightarrow> nat list" where
  "owned_priv NullPriv = []"
| "owned_priv (FilePriv priv) = blocks priv"
| "owned_priv (UnixPriv priv target) = (case target of None \<Rightarrow> [] | Some t \<Rightarrow> blocks t) @ blocks priv"
| "owned_priv (MemoryPriv priv layout) = owned_layout layout @ blocks priv"

fun wf_priv :: "priv_h \<Rightarrow> bool" where
  "wf_priv NullPriv \<longleftrightarrow> True"
| "wf_priv (FilePriv priv) \<longleftrightarrow> priv \<noteq> Junk"
| "wf_priv (UnixPriv priv target) \<longleftrightarrow> priv \<noteq> Junk \<and> target \<noteq> Some Junk"
| "wf_priv (MemoryPriv priv layout) \<longleftrightarrow> priv \<noteq> Junk \<and> wf_layout layout"

definition owned_storage :: "storage_h \<Rightarrow> nat list" where
  "owned_storage st = owned_priv (s_priv st) @ blocks (s_name st)"

definition wf_storage :: "storage_h \<Rightarrow> bool" where
  "wf_storage st \<longleftrightarrow> wf_priv (s_priv st) \<and> s_name st \<noteq> Junk"

lemma heap_ok_minus: "heap_ok h \<Longrightarrow> heap_ok (h\<lparr>live := live h - X\<rparr>)"
  by (simp add: heap_ok_def)

lemma memory_deinit_law:
  assumes "heap_ok h" "priv \<noteq> Junk" "wf_layout l" "distinct (owned_layout l @ blocks priv)" "set (owned_layout l @ blocks priv) \<subseteq> live h"
  shows "\<exists>h'. memory_deinit_h priv l h = Ret h' \<and> heap_ok h' \<and> tries h' = tries h \<and> live h' = live h - set (owned_layout l @ blocks priv)"
proof -
  from layout_destroy_law [OF assms(1,3)] assms(4,5) obtain h1 where
    h1: "layout_destroy_h l h = Ret h1" "heap_ok h1" "tries h1 = tries h" "live h1 = live h - set (owned_layout l)" by auto
  have "set (blocks priv) \<subseteq> live h1" using assms(4,5) h1(4) by auto
  from h_free_law [OF assms(2) this] h1 show ?thesis by (auto simp: memory_deinit_h_def heap_ok_def)
qed

lemma destructor_law:
  assumes "heap_ok h" "wf_priv p" "distinct (owned_priv p)" "set (owned_priv p) \<subseteq> live h"
  shows "\<exists>h'. destructor_h p h = Ret h' \<and> heap_ok h' \<and> tries h' = tries h \<and> live h' = live h - set (owned_priv p)"
proof (cases p)
  case (UnixPriv priv target)
  show ?thesis
  proof (cases target)
    case None
    with UnixPriv assms h_free_law [of priv h] show ?thesis by (simp add: unix_destructor_h_def heap_ok_minus)
  next
    case (Some t)
    let ?h = "h\<lparr>live := live h - set (blocks t)\<rparr>"
    have "h_free t h = Ret ?h" "h_free priv ?h = Ret (?h\<lparr>live := live ?h - set (blocks priv)\<rparr>)"
      by (rule h_free_law; use Some UnixPriv assms in auto)+
    with UnixPriv Some assms(1) show ?thesis by (auto simp: unix_destructor_h_def heap_ok_def)
  qed
next
  case (FilePriv priv)
  with assms h_free_law [of priv h] show ?thesis by (simp add: heap_ok_minus)
next
  case (MemoryPriv priv layout)
  with assms memory_deinit_law [of h priv layout] show ?thesis by simp
qed (use assms in simp)

lemma storage_destructor_law:
  assumes "heap_ok h" "wf_storage st" "distinct (owned_storage st)" "set (owned_storage st) \<subseteq> live h"
  shows "\<exists>h'. storage_destructor_h st h = Ret h' \<and> heap_ok h' \<and> tries h' = tries h \<and> live h' = live h - set (owned_storage st)"
proof -
  from destructor_law [OF assms(1), of "s_priv st"] assms(2-4) obtain h1 where
    h1: "destructor_h (s_priv st) h = Ret h1" "heap_ok h1" "tries h1 = tries h" "live h1 = live h - set (owned_priv (s_priv st))"
    by (auto simp: wf_storage_def owned_storage_def)
  have "set (blocks (s_name st)) \<subseteq> live h1" "s_name st \<noteq> Junk"
    using assms(2-4) h1(4) by (auto simp: wf_storage_def owned_storage_def)
  from h_free_law [OF this(2,1)] h1 show ?thesis by (auto simp: storage_destructor_h_def owned_storage_def heap_ok_def)
qed

lemmas storage_defs = wf_storage_def owned_storage_def heap_ok_def

interpretation nuo: owner owned_storage wf_storage "\<lambda>_ _. True" constructor_null_h storage_destructor_h
proof
  fix h :: heap and mem :: alloc
  assume "heap_ok h"
  then show "\<exists>r h'. constructor_null_h mem h = Ret (r, h') \<and> heap_ok h' \<and> tries h \<le> tries h' \<and>
      (case r of None \<Rightarrow> live h' = live h
       | Some x \<Rightarrow> wf_storage x \<and> distinct (owned_storage x) \<and> set (owned_storage x) \<inter> live h = {} \<and> live h' = live h \<union> set (owned_storage x))"
    by (cases rule: h_malloc_cases [where mem = mem]) (auto simp: constructor_null_h_def storage_defs)
qed (rule storage_destructor_law)

interpretation fio: owner owned_storage wf_storage "\<lambda>_ _. True" "constructor_file_h dir_ok" storage_destructor_h
proof
  fix h :: heap and mem :: alloc
  assume ok: "heap_ok h"
  then show "\<exists>r h'. constructor_file_h dir_ok mem h = Ret (r, h') \<and> heap_ok h' \<and> tries h \<le> tries h' \<and>
      (case r of None \<Rightarrow> live h' = live h
       | Some x \<Rightarrow> wf_storage x \<and> distinct (owned_storage x) \<and> set (owned_storage x) \<inter> live h = {} \<and> live h' = live h \<union> set (owned_storage x))"
  proof (cases rule: h_malloc_cases [where mem = mem])
    case (ok a h1)
    note a = ok
    from a(7) show ?thesis
      by (cases rule: h_malloc_cases [where mem = mem]) (use a \<open>heap_ok h\<close> in \<open>auto simp: constructor_file_h_def storage_defs\<close>)
  qed (use ok in \<open>auto simp: constructor_file_h_def\<close>)
qed (rule storage_destructor_law)

interpretation uxo: owner owned_storage wf_storage "\<lambda>_ _. True" "constructor_unix_h shared connected" storage_destructor_h
proof
  fix h :: heap and mem :: alloc
  assume "heap_ok h"
  then show "\<exists>r h'. constructor_unix_h shared connected mem h = Ret (r, h') \<and> heap_ok h' \<and> tries h \<le> tries h' \<and>
      (case r of None \<Rightarrow> live h' = live h
       | Some x \<Rightarrow> wf_storage x \<and> distinct (owned_storage x) \<and> set (owned_storage x) \<inter> live h = {} \<and> live h' = live h \<union> set (owned_storage x))"
  proof (cases rule: h_malloc_cases [where mem = mem])
    case (ok a h1)
    note a = ok
    from a(7) show ?thesis
    proof (cases rule: h_malloc_cases [where mem = mem])
      case (ok b h2)
      note b = ok
      from b(7) show ?thesis
        by (cases rule: h_malloc_cases [where mem = mem]; cases shared; cases connected)
          (use a b in \<open>auto simp: constructor_unix_h_def storage_defs\<close>)
    qed (use a in \<open>auto simp: constructor_unix_h_def storage_defs\<close>)
  qed (auto simp: constructor_unix_h_def)
qed (rule storage_destructor_law)


text \<open>The constructor of a memory storage takes the layout over when it succeeds.\<close>

lemma constructor_memory_law:
  assumes "heap_ok h" "wf_layout l" "distinct (owned_layout l)" "set (owned_layout l) \<subseteq> live h"
  shows "\<exists>r h'. constructor_memory_h mapped l mem h = Ret (r, h') \<and> heap_ok h' \<and> tries h \<le> tries h' \<and>
    (case r of None \<Rightarrow> live h' = live h
     | Some x \<Rightarrow> wf_storage x \<and> distinct (owned_storage x) \<and>
         set (owned_storage x) \<inter> (live h - set (owned_layout l)) = {} \<and> live h' = live h \<union> set (owned_storage x))"
  using assms(1)
proof (cases rule: h_malloc_cases [where mem = mem])
  case (ok a h1)
  note a = ok
  from a(7) show ?thesis
    by (cases rule: h_malloc_cases [where mem = mem]; cases mapped)
      (use a assms in \<open>auto simp: constructor_memory_h_def storage_defs\<close>)
qed (auto simp: constructor_memory_h_def)

lemma owned_taken:
  "constructor_memory_h mapped l mem h = Ret (Some x, h') \<Longrightarrow> set (owned_layout l) \<subseteq> set (owned_storage x)"
  by (auto simp: constructor_memory_h_def owned_storage_def split: prod.splits if_splits)

lemma memory_parse_law:
  assumes "heap_ok h"
  shows "\<exists>r h'. memory_parse_h file json mapped mem h = Ret (r, h') \<and> heap_ok h' \<and> tries h \<le> tries h' \<and>
    (case r of None \<Rightarrow> live h' = live h
     | Some x \<Rightarrow> wf_storage x \<and> distinct (owned_storage x) \<and> set (owned_storage x) \<inter> live h = {} \<and> live h' = live h \<union> set (owned_storage x))"
proof -
  from layout_parse_law [OF assms, of "file" json mem] obtain l h1 where made:
    "layout_parse_h file json mem h = Ret (l, h1)" "heap_ok h1" "tries h \<le> tries h1"
    "case l of None \<Rightarrow> live h1 = live h
     | Some x \<Rightarrow> wf_layout x \<and> distinct (owned_layout x) \<and> set (owned_layout x) \<inter> live h = {} \<and> live h1 = live h \<union> set (owned_layout x)" by blast
  show ?thesis
  proof (cases l)
    case None
    with made show ?thesis by (simp add: memory_parse_h_def)
  next
    case (Some l')
    with made(4) have l: "wf_layout l'" "distinct (owned_layout l')" "set (owned_layout l') \<inter> live h = {}" "live h1 = live h \<union> set (owned_layout l')" by auto
    then have sub: "set (owned_layout l') \<subseteq> live h1" by auto
    from constructor_memory_law [OF made(2) l(1,2) sub, of mapped mem] obtain r h3 where
      c: "constructor_memory_h mapped l' mem h1 = Ret (r, h3)" "heap_ok h3" "tries h1 \<le> tries h3"
        "case r of None \<Rightarrow> live h3 = live h1
         | Some x \<Rightarrow> wf_storage x \<and> distinct (owned_storage x) \<and>
             set (owned_storage x) \<inter> (live h1 - set (owned_layout l')) = {} \<and> live h3 = live h1 \<union> set (owned_storage x)" by blast
    show ?thesis
    proof (cases r)
      case None
      with c(4) sub layout_destroy_law [OF c(2) l(1,2)] obtain h4 where
        "layout_destroy_h l' h3 = Ret h4" "heap_ok h4" "tries h4 = tries h3" "live h4 = live h3 - set (owned_layout l')" by auto
      with None Some c made(1,3) l(3,4) show ?thesis by (auto simp: memory_parse_h_def)
    next
      case (Some x)
      have "live h1 - set (owned_layout l') = live h" using l(3,4) by auto
      with Some \<open>l = Some l'\<close> c made(1,3) l(4) owned_taken [of mapped l' mem h1 x h3] show ?thesis by (auto simp: memory_parse_h_def)
    qed
  qed
qed

interpretation meo: owner owned_storage wf_storage "\<lambda>_ _. True" "memory_parse_h file json mapped" storage_destructor_h
  by unfold_locales (use memory_parse_law storage_destructor_law in blast)+

end
