(* ===== verification/Request_Ownership.thy ===== *)
theory Request_Ownership
  imports Ownership
begin

text \<open>
  The blocks that requests allocate and free: the value that a storage or the cache hands out, the copy
  that the cache keeps, the mutex of the key, the value that the server receives. The functions of
  \<^verbatim>\<open>lib/io.c\<close>, \<^verbatim>\<open>lib/io_server.c\<close> and the gets of the storages again, with the heap of \<open>Ownership\<close>; what
  they meet besides memory (a file that cannot be read, a connection that breaks) is an argument.
  Requests run one after the other here.
\<close>

section \<open>Values from storages\<close>

text \<open>
  Where a get fails, if it does: a file that cannot be opened or whose header or data cannot be read; an
  answer whose header, data or result does not arrive or is an error; a position that is not there.
\<close>

datatype store_h = SFile bool bool bool | SUnix bool bool bool | SMemory bool | SNone

definition file_get_h :: "bool \<Rightarrow> bool \<Rightarrow> bool \<Rightarrow> alloc \<Rightarrow> heap \<Rightarrow> (ptr option \<times> heap) c_out" where
  "file_get_h opened head data mem h =
     (if \<not> opened then Ret (None, h)
      else if \<not> head then c_bind (h_free PNull h) (\<lambda>h. Ret (None, h))
      else let (v, h) = h_malloc mem h
        in if v = PNull then c_bind (h_free v h) (\<lambda>h. Ret (None, h))
           else if \<not> data then c_bind (h_free v h) (\<lambda>h. Ret (None, h))
           else Ret (Some v, h))"

text \<open>The request itself is taken to be sent: \<^verbatim>\<open>io_begin\<close> asserts it, and frees and allocates nothing.\<close>

definition unix_get_h :: "bool \<Rightarrow> bool \<Rightarrow> bool \<Rightarrow> alloc \<Rightarrow> heap \<Rightarrow> (ptr option \<times> heap) c_out" where
  "unix_get_h head data result mem h =
     (if \<not> head then c_bind (h_free PNull h) (\<lambda>h. Ret (None, h))
      else let (v, h) = h_malloc mem h
        in if v = PNull then c_bind (h_free v h) (\<lambda>h. Ret (None, h))
           else if \<not> data then c_bind (h_free v h) (\<lambda>h. Ret (None, h))
           else if \<not> result then c_bind (h_free v h) (\<lambda>h. Ret (None, h))
           else Ret (Some v, h))"

definition memory_get_h :: "bool \<Rightarrow> alloc \<Rightarrow> heap \<Rightarrow> (ptr option \<times> heap) c_out" where
  "memory_get_h found mem h =
     (if \<not> found then Ret (None, h)
      else let (v, h) = h_malloc mem h in Ret (if v = PNull then None else Some v, h))"

fun store_get_h :: "store_h \<Rightarrow> alloc \<Rightarrow> heap \<Rightarrow> (ptr option \<times> heap) c_out" where
  "store_get_h (SFile opened head data) = file_get_h opened head data"
| "store_get_h (SUnix head data result) = unix_get_h head data result"
| "store_get_h (SMemory found) = memory_get_h found"
| "store_get_h SNone = (\<lambda>mem h. Ret (None, h))"

text \<open>\<^verbatim>\<open>value_parse\<close>: the data of a value are decoded into a block of their own first.\<close>

definition value_parse_h :: "bool \<Rightarrow> bool \<Rightarrow> alloc \<Rightarrow> heap \<Rightarrow> (ptr option \<times> heap) c_out" where
  "value_parse_h hex valid mem h =
     (if \<not> hex then
        (if \<not> valid then Ret (None, h)
         else let (v, h) = h_malloc mem h in Ret (if v = PNull then None else Some v, h))
      else let (m, h) = h_malloc mem h
        in if m = PNull then Ret (None, h)
           else if \<not> valid then c_bind (h_free m h) (\<lambda>h. Ret (None, h))
           else let (v, h) = h_malloc mem h
             in c_bind (h_free m h) (\<lambda>h. Ret (if v = PNull then None else Some v, h)))"

section \<open>Requests\<close>


text \<open>The course of a request after its cache lookup: the mutex of the key around \<open>body\<close>.\<close>

definition locked_h :: "alloc \<Rightarrow> (cache_h \<Rightarrow> heap \<Rightarrow> (ptr \<times> cache_h \<times> heap) c_out) \<Rightarrow> cache_h \<Rightarrow> heap \<Rightarrow> (ptr \<times> cache_h \<times> heap) c_out" where
  "locked_h mem body c h =
     c_bind (named_mutex_create_h mem h) (\<lambda>(n, h).
       case n of
         None \<Rightarrow> Ret (PNull, c, h)
       | Some n \<Rightarrow> c_bind (body c h) (\<lambda>(v, c, h). c_bind (named_mutex_destroy_h n h) (\<lambda>h. Ret (v, c, h))))"

definition keep_h :: "alloc \<Rightarrow> bool \<Rightarrow> string \<Rightarrow> ptr \<Rightarrow> cache_h \<Rightarrow> heap \<Rightarrow> (ptr \<times> cache_h \<times> heap) c_out" where
  "keep_h mem cached key v c h =
     (if cached then c_bind (cache_set_h mem key (c, h)) (\<lambda>(c, h). Ret (v, c, h)) else Ret (v, c, h))"

definition fetch_h :: "alloc \<Rightarrow> bool \<Rightarrow> string \<Rightarrow> store_h \<Rightarrow> cache_h \<Rightarrow> heap \<Rightarrow> (ptr \<times> cache_h \<times> heap) c_out" where
  "fetch_h mem cached key s c h =
     c_bind (store_get_h s mem h) (\<lambda>(r, h).
       case r of None \<Rightarrow> Ret (PNull, c, h) | Some v \<Rightarrow> keep_h mem cached key v c h)"


text \<open>\<^verbatim>\<open>io_update\<close>: whether it returned 0, and the blocks that nothing refers to any more after it.\<close>

definition io_update_h :: "alloc \<Rightarrow> bool \<Rightarrow> string \<Rightarrow> store_h \<Rightarrow> cache_h \<Rightarrow> heap \<Rightarrow> (bool \<times> nat list \<times> cache_h \<times> heap) c_out" where
  "io_update_h mem cached key s c h =
     (if \<not> cached then Ret (True, [], c, h)
      else c_bind (locked_h mem (fetch_h mem True key s) c h) (\<lambda>(v, c, h). Ret (v \<noteq> PNull, blocks v, c, h)))"









section \<open>A value has one owner\<close>

definition is_block :: "ptr \<Rightarrow> bool" where
  "is_block p \<longleftrightarrow> (\<exists>a. p = At a)"

lemma free_block:
  assumes "heap_ok h" "is_block p" "set (blocks p) \<subseteq> live h"
  shows "\<exists>h'. h_free p h = Ret h' \<and> heap_ok h' \<and> tries h' = tries h \<and> live h' = live h - set (blocks p)"
  using assms by (auto simp: is_block_def heap_ok_def)

interpretation sto: owner blocks is_block "\<lambda>_ _. True" "store_get_h s" h_free
proof
  fix h :: heap and mem :: alloc
  assume "heap_ok h"
  then show "\<exists>r h'. store_get_h s mem h = Ret (r, h') \<and> heap_ok h' \<and> tries h \<le> tries h' \<and>
      (case r of None \<Rightarrow> live h' = live h
       | Some x \<Rightarrow> is_block x \<and> distinct (blocks x) \<and> set (blocks x) \<inter> live h = {} \<and> live h' = live h \<union> set (blocks x))"
    by (cases rule: h_malloc_cases [where mem = mem]; cases s)
      (auto simp: file_get_h_def unix_get_h_def memory_get_h_def is_block_def heap_ok_def)
qed (use free_block in blast)

interpretation vpo: owner blocks is_block "\<lambda>_ _. True" "value_parse_h hex valid" h_free
proof
  fix h :: heap and mem :: alloc
  assume h: "heap_ok h"
  then show "\<exists>r h'. value_parse_h hex valid mem h = Ret (r, h') \<and> heap_ok h' \<and> tries h \<le> tries h' \<and>
      (case r of None \<Rightarrow> live h' = live h
       | Some x \<Rightarrow> is_block x \<and> distinct (blocks x) \<and> set (blocks x) \<inter> live h = {} \<and> live h' = live h \<union> set (blocks x))"
  proof (cases rule: h_malloc_cases [where mem = mem])
    case (ok a h1)
    note a = ok
    from a(7) show ?thesis
      by (cases rule: h_malloc_cases [where mem = mem])
        (use a h in \<open>auto simp: value_parse_h_def is_block_def heap_ok_def\<close>)
  qed (use h in \<open>auto simp: value_parse_h_def is_block_def heap_ok_def\<close>)
qed (use free_block in blast)

section \<open>What a request leaves\<close>

text \<open>Items have their values, unless an allocation has failed.\<close>

definition valued :: "alloc \<Rightarrow> cache_h \<Rightarrow> bool" where
  "valued mem c \<longleftrightarrow> (\<forall>n. mem n) \<longrightarrow> (\<forall>i \<in> snd ` set c. i_value i \<noteq> PNull)"

text \<open>The live blocks are those of \<open>base\<close> and of the cache; what a request hands out comes on top.\<close>

definition state_ok :: "alloc \<Rightarrow> nat set \<Rightarrow> cache_h \<Rightarrow> heap \<Rightarrow> bool" where
  "state_ok mem base c h \<longleftrightarrow> items_in base c (live h) \<and> heap_ok h \<and> valued mem c"

definition good :: "alloc \<Rightarrow> nat set \<Rightarrow> (ptr \<times> cache_h \<times> heap) c_out \<Rightarrow> bool" where
  "good mem base r \<longleftrightarrow>
     (case r of
        UB \<Rightarrow> (\<exists>n. \<not> mem n)
      | Ret (v, c, h) \<Rightarrow> v \<noteq> Junk \<and> set (blocks v) \<inter> base = {} \<and> state_ok mem (base \<union> set (blocks v)) c h)"

lemma good_Ret: "good mem base (Ret (v, c, h)) \<longleftrightarrow>
    v \<noteq> Junk \<and> set (blocks v) \<inter> base = {} \<and> state_ok mem (base \<union> set (blocks v)) c h"
  by (simp add: good_def)

lemma good_UB: "good mem base UB \<longleftrightarrow> (\<exists>n. \<not> mem n)"
  by (simp add: good_def)

lemma good_PNull [simp]: "good mem base (Ret (PNull, c, h)) \<longleftrightarrow> state_ok mem base c h"
  by (simp add: good_Ret)

lemma state_ok_more:
  assumes "state_ok mem base c h" "heap_ok h'" "Y \<inter> live h = {}" "live h' = live h \<union> Y"
  shows "state_ok mem (base \<union> Y) c h'" "Y \<inter> base = {}"
proof -
  have "items_in (base - {} \<union> Y) c (live h - {} \<union> Y)" using assms(1,3) by (intro items_in_change) (auto simp: state_ok_def)
  then show "state_ok mem (base \<union> Y) c h'" using assms by (simp add: state_ok_def)
  show "Y \<inter> base = {}" using assms(1,3) items_in_sub [of base c "live h"] by (auto simp: state_ok_def)
qed

lemma state_ok_less:
  assumes "state_ok mem (base \<union> X) c h" "heap_ok h'" "X \<inter> base = {}" "live h' = live h - X"
  shows "state_ok mem base c h'"
proof -
  have "items_in ((base \<union> X) - X \<union> {}) c (live h - X \<union> {})" using assms(1) by (intro items_in_change) (auto simp: state_ok_def)
  moreover have "(base \<union> X) - X = base" using assms(3) by auto
  ultimately show ?thesis using assms by (simp add: state_ok_def)
qed

lemma state_ok_live: "state_ok mem base c h \<Longrightarrow> base \<subseteq> live h"
  using items_in_sub by (auto simp: state_ok_def)

lemma h_malloc_all: "\<forall>n. mem n \<Longrightarrow> h_malloc mem h = (At (tries h), h\<lparr>live := insert (tries h) (live h), tries := tries h + 1\<rparr>)"
  by (simp add: h_malloc_def)

lemma insert_h_valued:
  "insert_h mem key item c h = Ret (c', h') \<Longrightarrow> i_value item \<noteq> PNull \<Longrightarrow> \<forall>n. mem n \<Longrightarrow> \<forall>i \<in> snd ` set c. i_value i \<noteq> PNull \<Longrightarrow>
     \<forall>i \<in> snd ` set c'. i_value i \<noteq> PNull"
proof (induction c arbitrary: c' h)
  case (Cons ki c)
  obtain k i where ki: "ki = (k, i)" by fastforce
  show ?case
  proof (cases "k = key")
    case True
    with Cons.prems show ?thesis by (auto simp: ki h_malloc_all)
  next
    case False
    with Cons.prems(1) obtain c1 where c1: "insert_h mem key item c h = Ret (c1, h')" "c' = (k, i) # c1" by (auto simp: ki)
    from Cons.IH [OF c1(1) Cons.prems(2,3)] Cons.prems(4) c1(2) show ?thesis by (simp add: ki)
  qed
qed auto

lemma cache_set_h_valued:
  assumes "cache_set_h mem key (c, h) = Ret (c', h')" "valued mem c"
  shows "valued mem c'"
  unfolding valued_def
proof
  assume mem: "\<forall>n. mem n"
  from assms(1) obtain r h1 where r: "item_create_h mem h = Ret (r, h1)"
    "(case r of None \<Rightarrow> Ret (c, h1) | Some item \<Rightarrow> insert_h mem key item c h1) = Ret (c', h')"
    by (auto simp: cache_set_h_def)
  from r(1) obtain i where i: "r = Some i" "i_value i \<noteq> PNull"
    by (auto simp: item_create_h_def h_malloc_all [OF mem] Let_def)
  have "insert_h mem key i c h1 = Ret (c', h')" using r(2) i(1) by simp
  from insert_h_valued [OF this i(2) mem] assms(2) mem show "\<forall>i \<in> snd ` set c'. i_value i \<noteq> PNull" by (simp add: valued_def)
qed

lemma keep_good:
  assumes "state_ok mem (base \<union> set (blocks v)) c h" "v \<noteq> Junk" "set (blocks v) \<inter> base = {}"
  shows "good mem base (keep_h mem cached key v c h)"
proof (cases "key_fits mem h")
  case True
  with assms(1) cache_set_h_law [of "base \<union> set (blocks v)" c h mem key] obtain c' h' where
    r: "cache_set_h mem key (c, h) = Ret (c', h')" "items_in (base \<union> set (blocks v)) c' (live h')" "heap_ok h'"
    by (auto simp: state_ok_def)
  with assms cache_set_h_valued [OF r(1)] show ?thesis by (simp add: keep_h_def good_Ret state_ok_def)
next
  case False
  then have "item_create_h mem h = UB" using item_create_h_UB assms(1) by (auto simp: state_ok_def)
  with False assms show ?thesis by (auto simp: keep_h_def cache_set_h_def good_def key_fits_def)
qed

lemma fetch_good:
  assumes "state_ok mem base c h"
  shows "good mem base (fetch_h mem cached key s c h)"
proof -
  have h: "heap_ok h" using assms by (simp add: state_ok_def)
  from sto.create_law [OF h TrueI, of s mem] obtain r h' where r: "store_get_h s mem h = Ret (r, h')" "heap_ok h'"
    "case r of None \<Rightarrow> live h' = live h
     | Some x \<Rightarrow> is_block x \<and> distinct (blocks x) \<and> set (blocks x) \<inter> live h = {} \<and> live h' = live h \<union> set (blocks x)" by blast
  show ?thesis
  proof (cases r)
    case None
    with r assms show ?thesis by (simp add: fetch_h_def state_ok_def)
  next
    case (Some v)
    with r(3) have v: "is_block v" "set (blocks v) \<inter> live h = {}" "live h' = live h \<union> set (blocks v)" by auto
    have "v \<noteq> Junk" using v(1) by (auto simp: is_block_def)
    with keep_good [OF state_ok_more(1) [OF assms r(2) v(2,3)] _ state_ok_more(2) [OF assms r(2) v(2,3)]] r(1) Some
    show ?thesis by (simp add: fetch_h_def)
  qed
qed

lemma locked_good:
  assumes "state_ok mem base c h" and body: "\<And>base c h. state_ok mem base c h \<Longrightarrow> good mem base (body c h)"
  shows "good mem base (locked_h mem body c h)"
proof -
  have h: "heap_ok h" using assms(1) by (simp add: state_ok_def)
  from h TrueI show ?thesis
  proof (cases rule: nmo.create_destroy [of h mem])
    case (failed h')
    with assms(1) show ?thesis by (simp add: locked_h_def state_ok_def)
  next
    case (made n h1 h2)
    let ?N = "set (owned_nmtx n)"
    note more = state_ok_more [OF assms(1) made(2,6,7)]
    show ?thesis
    proof (cases "body c h1")
      case UB
      with body [OF more(1)] made(1) show ?thesis by (simp add: locked_h_def good_UB)
    next
      case (Ret x)
      obtain v c' h' where x: "x = (v, c', h')" by (cases x) auto
      with Ret body [OF more(1)] have v: "v \<noteq> Junk" "set (blocks v) \<inter> (base \<union> ?N) = {}" and ok: "state_ok mem (base \<union> ?N \<union> set (blocks v)) c' h'"
        by (auto simp: good_Ret)
      have "heap_ok h'" "?N \<subseteq> live h'" using ok state_ok_live [OF ok] by (auto simp: state_ok_def)
      from nmo.destroy_law [OF this(1) made(4,5) this(2)] obtain h3 where
        h3: "named_mutex_destroy_h n h' = Ret h3" "heap_ok h3" "live h3 = live h' - ?N" by blast
      have eq: "base \<union> ?N \<union> set (blocks v) = base \<union> set (blocks v) \<union> ?N" by auto
      have "state_ok mem (base \<union> set (blocks v)) c' h3"
        using ok v(2) more(2) unfolding eq by (intro state_ok_less [OF _ h3(2) _ h3(3)]) auto
      with Ret x made(1) h3(1) v show ?thesis by (auto simp: locked_h_def good_Ret)
    qed
  qed
qed



text \<open>What an update loses comes on top of what was live.\<close>

lemma io_update_good:
  assumes "state_ok mem base c h"
  shows "case io_update_h mem cached key s c h of
      UB \<Rightarrow> (\<exists>n. \<not> mem n)
    | Ret (ok, lost, c', h') \<Rightarrow> set lost \<inter> base = {} \<and> state_ok mem (base \<union> set lost) c' h' \<and> (cached \<or> lost = [])"
proof (cases cached)
  case True
  have "good mem base (locked_h mem (fetch_h mem True key s) c h)" by (rule locked_good [OF assms fetch_good])
  with True show ?thesis by (auto simp: io_update_h_def good_def split: c_out.splits)
qed (simp add: io_update_h_def assms)








lemma empty_state_ok: "heap_ok h \<Longrightarrow> state_ok mem (live h) [] h"
  by (simp add: state_ok_def valued_def)

section \<open>Properties\<close>



text \<open>
  An update of the cache loses a value. When a child registers with keys to be cached, every value
  that is fetched from it is copied into the cache and never freed: after the cache is destroyed one
  block more is live than before, for each of them.
\<close>

theorem io_update_leaks:
  assumes "heap_ok h" "\<And>n. mem n"
  shows "\<exists>c h1 h2 a. io_update_h mem True key (SUnix True True True) [] h = Ret (True, [a], c, h1) \<and>
    remove_h (\<lambda>_. True) c h1 = Ret ([], h2) \<and> a \<notin> live h \<and> live h2 = insert a (live h)"
proof -
  have mem: "\<forall>n. mem n" using assms(2) by blast
  let ?r = "locked_h mem (fetch_h mem True key (SUnix True True True)) [] h"
  have g: "good mem (live h) ?r" by (rule locked_good [OF empty_state_ok [OF assms(1)] fetch_good])
  then obtain v c h1 where r: "?r = Ret (v, c, h1)" using mem by (cases ?r) (auto simp: good_UB)
  have "v \<noteq> PNull"
    using r h_malloc_all [OF mem]
    by (auto simp: locked_h_def named_mutex_create_h_def fetch_h_def unix_get_h_def keep_h_def)
  with g r obtain a where a: "v = At a" "a \<notin> live h" "items_in (insert a (live h)) c (live h1)" "heap_ok h1"
    by (cases v) (auto simp: good_Ret state_ok_def)
  from remove_h_law [OF a(3,4), of "\<lambda>_. True"] r a(1,2) show ?thesis by (auto simp: io_update_h_def)
qed

theorem io_update_leaks_witness:
  "\<exists>c h1 h2 a. io_update_h (\<lambda>_. True) True ''k'' (SUnix True True True) [] \<lparr>live = {}, tries = 0\<rparr> = Ret (True, [a], c, h1) \<and>
    remove_h (\<lambda>_. True) c h1 = Ret ([], h2) \<and> live h2 = {a}"
  using io_update_leaks [of "\<lparr>live = {}, tries = 0\<rparr>" "\<lambda>_. True" "''k''"] by (auto simp: heap_ok_def)

end
