(* ===== verification/Route_Ownership.thy ===== *)
theory Route_Ownership
  imports Storage_Ownership Request_Ownership
begin

text \<open>
  The blocks of the route table: \<^verbatim>\<open>lib/route.c\<close>, the registration of children by the control server
  (\<^verbatim>\<open>lib/ctrl_server.c\<close>) and of the storages of the command line (\<^verbatim>\<open>lib/propd.c\<close>). A route item takes
  over the storage it is made for; one that is not made leaves it to the caller.
\<close>

section \<open>Route items\<close>

record route_item_h =
  r_self :: ptr
  r_prefix :: arr
  r_storage :: storage_h

definition route_item_create_h :: "storage_h \<Rightarrow> nat \<Rightarrow> alloc \<Rightarrow> heap \<Rightarrow> (route_item_h option \<times> heap) c_out" where
  "route_item_create_h st num_prefix mem h =
     (let (item, h) = h_malloc mem h
      in if item = PNull then Ret (None, h)
         else c_bind (arraydup_cstring_h num_prefix mem h) (\<lambda>(prefix, h).
           case prefix of
             None \<Rightarrow> c_bind (h_free item h) (\<lambda>h. Ret (None, h))
           | Some prefix \<Rightarrow> Ret (Some \<lparr>r_self = item, r_prefix = prefix, r_storage = st\<rparr>, h)))"


section \<open>The table\<close>

text \<open>The items with the names of their storages, the first first.\<close>

type_synonym route_h = "(string \<times> route_item_h) list"

definition route_register_h ::
  "string \<Rightarrow> storage_h \<Rightarrow> nat \<Rightarrow> alloc \<Rightarrow> route_h \<times> heap \<Rightarrow> (bool \<times> route_h \<times> heap) c_out" where
  "route_register_h name st num_prefix mem = (\<lambda>(r, h).
     if name \<in> fst ` set r then Ret (False, r, h)
     else c_bind (route_item_create_h st num_prefix mem h) (\<lambda>(item, h).
       case item of None \<Rightarrow> Ret (False, r, h) | Some item \<Rightarrow> Ret (True, (name, item) # r, h)))"



text \<open>
  The updates of the cache with which \<^verbatim>\<open>register_child\<close> begins: the keys, and for each how the new storage
  answers. What they lose is collected in their second result.
\<close>

fun updates_h :: "alloc \<Rightarrow> bool \<Rightarrow> (string \<times> store_h) list \<Rightarrow> cache_h \<Rightarrow> heap \<Rightarrow> (bool \<times> nat list \<times> cache_h \<times> heap) c_out" where
  "updates_h mem cached [] c h = Ret (True, [], c, h)"
| "updates_h mem cached ((key, s) # ks) c h =
     c_bind (io_update_h mem cached key s c h) (\<lambda>(ok, lost, c, h).
       if \<not> ok then Ret (False, lost, c, h)
       else c_bind (updates_h mem cached ks c h) (\<lambda>(ok, lost', c, h). Ret (ok, lost @ lost', c, h)))"

text \<open>
  \<^verbatim>\<open>register_child\<close>. The destructor is a cleanup handler, run on the way out when the result is not 0. A
  storage that is not registered because there is no prefix is lost as well.
\<close>

type_synonym table_h = "route_h \<times> cache_h \<times> heap"

definition register_child_h ::
  "string \<Rightarrow> (string \<times> store_h) list \<Rightarrow> nat \<Rightarrow> alloc \<Rightarrow> bool \<Rightarrow> table_h \<Rightarrow> (nat list \<times> table_h) c_out" where
  "register_child_h name cache_now num_prefix mem cached = (\<lambda>(r, c, h).
     if cache_now = [] \<and> num_prefix = 0 then Ret ([], r, c, h)
     else c_bind (constructor_unix_h False False mem h) (\<lambda>(st, h).
       case st of
         None \<Rightarrow> Ret ([], r, c, h)
       | Some st \<Rightarrow>
           c_bind (updates_h mem cached cache_now c h) (\<lambda>(updated, lost, c, h).
             c_bind
               (if \<not> updated then Ret (False, r, h)
                else if num_prefix = 0 then Ret (True, r, h)
                else let (prefix, h) = h_malloc mem h
                  in if prefix = PNull then Ret (False, r, h)
                     else c_bind (route_register_h name st num_prefix mem (r, h)) (\<lambda>(ok, r, h).
                       c_bind (h_free prefix h) (\<lambda>h. Ret (ok, r, h))))
               (\<lambda>(ok, r, h).
                 if ok then Ret (if num_prefix = 0 then lost @ owned_storage st else lost, r, c, h)
                 else c_bind (storage_destructor_h st h) (\<lambda>h. Ret (lost, r, c, h))))))"




section \<open>Storages of the command line\<close>








section \<open>The live blocks are those of the table\<close>

definition owned_ritem :: "route_item_h \<Rightarrow> nat list" where
  "owned_ritem i = owned_arr (r_prefix i) @ owned_storage (r_storage i) @ blocks (r_self i)"

definition wf_ritem :: "route_item_h \<Rightarrow> bool" where
  "wf_ritem i \<longleftrightarrow> wf_arr (r_prefix i) \<and> wf_storage (r_storage i) \<and> r_self i \<noteq> Junk"



definition table_blocks :: "route_h \<Rightarrow> nat list" where
  "table_blocks r = concat (map (\<lambda>(k, i). owned_ritem i) r)"

definition in_table :: "nat set \<Rightarrow> route_h \<Rightarrow> nat set \<Rightarrow> bool" where
  "in_table base r L \<longleftrightarrow>
     (\<forall>(k, i) \<in> set r. wf_ritem i) \<and> distinct (table_blocks r) \<and> set (table_blocks r) \<inter> base = {} \<and> L = base \<union> set (table_blocks r)"

lemma table_blocks_simps [simp]:
  "table_blocks [] = []" "table_blocks ((k, i) # r) = owned_ritem i @ table_blocks r"
  by (simp_all add: table_blocks_def)

lemma in_table_Nil [simp]: "in_table base [] L \<longleftrightarrow> L = base"
  by (auto simp: in_table_def)

lemma in_table_Cons [simp]:
  "in_table base ((k, i) # r) L \<longleftrightarrow>
     wf_ritem i \<and> distinct (owned_ritem i) \<and> set (owned_ritem i) \<inter> base = {} \<and> in_table (base \<union> set (owned_ritem i)) r L"
  by (auto simp: in_table_def)

















section \<open>Storages of the command line\<close>









section \<open>What the route table keeps and what it loses\<close>




text \<open>
  A child with keys to cache and no prefix: its storage is neither in the table nor destroyed, and its
  three blocks stay.
\<close>

theorem register_child_no_prefix_leaks:
  assumes "mem (tries h)" "mem (tries h + 1)" "mem (tries h + 2)"
  shows "\<exists>lost h'. register_child_h name [(key, s)] 0 mem False (r, c, h) = Ret (lost, r, c, h') \<and>
    set lost = {tries h, tries h + 1, tries h + 2} \<and> live h' = live h \<union> {tries h, tries h + 1, tries h + 2}"
  using assms by (auto simp: register_child_h_def constructor_unix_h_def h_malloc_def io_update_h_def owned_storage_def)

text \<open>\<^verbatim>\<open>constructor_tcp\<close> reports an error and keeps two blocks nobody knows of.\<close>

theorem constructor_tcp_leaks:
  assumes "mem (tries h)" "mem (tries h + 1)"
  shows "\<exists>h'. constructor_tcp_h mem h = Ret (None, h') \<and> live h' = live h \<union> {tries h, tries h + 1}"
  using assms by (auto simp: constructor_tcp_h_def h_malloc_def)

end
