(* ===== verification/Io_Reconfig.thy ===== *)
theory Io_Reconfig
  imports Io_Interleaved Builtin
begin

text \<open>
  Requests while the daemon is being reconfigured. To the steps of \<open>Io_Interleaved\<close> come the
  registration and unregistration of storages by the control server and \<^verbatim>\<open>io_update\<close>, by which a registration
  fills the cache. Threads are not cancelled here: that happens when the daemon stops (\<open>Propd_Run\<close>).

  Of the storages it is only assumed that their calls return and give good values (\<open>any_storages\<close>): which
  storage serves a key may change at any moment, and a value that a storage left in the cache stays
  there when the storage goes, so that cache and storages need not agree. What holds is that no thread
  ever refers to a storage that is gone, that a storage in use is not unregistered, and that no named
  mutex and no reference is left behind. As in \<open>Io_Interleaved\<close> there is memory for copies in the cache.
\<close>

section \<open>Steps\<close>

text \<open>
  A thread in \<^verbatim>\<open>io_update\<close> locks the key, reads the storage it is given, sets the cache and unlocks the key, in
  the same pieces as a get that has found its storage. Its storage is a local variable of \<^verbatim>\<open>register_child\<close>,
  at an address where no item of the table is. \<open>m_upd\<close> has the threads in \<^verbatim>\<open>io_update\<close>, with their storages.
\<close>

record 'w reconf =
  m_conc :: "'w conc"
  m_upd :: "nat \<Rightarrow> 'w storage_ctx option"

abbreviation m_thr :: "'w reconf \<Rightarrow> nat \<Rightarrow> thr" where
  "m_thr s \<equiv> c_thr (m_conc s)"

abbreviation m_route :: "'w reconf \<Rightarrow> 'w route_list" where
  "m_route s \<equiv> c_route (m_conc s)"

definition reconf_init :: "'w io_ctx \<Rightarrow> 'w reconf" where
  "reconf_init io = \<lparr>m_conc = conc_init io, m_upd = (\<lambda>_. None)\<rparr>"

text \<open>
  \<open>request\<close> has the steps of requests and the pieces that updates have in common with them. The steps of a
  request on the item it has matched are none of an update, as there is no item at its storage's address:
  an update calls its own storage, and it ends without giving back a reference. The item of a registration is
  put where nothing else is.
\<close>

inductive re_step :: "(rq \<Rightarrow> bool) \<Rightarrow> ('w storage_ctx \<Rightarrow> bool) \<Rightarrow> 'w reconf \<Rightarrow> 'w reconf \<Rightarrow> bool"
  for ok_rq :: "rq \<Rightarrow> bool" and good :: "'w storage_ctx \<Rightarrow> bool" where
  request: "io_step ok_rq (m_conc s) c \<Longrightarrow> re_step ok_rq good s (s\<lparr>m_conc := c\<rparr>)"
| register: "good st \<Longrightarrow> a \<notin> addr ` set (m_route s) \<Longrightarrow> (\<forall>t. m_upd s t \<noteq> None \<longrightarrow> thr_ref (m_thr s t) \<noteq> Some a) \<Longrightarrow>
    route_register mem a (m_route s) st num ps = Ret (e, route') \<Longrightarrow>
    re_step ok_rq good s (s\<lparr>m_conc := (m_conc s)\<lparr>c_route := route'\<rparr>\<rparr>)"
| unregister: "route_unregister (m_route s) name (c_world (m_conc s)) = (e, route', w') \<Longrightarrow>
    re_step ok_rq good s (s\<lparr>m_conc := (m_conc s)\<lparr>c_route := route', c_world := w'\<rparr>\<rparr>)"
| update: "m_thr s t = Rest \<Longrightarrow> good st \<Longrightarrow> ok_rq (RGet k) \<Longrightarrow> c_cache (m_conc s) \<noteq> None \<Longrightarrow> a \<notin> addr ` set (m_route s) \<Longrightarrow>
    re_step ok_rq good s
      (s\<lparr>m_conc := (m_conc s)\<lparr>c_thr := (m_thr s)(t := Routed (RGet k) a)\<rparr>, m_upd := (m_upd s)(t := Some st)\<rparr>)"
| update_serve: "m_upd s t = Some st \<Longrightarrow> m_thr s t = Locked r a \<Longrightarrow> rq_serve r st (c_world (m_conc s)) = Ret (x, w') \<Longrightarrow>
    re_step ok_rq good s (s\<lparr>m_conc := (m_conc s)\<lparr>c_world := w', c_thr := (m_thr s)(t := Served r a x)\<rparr>\<rparr>)"
| update_end: "m_upd s t = Some st \<Longrightarrow> m_thr s t = Leaving r a x \<Longrightarrow> pcs (c_nm (m_conc s)) t = Idle \<Longrightarrow>
    re_step ok_rq good s (s\<lparr>m_conc := (m_conc s)\<lparr>c_thr := (m_thr s)(t := Rest)\<rparr>, m_upd := (m_upd s)(t := None)\<rparr>)"

text \<open>The threads that are in requests.\<close>

definition rq_view :: "'w reconf \<Rightarrow> nat \<Rightarrow> thr" where
  "rq_view s t = (if m_upd s t = None then m_thr s t else Rest)"

section \<open>References\<close>

text \<open>The references the threads hold.\<close>

definition held :: "(nat \<Rightarrow> thr) \<Rightarrow> nat multiset" where
  "held T = image_mset (\<lambda>t. the (thr_ref (T t))) (mset_set {t. thr_ref (T t) \<noteq> None})"

definition busy :: "(nat \<Rightarrow> thr) \<Rightarrow> nat set" where
  "busy T = {t. thr_ref (T t) \<noteq> None}"

lemma held_same: "thr_ref p = thr_ref (T t) \<Longrightarrow> held (T(t := p)) = held T"
proof -
  assume "thr_ref p = thr_ref (T t)"
  then have eq: "thr_ref ((T(t := p)) u) = thr_ref (T u)" for u by simp
  show ?thesis unfolding held_def eq ..
qed

lemma held_take:
  assumes "finite (busy T)" "thr_ref (T t) = None" "thr_ref p = Some a"
  shows "held (T(t := p)) = add_mset a (held T)"
proof -
  have "{u. thr_ref ((T(t := p)) u) \<noteq> None} = insert t (busy T)" "t \<notin> busy T" using assms(2,3) by (auto simp: busy_def)
  moreover have "image_mset (\<lambda>u. the (thr_ref ((T(t := p)) u))) (mset_set (busy T)) = held T"
    unfolding held_def busy_def [symmetric] using assms(1,2) by (intro image_mset_cong) (auto simp: busy_def)
  ultimately show ?thesis using assms(1,3) by (simp add: held_def)
qed

lemma held_give:
  assumes "finite (busy T)" "thr_ref (T t) = Some a" "thr_ref p = None"
  shows "held (T(t := p)) = held T - {#a#}" "a \<in># held T"
proof -
  let ?T = "T(t := p)"
  have fin: "finite (busy ?T)" by (rule finite_subset [OF _ assms(1)]) (use assms in \<open>auto simp: busy_def\<close>)
  have "held (?T(t := T t)) = add_mset a (held ?T)" by (rule held_take [OF fin]) (use assms in auto)
  then have "held T = add_mset a (held ?T)" by simp
  then show "held (T(t := p)) = held T - {#a#}" "a \<in># held T" by auto
qed

lemma count_held:
  assumes "finite (busy T)"
  shows "count (held T) a = card (uses T a)"
proof -
  have "count (held T) a = card {t \<in> busy T. the (thr_ref (T t)) = a}"
    using assms unfolding held_def busy_def [symmetric]
    by (simp add: count_image_mset Int_def vimage_def conj_commute)
  also have "{t \<in> busy T. the (thr_ref (T t)) = a} = uses T a" by (auto simp: uses_def busy_def)
  finally show ?thesis .
qed

lemma held_in: "finite (busy T) \<Longrightarrow> thr_ref (T t) = Some a \<Longrightarrow> a \<in># held T"
  using held_give(2) [of T t a Rest] by simp

lemma busy_upd: "finite (busy T) \<Longrightarrow> finite (busy (T(t := p)))"
  by (rule finite_subset [of _ "insert t (busy T)"]) (auto simp: busy_def)

definition use_inv :: "(nat \<Rightarrow> thr) \<Rightarrow> 'w route_list \<Rightarrow> bool" where
  "use_inv T route \<longleftrightarrow> finite (busy T) \<and> refs_inv (held T) route"

lemma use_inv_same: "use_inv T route \<Longrightarrow> thr_ref p = thr_ref (T t) \<Longrightarrow> use_inv (T(t := p)) route"
  using held_same [of p T t] busy_upd [of T t p] by (simp add: use_inv_def)

lemma use_inv_match:
  assumes "use_inv T route" "route_match True route k = (Inr a, route')" "thr_ref (T t) = None" "thr_ref p = Some a"
  shows "use_inv (T(t := p)) route'"
  using assms held_take [of T t p a] refs_inv_match [of "held T" route k a route'] busy_upd [of T t p] by (simp add: use_inv_def)

lemma use_inv_deref:
  assumes "use_inv T route" "route_deref a route = Ret route'" "thr_ref (T t) = Some a" "thr_ref p = None"
  shows "use_inv (T(t := p)) route'"
proof -
  have fin: "finite (busy T)" using assms(1) by (simp add: use_inv_def)
  from held_give [OF fin assms(3,4)] refs_inv_deref [of "held T" route a] assms(1,2) busy_upd [OF fin] show ?thesis
    by (auto simp: use_inv_def)
qed

lemma use_inv_no_match:
  assumes "use_inv T route" "route_match True route k = (Inl e, route')"
  shows "route' = route"
proof -
  have "distinct (map addr route)" using assms(1) by (simp add: use_inv_def refs_inv_def route_ok_def)
  with assms(2) route_match_fst [of True route k] route_match_snd [of route True k] show ?thesis by (auto split: option.splits)
qed

text \<open>A thread in an update is between the pieces of a get, with an address that is not in the table.\<close>

definition upd_inv :: "'w reconf \<Rightarrow> bool" where
  "upd_inv s \<longleftrightarrow> (\<forall>t st. m_upd s t = Some st \<longrightarrow>
     (\<exists>a k. thr_ref (m_thr s t) = Some a \<and> a \<notin> addr ` set (m_route s) \<and> thr_rq (m_thr s t) = Some (RGet k)))"

lemma upd_invE:
  assumes "upd_inv s" "m_upd s t = Some st"
  obtains a k where "thr_ref (m_thr s t) = Some a" "a \<notin> addr ` set (m_route s)" "thr_rq (m_thr s t) = Some (RGet k)"
  using assms unfolding upd_inv_def by blast

lemma rq_view_step:
  assumes "c_thr c = (m_thr s)(t := p)"
  shows "rq_view (s\<lparr>m_conc := c\<rparr>) = (if m_upd s t = None then (rq_view s)(t := p) else rq_view s)"
  using assms by (auto simp: rq_view_def fun_eq_iff)

lemma rq_view_same: "c_thr c = m_thr s \<Longrightarrow> rq_view (s\<lparr>m_conc := c\<rparr>) = rq_view s"
  by (auto simp: rq_view_def fun_eq_iff)

lemma deref_in: "route_deref a route = Ret route' \<Longrightarrow> a \<in> addr ` set route"
  by (induction route arbitrary: route') (auto split: if_splits)

lemma storage_at_in: "storage_at a route = Ret st \<Longrightarrow> a \<in> addr ` set route"
  by (auto simp: storage_at_def dest!: find_in_set split: option.splits)

text \<open>A step of \<open>Io_Interleaved\<close> by a thread in an update is one of the pieces it has in common with a get.\<close>

lemma request_of:
  assumes "upd_inv s" "m_upd s t \<noteq> None"
  shows "m_thr s t \<noteq> Rest" "m_thr s t \<noteq> Begun r" "m_thr s t \<noteq> Matching r" "m_thr s t \<noteq> Ended x"
    "m_thr s t = Locked r a \<Longrightarrow> storage_at a (m_route s) \<noteq> Ret st" "m_thr s t = Leaving r a x \<Longrightarrow> route_deref a (m_route s) \<noteq> Ret route'"
proof -
  from assms obtain a' k where u: "thr_ref (m_thr s t) = Some a'" "a' \<notin> addr ` set (m_route s)" by (auto elim: upd_invE)
  then show "m_thr s t \<noteq> Rest" "m_thr s t \<noteq> Begun r" "m_thr s t \<noteq> Matching r" "m_thr s t \<noteq> Ended x"
    "m_thr s t = Locked r a \<Longrightarrow> storage_at a (m_route s) \<noteq> Ret st" "m_thr s t = Leaving r a x \<Longrightarrow> route_deref a (m_route s) \<noteq> Ret route'"
    using storage_at_in [of a "m_route s" st] deref_in [of a "m_route s" route'] by auto
qed

lemma use_view_upd:
  assumes "c_thr c = (m_thr s)(t := p)" "thr_ref p = thr_ref (m_thr s t)" "use_inv (rq_view s) route"
  shows "use_inv (rq_view (s\<lparr>m_conc := c\<rparr>)) route"
proof (cases "m_upd s t")
  case None
  then have "thr_ref p = thr_ref (rq_view s t)" using assms(2) by (simp add: rq_view_def)
  from use_inv_same [OF assms(3) this] None assms(1) show ?thesis by (simp add: rq_view_step)
qed (use assms in \<open>simp add: rq_view_step\<close>)

lemma use_inv_request:
  assumes "io_step ok_rq c c'" "m_conc s = c" "use_inv (rq_view s) (m_route s)" "upd_inv s"
  shows "use_inv (rq_view (s\<lparr>m_conc := c'\<rparr>)) (c_route c')"
  using assms
proof (induction rule: io_step.induct)
  case (matched c t r a route')
  then have u: "m_upd s t = None" using request_of(3) [of s t r] by (cases "m_upd s t") auto
  moreover have "thr_ref (rq_view s t) = None" using matched u by (simp add: rq_view_def)
  ultimately show ?case
    using matched use_inv_match [of "rq_view s" "m_route s" "rq_key r" a route' t "Routed r a"] by (simp add: rq_view_step fun_upd_def)
next
  case (unmatched c t r e route')
  moreover have "route' = c_route c" using unmatched use_inv_no_match by metis
  ultimately show ?case by (auto intro!: use_view_upd)
next
  case (deref c t r a x route')
  then have u: "m_upd s t = None" using request_of(6) [of s t r a x route'] by (cases "m_upd s t") auto
  moreover have "thr_ref (rq_view s t) = Some a" using deref u by (simp add: rq_view_def)
  ultimately show ?case
    using deref use_inv_deref [of "rq_view s" "m_route s" a route' t "Ended x"] by (simp add: rq_view_step fun_upd_def)
qed (auto intro!: use_view_upd simp: rq_view_same)

lemma use_inv_step:
  assumes "re_step ok_rq good s s'" "use_inv (rq_view s) (m_route s)" "upd_inv s"
  shows "use_inv (rq_view s') (m_route s')"
  using assms
proof (induction rule: re_step.induct)
  case (request s c)
  then show ?case using use_inv_request [OF request(1)] by simp
next
  case (register st a s mem num ps e route')
  then show ?case using refs_inv_register [of "held (rq_view s)" "m_route s"] by (auto simp: use_inv_def rq_view_same)
next
  case (unregister s name e route' w')
  then show ?case
    by (cases name) (auto simp: use_inv_def route_unregister_def rq_view_same intro: refs_inv_unregister1 refs_inv_unregister_all)
next
  case (update s t st k a)
  then have "m_upd s t = None" using request_of(1) [of s t] by (cases "m_upd s t") auto
  then have "rq_view (s\<lparr>m_conc := (m_conc s)\<lparr>c_thr := (m_thr s)(t := Routed (RGet k) a)\<rparr>, m_upd := (m_upd s)(t := Some st)\<rparr>) = rq_view s"
    using update(1) by (auto simp: rq_view_def fun_eq_iff)
  with update show ?case by simp
next
  case (update_serve s t st r a x w')
  then show ?case by (simp add: rq_view_step)
next
  case (update_end s t st r a x)
  then have "rq_view (s\<lparr>m_conc := (m_conc s)\<lparr>c_thr := (m_thr s)(t := Rest)\<rparr>, m_upd := (m_upd s)(t := None)\<rparr>) = rq_view s"
    by (auto simp: rq_view_def fun_eq_iff)
  with update_end show ?case by simp
qed

text \<open>What is removed is not in use; so a storage that is referred to stays where it is.\<close>

lemma unregister1_keeps:
  assumes "refs_inv R route" "route_unregister1 route n w = (e, route', w')" "i \<in> set route" "addr i \<in># R"
  shows "i \<in> set route'"
proof -
  have "nref i \<noteq> 0" using assms(1,3,4) by (auto simp: refs_inv_def)
  moreover have ok: "route_ok route" using assms(1) by (simp add: refs_inv_def)
  ultimately show ?thesis
    by (cases rule: unregister1_cases [OF ok, of n w]) (use assms route_ok_addr_inj [OF ok] in auto)
qed

lemma unregister_all_keeps:
  assumes "refs_inv R route" "i \<in> set route" "addr i \<in># R"
  shows "i \<in> set (fst (snd (route_unregister_all route w)))"
proof -
  have "nref i \<noteq> 0" using assms by (auto simp: refs_inv_def)
  then show ?thesis using assms(2) by (induction route) (auto simp: unregister_all_eq Let_def)
qed


section \<open>What the steps keep\<close>

lemma lock_inv_reconfig:
  assumes "re_step ok_rq good s s'" "lock_inv (m_conc s)"
  shows "lock_inv (m_conc s')"
  using assms
proof (induction rule: re_step.induct)
  case (request s c)
  then show ?case using lock_inv_step by simp
next
  case (update s t st k a)
  from linkedD [OF update(6), of t] update(1) have "pcs (c_nm (m_conc s)) t = Idle" by simp
  with update show ?case by (auto simp: lock_inv_def)
next
  case (update_serve s t st r a x w')
  from linkedD [OF update_serve(4), of t] update_serve(2) have "\<exists>m. pcs (c_nm (m_conc s)) t = Holding (rq_key r) m" by simp
  with update_serve show ?case by (auto simp: lock_inv_def)
next
  case (update_end s t st r a x)
  then show ?case by (auto simp: lock_inv_def)
qed (simp_all add: lock_inv_def)

text \<open>The storages of the table, in their order.\<close>

lemma match_storages: "map storage (snd (route_match ref route key)) = map storage route"
  by (induction route) (auto simp: case_prod_beta)

lemma deref_storages: "route_deref a route = Ret route' \<Longrightarrow> map storage route' = map storage route"
proof (induction route arbitrary: route')
  case (Cons i route)
  then show ?case by (cases "route_deref a route") (auto split: if_splits)
qed simp

lemma request_storages: "io_step ok_rq s s' \<Longrightarrow> map storage (c_route s') = map storage (c_route s)"
proof (induction rule: io_step.induct)
  case (matched s t r a route')
  then show ?case using match_storages [of True "c_route s" "rq_key r"] by simp
next
  case (unmatched s t r e route')
  then show ?case using match_storages [of True "c_route s" "rq_key r"] by simp
next
  case (deref s t r a x route')
  then show ?case by (simp add: deref_storages)
qed simp_all

lemma match_addrs: "map addr (snd (route_match ref route key)) = map addr route"
  by (induction route) (auto simp: case_prod_beta)

lemma deref_addrs: "route_deref a route = Ret route' \<Longrightarrow> map addr route' = map addr route"
proof (induction route arbitrary: route')
  case (Cons i route)
  then show ?case by (cases "route_deref a route") (auto split: if_splits)
qed simp

lemma request_addrs: "io_step ok_rq s s' \<Longrightarrow> map addr (c_route s') = map addr (c_route s)"
proof (induction rule: io_step.induct)
  case (matched s t r a route')
  then show ?case using match_addrs [of True "c_route s" "rq_key r"] by simp
next
  case (unmatched s t r e route')
  then show ?case using match_addrs [of True "c_route s" "rq_key r"] by simp
next
  case (deref s t r a x route')
  then show ?case by (simp add: deref_addrs)
qed simp_all

lemma request_same:
  assumes "io_step ok_rq s s'" "i \<in> set (c_route s)"
  shows "\<exists>j \<in> set (c_route s'). addr j = addr i \<and> storage j = storage i"
proof -
  from assms(2) obtain n where n: "n < length (c_route s)" "c_route s ! n = i" by (auto simp: in_set_conv_nth)
  have len: "length (c_route s') = length (c_route s)" using request_addrs [OF assms(1)] by (metis length_map)
  have "addr (c_route s' ! n) = addr i" "storage (c_route s' ! n) = storage i"
    using request_addrs [OF assms(1)] request_storages [OF assms(1)] n len by (metis nth_map)+
  with n(1) len show ?thesis by (metis nth_mem)
qed

text \<open>A thread stays in its update until the end of it.\<close>

lemma upd_inv_upd:
  assumes "c_thr c = (m_thr s)(t := p)" "map addr (c_route c) = map addr (m_route s)" "upd_inv s"
    and "m_upd s t \<noteq> None \<Longrightarrow> thr_ref p = thr_ref (m_thr s t) \<and> thr_rq p = thr_rq (m_thr s t)"
  shows "upd_inv (s\<lparr>m_conc := c\<rparr>)"
proof -
  have "addr ` set (c_route c) = addr ` set (m_route s)" using assms(2) by (metis set_map)
  with assms(1,3,4) show ?thesis by (force simp: upd_inv_def)
qed

lemma upd_inv_same:
  assumes "c_thr c = m_thr s" "map addr (c_route c) = map addr (m_route s)" "upd_inv s"
  shows "upd_inv (s\<lparr>m_conc := c\<rparr>)"
proof -
  have "addr ` set (c_route c) = addr ` set (m_route s)" using assms(2) by (metis set_map)
  with assms(1,3) show ?thesis by (simp add: upd_inv_def)
qed

lemma upd_inv_request:
  assumes "io_step ok_rq c c'" "m_conc s = c" "upd_inv s"
  shows "upd_inv (s\<lparr>m_conc := c'\<rparr>)"
proof -
  have addrs: "map addr (c_route c') = map addr (m_route s)" using request_addrs [OF assms(1)] assms(2) by simp
  show ?thesis
    using assms addrs
  proof (induction rule: io_step.induct)
    case (matched c t r a route')
    then show ?case using request_of(3) [of s t r] by (intro upd_inv_upd [where t = t and p = "Routed r a"]) auto
  next
    case (unmatched c t r e route')
    then show ?case using request_of(3) [of s t r] by (intro upd_inv_upd [where t = t and p = "Ended (rq_error r e)"]) auto
  next
    case (deref c t r a x route')
    then show ?case using request_of(6) [of s t r a x route'] by (intro upd_inv_upd [where t = t and p = "Ended x"]) auto
  next
    case (started c t r)
    then show ?case using request_of(1) [of s t] by (intro upd_inv_upd [where t = t and p = "Begun r"]) auto
  next
    case (skip c t r)
    then show ?case using request_of(2) [of s t r] by (intro upd_inv_upd [where t = t and p = "Matching r"]) auto
  next
    case (miss c t k ch mem now c')
    then show ?case using request_of(2) [of s t "RGet k"] by (intro upd_inv_upd [where t = t and p = "Matching (RGet k)"]) auto
  next
    case (hit c t k ch mem now x c')
    then show ?case using request_of(2) [of s t "RGet k"] by (intro upd_inv_upd [where t = t and p = "Ended (Got x)"]) auto
  next
    case (finish c t x)
    then show ?case using request_of(4) [of s t x] by (intro upd_inv_upd [where t = t and p = "Rest"]) auto
  next
    case (enter c t r a b mem m ns')
    then show ?case by (intro upd_inv_upd [where t = t and p = "Locking r a"]) auto
  next
    case (enter_nomem c t r a mem b e ns')
    then show ?case by (intro upd_inv_upd [where t = t and p = "Leaving r a (rq_error r e)"]) auto
  next
    case (acquire c t r a k m ns')
    then show ?case by (intro upd_inv_upd [where t = t and p = "Locked r a"]) auto
  next
    case (serve c t r a st x w')
    then show ?case by (intro upd_inv_upd [where t = t and p = "Served r a x"]) auto
  next
    case (cache c t r a x env cache')
    then show ?case by (intro upd_inv_upd [where t = t and p = "Leaving r a x"]) auto
  qed (auto intro!: upd_inv_same)
qed

text \<open>A cache whose items have values.\<close>

definition filled :: "cache option \<Rightarrow> bool" where
  "filled cache \<longleftrightarrow> (case cache of None \<Rightarrow> True | Some c \<Rightarrow> cache_inv c) \<and>
     (\<forall>c k i. cache = Some c \<longrightarrow> item_at c k = Some i \<longrightarrow> (\<exists>v. cvalue i = Some v \<and> value_ok v))"

lemma filled_rq:
  assumes f: "filled cache" and env: "env_ok env" and v: "\<And>v. stores r x = Some (Some v) \<Longrightarrow> value_ok v"
  shows "\<exists>cache'. rq_cache env r x cache = Ret cache' \<and> filled cache'"
proof -
  have inv: "case cache of None \<Rightarrow> True | Some c \<Rightarrow> cache_inv c" using f by (simp add: filled_def)
  from rq_cache_items [OF inv env v] obtain cache' where
    set: "rq_cache env r x cache = Ret cache'" "case cache' of None \<Rightarrow> True | Some c \<Rightarrow> cache_inv c"
    and items: "\<forall>c'. cache' = Some c' \<longrightarrow> (\<exists>c. cache = Some c \<and>
       (\<forall>j. j \<noteq> rq_key r \<or> stores r x = None \<longrightarrow> item_at c' j = item_at c j) \<and>
       (\<forall>b. stores r x = Some b \<longrightarrow> map_option cvalue (item_at c' (rq_key r)) = map_option Some b))" by blast
  have "\<exists>v. cvalue i = Some v \<and> value_ok v" if c': "cache' = Some c'" and i: "item_at c' k = Some i" for c' k i
  proof -
    from items c' obtain c where c: "cache = Some c"
      "\<forall>j. j \<noteq> rq_key r \<or> stores r x = None \<longrightarrow> item_at c' j = item_at c j"
      "\<forall>b. stores r x = Some b \<longrightarrow> map_option cvalue (item_at c' (rq_key r)) = map_option Some b" by blast
    show ?thesis
    proof (cases "k \<noteq> rq_key r \<or> stores r x = None")
      case True
      with c(1,2) i f show ?thesis unfolding filled_def by metis
    next
      case False
      then obtain b where b: "stores r x = Some b" "k = rq_key r" by auto
      with c(3) i v show ?thesis by (cases b) auto
    qed
  qed
  with set show ?thesis unfolding filled_def by blast
qed

lemma filled_get: "filled (Some c) \<Longrightarrow> cache_get mem now c k = Ret (y, c') \<Longrightarrow> filled (Some c')"
  using cache_get_state [of mem now c k y c'] by (simp add: filled_def)

lemma filled_clean:
  assumes "filled (Some c)" "cache_cleaner noticed now1 now2 (c, lst) = (c', lst')"
  shows "filled (Some c')"
proof -
  have inv: "cache_inv c" using assms(1) by (simp add: filled_def)
  note item = cache_cleaner_item [OF inv, of noticed now1 now2 lst, unfolded assms(2) fst_conv snd_conv]
  have "item_at c' k = Some i \<Longrightarrow> item_at c k = Some i" for k i using item(3) by (auto split: option.splits if_splits)
  with assms(1) item(1) show ?thesis unfolding filled_def by fastforce
qed

lemma filled_no_UB: "filled (Some c) \<Longrightarrow> cache_get mem now c k \<noteq> UB"
proof (cases "item_at c k")
  case (Some it)
  moreover assume "filled (Some c)"
  ultimately obtain v where "cvalue it = Some v" unfolding filled_def by blast
  with Some show ?thesis by (auto simp: cache_get_def item_at_def Let_def split: option.split)
qed (simp add: cache_get_def item_at_def)

lemma storage_at_addr: "route_ok route \<Longrightarrow> i \<in> set route \<Longrightarrow> storage_at (addr i) route = Ret (storage i)"
  using storage_at_bump [of route i 0 0] by (simp add: bump_def map_idI)

text \<open>
  No thread is about to do something undefined: for a request as in \<open>Io_Interleaved\<close>, for an update likewise
  with the storage it was given.
\<close>

definition re_safe :: "'w reconf \<Rightarrow> nat \<Rightarrow> bool" where
  "re_safe s t \<longleftrightarrow> (case m_upd s t of
     None \<Rightarrow> thr_safe (m_conc s) t
   | Some st \<Rightarrow>
       (case m_thr s t of
          Routed r a \<Rightarrow> True
        | Locking r a \<Rightarrow> (\<exists>m. pcs (c_nm (m_conc s)) t = Waiting (rq_key r) m \<and> mutex_lock t (rq_key r) m (ns (c_nm (m_conc s))) \<noteq> UB)
        | Locked r a \<Rightarrow> rq_serve r st (c_world (m_conc s)) \<noteq> UB
        | Served r a x \<Rightarrow> (\<forall>env. env_ok env \<longrightarrow> rq_cache env r x (c_cache (m_conc s)) \<noteq> UB)
        | Leaving r a x \<Rightarrow> (case pcs (c_nm (m_conc s)) t of
              Idle \<Rightarrow> True
            | Waiting k m \<Rightarrow> False
            | Holding k m \<Rightarrow> unlock_find k (ns (c_nm (m_conc s))) = Some m
            | Found k m \<Rightarrow> mutex_unlock k m (ns (c_nm (m_conc s))) \<noteq> UB
            | Released k m \<Rightarrow> unlock_deref k m (ns (c_nm (m_conc s))) \<noteq> UB)
        | _ \<Rightarrow> False))"

section \<open>Storages that return\<close>

locale any_storages =
  fixes good :: "'w storage_ctx \<Rightarrow> bool" and ok :: "'w \<Rightarrow> bool" and keys :: "string \<Rightarrow> bool" and vals :: "value_t \<Rightarrow> bool"
  assumes serves_any: "good st \<Longrightarrow> ok w \<Longrightarrow> admissible keys vals r \<Longrightarrow>
      \<exists>x w'. rq_serve r st w = Ret (x, w') \<and> ok w' \<and> (\<forall>v. stores r x = Some (Some v) \<longrightarrow> value_ok v)"
    and destroys_any: "good st \<Longrightarrow> ok w \<Longrightarrow> ok (storage_destructor st w)"
begin

definition safe_inv :: "'w reconf \<Rightarrow> bool" where
  "safe_inv s \<longleftrightarrow> lock_inv (m_conc s) \<and> use_inv (rq_view s) (m_route s) \<and> upd_inv s \<and>
     (\<forall>st \<in> set (map storage (m_route s)). good st) \<and> (\<forall>t st. m_upd s t = Some st \<longrightarrow> good st) \<and>
     (\<forall>t r. thr_rq (m_thr s t) = Some r \<longrightarrow> admissible keys vals r) \<and> ok (c_world (m_conc s)) \<and> filled (c_cache (m_conc s)) \<and>
     (\<forall>t r a x v. m_thr s t = Served r a x \<longrightarrow> stores r x = Some (Some v) \<longrightarrow> value_ok v)"

lemma safe_invD:
  assumes "safe_inv s"
  shows "lock_inv (m_conc s)" "use_inv (rq_view s) (m_route s)" "upd_inv s" "i \<in> set (m_route s) \<Longrightarrow> good (storage i)"
    "m_upd s t = Some st \<Longrightarrow> good st" "thr_rq (m_thr s t) = Some r \<Longrightarrow> admissible keys vals r" "ok (c_world (m_conc s))"
    "filled (c_cache (m_conc s))" "m_thr s t = Served r a x \<Longrightarrow> stores r x = Some (Some v) \<Longrightarrow> value_ok v"
  using assms by (auto simp: safe_inv_def)

lemma unregister_ok:
  assumes "\<forall>i \<in> set route. good (storage i)" "ok w" "route_unregister route name w = (e, route', w')"
  shows "set route' \<subseteq> set route \<and> ok w'"
proof (cases name)
  case (Some n)
  have "set (list_remove a route) \<subseteq> set route" for a by (induction route) auto
  with Some assms destroys_any show ?thesis
    by (auto simp: route_unregister_def route_unregister1_def route_item_destroy_def dest!: find_in_set split: option.splits if_splits)
next
  case None
  have "ok (fold route_item_destroy xs w)" if "\<forall>i \<in> set xs. good (storage i)" for xs
    using that assms(2) by (induction xs arbitrary: w) (auto simp: route_item_destroy_def destroys_any)
  with None assms show ?thesis
    by (auto simp: route_unregister_def unregister_all_eq Let_def dest: set_takeWhileD set_dropWhileD)
qed

text \<open>The storage that a request refers to.\<close>

lemma stored_at:
  assumes "safe_inv s" "m_upd s t = None" "thr_ref (m_thr s t) = Some a"
  obtains i where "i \<in> set (m_route s)" "addr i = a" "storage_at a (m_route s) = Ret (storage i)" "good (storage i)"
    "a \<in># held (rq_view s)" "nref i \<noteq> 0"
proof -
  from safe_invD(2) [OF assms(1)] have u: "finite (busy (rq_view s))" "refs_inv (held (rq_view s)) (m_route s)" by (simp_all add: use_inv_def)
  have "thr_ref (rq_view s t) = Some a" using assms(2,3) by (simp add: rq_view_def)
  then have a: "a \<in># held (rq_view s)" by (rule held_in [OF u(1)])
  with u(2) obtain i where i: "i \<in> set (m_route s)" "addr i = a" by (auto simp: refs_inv_def)
  moreover have "route_ok (m_route s)" using u(2) by (simp add: refs_inv_def)
  ultimately have "storage_at a (m_route s) = Ret (storage i)" using storage_at_addr by blast
  moreover have "good (storage i)" by (rule safe_invD(4) [OF assms(1) i(1)])
  moreover have "nref i \<noteq> 0" using u(2) a i by (auto simp: refs_inv_def)
  ultimately show thesis using i a that by blast
qed

definition data_ok :: "'w conc \<Rightarrow> bool" where
  "data_ok c \<longleftrightarrow> (\<forall>t r. thr_rq (c_thr c t) = Some r \<longrightarrow> admissible keys vals r) \<and> ok (c_world c) \<and> filled (c_cache c) \<and>
     (\<forall>t r a x v. c_thr c t = Served r a x \<longrightarrow> stores r x = Some (Some v) \<longrightarrow> value_ok v)"

lemma safe_data: "safe_inv s \<Longrightarrow> data_ok (m_conc s)"
  by (simp add: safe_inv_def data_ok_def)

lemma data_request:
  assumes "io_step (admissible keys vals) c c'" "data_ok c"
    and "\<And>t r a st. c_thr c t = Locked r a \<Longrightarrow> storage_at a (c_route c) = Ret st \<Longrightarrow> good st"
  shows "data_ok c'"
  using assms
proof (induction rule: io_step.induct)
  case (serve c t r a st x w')
  have "good st" by (rule serve(5) [OF serve(1,2)])
  moreover have "ok (c_world c)" "admissible keys vals r" using serve(1,4) by (auto simp: data_ok_def dest!: spec [of _ t])
  ultimately have "ok w'" "\<forall>v. stores r x = Some (Some v) \<longrightarrow> value_ok v"
    using serves_any [of st "c_world c" r] serve(3) by auto
  with serve(4) \<open>admissible keys vals r\<close> show ?case by (auto simp: data_ok_def)
next
  case (cache c t r a x env cache')
  from cache(1,4) have "\<And>v. stores r x = Some (Some v) \<Longrightarrow> value_ok v" "filled (c_cache c)" by (auto simp: data_ok_def)
  from filled_rq [where r = r and x = x, OF this(2) cache(2) this(1)] cache(3) have "filled cache'" by auto
  moreover have "admissible keys vals r" using cache(1,4) by (auto simp: data_ok_def dest!: spec [of _ t])
  ultimately show ?case using cache(4) by (auto simp: data_ok_def)
next
  case (clean c d noticed now1 now2 lst d' lst')
  then show ?case using filled_clean by (auto simp: data_ok_def)
next
  case (miss c t k d mem now d')
  then have "filled (Some d')" using filled_get [of d mem now k] by (simp add: data_ok_def)
  with miss show ?case by (auto simp: data_ok_def dest: spec [of _ t])
next
  case (hit c t k d mem now x d')
  then have "filled (Some d')" using filled_get [of d mem now k] by (simp add: data_ok_def)
  with hit show ?case by (auto simp: data_ok_def)
qed (auto simp: data_ok_def, (metis thr_rq.simps)+)

text \<open>Addresses of updates stay apart from those of the table.\<close>

lemma upd_inv_route:
  assumes "upd_inv s" "\<And>t a. m_upd s t \<noteq> None \<Longrightarrow> thr_ref (m_thr s t) = Some a \<Longrightarrow> a \<notin> addr ` set (m_route s) \<Longrightarrow> a \<notin> addr ` set (c_route c)"
    and "c_thr c = m_thr s"
  shows "upd_inv (s\<lparr>m_conc := c\<rparr>)"
  unfolding upd_inv_def
proof (intro allI impI)
  fix t st
  assume "m_upd (s\<lparr>m_conc := c\<rparr>) t = Some st"
  then have m: "m_upd s t = Some st" by simp
  obtain a k where "thr_ref (m_thr s t) = Some a" "a \<notin> addr ` set (m_route s)" "thr_rq (m_thr s t) = Some (RGet k)" by (rule upd_invE [OF assms(1) m])
  with assms(2) [of t a] assms(3) m show "\<exists>a k. thr_ref (m_thr (s\<lparr>m_conc := c\<rparr>) t) = Some a \<and> a \<notin> addr ` set (m_route (s\<lparr>m_conc := c\<rparr>)) \<and>
      thr_rq (m_thr (s\<lparr>m_conc := c\<rparr>) t) = Some (RGet k)" by simp
qed

lemma upd_inv_step:
  assumes "re_step (admissible keys vals) good s s'" "safe_inv s"
  shows "upd_inv s'"
  using assms
proof (induction rule: re_step.induct)
  case (request s c)
  then show ?case using upd_inv_request [OF request(1) refl] by (simp add: safe_inv_def)
next
  case (register st a s mem num ps e route')
  have "b \<notin> addr ` set route'" if "m_upd s t \<noteq> None" "thr_ref (m_thr s t) = Some b" "b \<notin> addr ` set (m_route s)" for t b
    using register(4)
  proof (cases rule: route_register_cases)
    case (added qs)
    with that register(3) show ?thesis by auto
  qed (use that in simp)
  then show ?case by (intro upd_inv_route safe_invD(3) [OF register(5)]) auto
next
  case (unregister s name e route' w')
  have "\<forall>i \<in> set (m_route s). good (storage i)" using safe_invD(4) [OF unregister(2)] by blast
  with unregister_ok [OF _ safe_invD(7) [OF unregister(2)] unregister(1)] have "set route' \<subseteq> set (m_route s)" by blast
  then show ?case by (intro upd_inv_route safe_invD(3) [OF unregister(2)]) auto
next
  case (update s t st k a)
  with safe_invD(3) [OF update(6)] show ?case by (auto simp: upd_inv_def)
next
  case (update_serve s t st r a x w')
  with safe_invD(3) [OF update_serve(4)] show ?case by (intro upd_inv_upd [where t = t and p = "Served r a x"]) auto
next
  case (update_end s t st r a x)
  with safe_invD(3) [OF update_end(4)] show ?case by (auto simp: upd_inv_def)
qed

lemma safe_inv_step:
  assumes step: "re_step (admissible keys vals) good s s'" and inv: "safe_inv s"
  shows "safe_inv s'"
proof -
  note lock = lock_inv_reconfig [OF step safe_invD(1) [OF inv]] and use = use_inv_step [OF step safe_invD(2,3) [OF inv]]
    and upd = upd_inv_step [OF step inv]
  have "(\<forall>st \<in> set (map storage (m_route s')). good st) \<and> (\<forall>t st. m_upd s' t = Some st \<longrightarrow> good st) \<and> data_ok (m_conc s')"
    using step inv
  proof (induction rule: re_step.induct)
    case (request s c)
    note D = safe_invD [OF request(2)]
    have "good st" if "m_thr s t = Locked r a" "storage_at a (m_route s) = Ret st" for t r a st
    proof -
      have "m_upd s t = None" using request_of(5) [OF D(3), of t r a st] that by (cases "m_upd s t") auto
      from stored_at [OF request(2) this, of a] that show ?thesis by auto
    qed
    from data_request [OF request(1) safe_data [OF request(2)] this] request_storages [OF request(1)] request(2)
    show ?case by (simp add: safe_inv_def)
  next
    case (register st a s mem num ps e route')
    from register(4) safe_data [OF register(5)] show ?case
      by (cases rule: route_register_cases) (use register in \<open>auto simp: safe_inv_def data_ok_def\<close>)
  next
    case (unregister s name e route' w')
    note D = safe_invD [OF unregister(2)]
    have "\<forall>i \<in> set (m_route s). good (storage i)" using D(4) by blast
    from unregister_ok [OF this D(7) unregister(1)] unregister(2) show ?case by (auto simp: safe_inv_def data_ok_def)
  next
    case (update s t st k a)
    with safe_data [OF update(6)] show ?case by (auto simp: safe_inv_def data_ok_def)
  next
    case (update_serve s t st r a x w')
    note D = safe_invD [OF update_serve(4)]
    have "admissible keys vals r" using D(6) [of t r] update_serve(2) by simp
    with serves_any [OF D(5) [OF update_serve(1)] D(7) this] update_serve(2,3) safe_data [OF update_serve(4)] update_serve(4)
    show ?case by (auto simp: safe_inv_def data_ok_def)
  next
    case (update_end s t st r a x)
    with safe_data [OF update_end(4)] show ?case by (auto simp: safe_inv_def data_ok_def)
  qed
  with lock use upd show ?thesis by (simp add: safe_inv_def data_ok_def)
qed

lemma safe_inv_safe:
  assumes inv: "safe_inv s"
  shows "re_safe s t"
proof -
  note D = safe_invD [OF inv]
  from D(1) have nm: "nm_inv (c_nm (m_conc s))" by (simp add: lock_inv_def)
  note link = linkedD [OF D(1), of t] and mutex = nm_safe [OF nm, of t]
  have cache: "rq_cache env r x (c_cache (m_conc s)) \<noteq> UB" if "m_thr s t = Served r a x" "env_ok env" for r a x env
    using filled_rq [OF D(8) that(2), of r x] D(9) [OF that(1)] by fastforce
  show ?thesis
  proof (cases "m_upd s t")
    case None
    show ?thesis
    proof (cases "m_thr s t")
      case (Begun r)
      with D(8) None show ?thesis by (auto simp: re_safe_def thr_safe_def filled_no_UB)
    next
      case (Locking r a)
      with link mutex None show ?thesis by (auto simp: re_safe_def thr_safe_def)
    next
      case (Locked r a)
      then have "thr_ref (m_thr s t) = Some a" by simp
      then obtain i :: "'w route_item" where i: "storage_at a (m_route s) = Ret (storage i)" "good (storage i)" by (rule stored_at [OF inv None])
      have "admissible keys vals r" using D(6) [of t r] Locked by simp
      from serves_any [OF i(2) D(7) this] i(1) Locked None show ?thesis by (auto simp: re_safe_def thr_safe_def)
    next
      case (Served r a x)
      with cache None show ?thesis by (simp add: re_safe_def thr_safe_def)
    next
      case (Leaving r a x)
      obtain i where "i \<in> set (m_route s)" "addr i = a" using stored_at [OF inv None, of a] Leaving by auto
      moreover have "distinct (map addr (m_route s))" using D(2) by (simp add: use_inv_def refs_inv_def route_ok_def)
      ultimately have "route_deref a (m_route s) \<noteq> UB" using route_deref_eq by fastforce
      with Leaving link mutex None show ?thesis by (auto simp: re_safe_def thr_safe_def)
    qed (use None in \<open>simp_all add: re_safe_def thr_safe_def\<close>)
  next
    case (Some st)
    obtain a k where u: "thr_ref (m_thr s t) = Some a" "thr_rq (m_thr s t) = Some (RGet k)" by (rule upd_invE [OF D(3) Some])
    show ?thesis
    proof (cases "m_thr s t")
      case (Locking r b)
      with link mutex Some show ?thesis by (auto simp: re_safe_def)
    next
      case (Locked r b)
      have "admissible keys vals r" using D(6) [of t r] Locked by simp
      from serves_any [OF D(5) [OF Some] D(7) this] Locked Some show ?thesis by (auto simp: re_safe_def)
    next
      case (Served r b x)
      with cache Some show ?thesis by (simp add: re_safe_def)
    next
      case (Leaving r b x)
      with link mutex Some show ?thesis by (auto simp: re_safe_def)
    qed (use u Some in \<open>simp_all add: re_safe_def\<close>)
  qed
qed

lemma safe_inv_init:
  assumes "nmtx_ns io = Null" "route_ok (ioroute io)" "\<forall>i \<in> set (ioroute io). nref i = 0 \<and> good (storage i)"
    "ok (ioworld io)" "filled (iocache io)"
  shows "safe_inv (reconf_init io)"
proof -
  have "nm_inv \<lparr>ns = Null, pcs = \<lambda>_. Idle\<rparr>" using nm_inv_init by (simp add: nm_init_def)
  moreover have "rq_view (reconf_init io) = (\<lambda>_. Rest)" by (simp add: rq_view_def reconf_init_def conc_init_def fun_eq_iff)
  ultimately show ?thesis
    using assms by (simp add: safe_inv_def reconf_init_def conc_init_def lock_inv_def use_inv_def upd_inv_def busy_def held_def refs_inv_def)
qed

lemma safe_inv_reach:
  assumes "(re_step (admissible keys vals) good)\<^sup>*\<^sup>* s s'" "safe_inv s"
  shows "safe_inv s'"
  using assms by (induction rule: rtranclp_induct) (auto intro: safe_inv_step)

text \<open>A request's storage is where it was as long as the request refers to it.\<close>

lemma reference_stable:
  assumes inv: "safe_inv s" and step: "re_step (admissible keys vals) good s s'" and t: "m_upd s t = None"
    and a: "thr_ref (m_thr s t) = Some a"
  shows "storage_at a (m_route s') = storage_at a (m_route s)"
proof -
  from a obtain i where i: "i \<in> set (m_route s)" "addr i = a" "storage_at a (m_route s) = Ret (storage i)" "a \<in># held (rq_view s)"
    by (rule stored_at [OF inv t])
  have "safe_inv s'" by (rule safe_inv_step [OF step inv])
  then have ok': "route_ok (m_route s')" by (simp add: safe_inv_def use_inv_def refs_inv_def)
  have refs: "refs_inv (held (rq_view s)) (m_route s)" using inv by (simp add: safe_inv_def use_inv_def)
  have "\<exists>j \<in> set (m_route s'). addr j = a \<and> storage j = storage i"
    using step i(1,2,4) refs
  proof (induction rule: re_step.induct)
    case (request s c)
    then show ?case using request_same [OF request(1)] by auto
  next
    case (register st b s mem num ps e route')
    from register(4) show ?case by (cases rule: route_register_cases) (use register in auto)
  next
    case (unregister s name e route' w')
    show ?case
    proof (cases name)
      case None
      with unregister unregister_all_keeps [of "held (rq_view s)" "m_route s" i "c_world (m_conc s)"] show ?thesis by (auto simp: route_unregister_def)
    next
      case (Some n)
      with unregister unregister1_keeps [of "held (rq_view s)" "m_route s" n "c_world (m_conc s)" e route' w' i]
      show ?thesis by (auto simp: route_unregister_def)
    qed
  qed auto
  then obtain j where "j \<in> set (m_route s')" "addr j = a" "storage j = storage i" by blast
  with storage_at_addr [OF ok'] i(3) show ?thesis by auto
qed

end

section \<open>File and null storages are such storages\<close>

lemma prefix_match_self: "prefix_match k k"
  by (induction k) auto

lemma kv_storage_serves:
  assumes "kv_storage st ok contents keys vals" "ok w" "admissible keys vals r"
  shows "\<exists>x w'. rq_serve r st w = Ret (x, w') \<and> ok w' \<and> (\<forall>v. stores r x = Some (Some v) \<longrightarrow> value_ok v)"
proof -
  let ?i = "\<lparr>addr = 0, storage = st, prefix = [rq_key r], nref = 0\<rparr>"
  have backend: "io_backend [?i] ok contents keys vals" by (rule kv_storage_backend) (simp add: assms(1))
  have i: "List.find (serves (rq_key r)) [?i] = Some ?i" by (simp add: serves_def prefix_match_self)
  from io_backend.serve_law [OF backend assms(3) i assms(2)] obtain x w' where
    x: "rq_serve r st w = Ret (x, w')" "ok w'" "\<forall>b. stores r x = Some b \<longrightarrow> contents w' (rq_key r) = b" by auto
  then show ?thesis using io_backend.stores_value_ok [OF backend assms(3) i x(2)] by auto
qed

lemma null_serves:
  assumes "constructor_null True name = Inr st" "admissible keys vals r" "\<And>v. vals v \<Longrightarrow> value_wf v"
  shows "\<exists>x. rq_serve r st w = Ret (x, w) \<and> (\<forall>v. stores r x = Some (Some v) \<longrightarrow> value_ok v)"
  using assms
  by (cases r) (auto simp: constructor_null_def storage_get_def storage_set_def storage_del_def null_set_def null_del_def log_value_wf value_wf_def)

text \<open>The file storages of a directory, under any names, and null storages.\<close>

definition file_or_null :: "string \<Rightarrow> fs storage_ctx \<Rightarrow> bool" where
  "file_or_null dir st \<longleftrightarrow> (\<exists>name. st = file_storage name dir \<or> constructor_null True name = Inr st)"

interpretation fns: any_storages "file_or_null dir" "file_good dir" "file_keys dir" file_vals
proof
  fix st w r
  assume "file_or_null dir st" "file_good dir w" "admissible (file_keys dir) file_vals r"
  then show "\<exists>x w'. rq_serve r st w = Ret (x, w') \<and> file_good dir w' \<and> (\<forall>v. stores r x = Some (Some v) \<longrightarrow> value_ok v)"
    using kv_storage_serves [OF fst.kv_storage_axioms, of dir w r] null_serves [of _ st "file_keys dir" file_vals r w]
    by (auto simp: file_or_null_def file_vals_def) blast
next
  fix st and w :: fs
  assume "file_or_null dir st" "file_good dir w"
  then show "file_good dir (storage_destructor st w)"
    by (auto simp: file_or_null_def storage_destructor_def file_storage_def constructor_null_def)
qed


section \<open>Properties\<close>

text \<open>
  C5: Requests and reconfiguration together, as long as the daemon is not stopped and there is memory for
  copies in the cache. From a daemon at rest, whatever the interleaving of the pieces of requests and of
  updates of the cache with turns of the cleaner and with registrations and unregistrations of storages: no
  thread is about to do anything undefined; the count of a route item is the number of requests that refer
  to it; a storage a request refers to is there, is the same until the request gives it up, and
  unregistering it is refused with \<open>EBUSY\<close>; and when all threads are at rest no named mutex is left and all
  storages can be unregistered.
\<close>

theorem reconfigured_safe:
  assumes "any_storages good ok keys vals"
    and "nmtx_ns io = Null" "route_ok (ioroute io)" "\<forall>i \<in> set (ioroute io). nref i = 0 \<and> good (storage i)"
    and "ok (ioworld io)" "filled (iocache io)"
    and reach: "(re_step (admissible keys vals) good)\<^sup>*\<^sup>* (reconf_init io) s"
  shows "re_safe s t \<and> (\<forall>i \<in> set (m_route s). nref i = int (card {u. m_upd s u = None \<and> thr_ref (m_thr s u) = Some (addr i)})) \<and>
    (m_upd s t = None \<longrightarrow> thr_ref (m_thr s t) = Some a \<longrightarrow>
       (\<exists>i \<in> set (m_route s). addr i = a \<and> storage_at a (m_route s) = Ret (storage i) \<and>
          route_unregister (m_route s) (Some (rname i)) w = (Some EBUSY, m_route s, w)) \<and>
       (\<forall>s'. re_step (admissible keys vals) good s s' \<longrightarrow> storage_at a (m_route s') = storage_at a (m_route s))) \<and>
    ((\<forall>u. m_thr s u = Rest) \<longrightarrow> ns (c_nm (m_conc s)) = Null \<and> (\<exists>w'. route_unregister (m_route s) None w = (None, [], w')))"
proof (intro conjI impI)
  have inv: "any_storages.safe_inv good ok keys vals s"
    by (rule any_storages.safe_inv_reach [OF assms(1) reach any_storages.safe_inv_init [OF assms(1-6)]])
  note D = any_storages.safe_invD [OF assms(1) inv]
  have fin: "finite (busy (rq_view s))" and refs: "refs_inv (held (rq_view s)) (m_route s)"
    using D(2) by (simp_all add: use_inv_def)
  show "re_safe s t" by (rule any_storages.safe_inv_safe [OF assms(1) inv])
  have users: "uses (rq_view s) b = {u. m_upd s u = None \<and> thr_ref (m_thr s u) = Some b}" for b
    by (auto simp: uses_def rq_view_def)
  show count: "\<forall>i \<in> set (m_route s). nref i = int (card {u. m_upd s u = None \<and> thr_ref (m_thr s u) = Some (addr i)})"
    using refs count_held [OF fin] by (simp add: refs_inv_def users)
  show "\<exists>i \<in> set (m_route s). addr i = a \<and> storage_at a (m_route s) = Ret (storage i) \<and>
      route_unregister (m_route s) (Some (rname i)) w = (Some EBUSY, m_route s, w)"
    if a: "m_upd s t = None" "thr_ref (m_thr s t) = Some a"
  proof -
    from a(2) obtain i where i: "i \<in> set (m_route s)" "addr i = a" "storage_at a (m_route s) = Ret (storage i)" "nref i \<noteq> 0"
      by (rule any_storages.stored_at [OF assms(1) inv a(1)])
    have "route_ok (m_route s)" using refs by (simp add: refs_inv_def)
    with i have "List.find (\<lambda>j. strcmp (rname j) (rname i) = 0) (m_route s) = Some i" by (simp only: find_name)
    with i show ?thesis by (auto simp: route_unregister_def route_unregister1_def)
  qed
  show "\<forall>s'. re_step (admissible keys vals) good s s' \<longrightarrow> storage_at a (m_route s') = storage_at a (m_route s)"
    if "m_upd s t = None" "thr_ref (m_thr s t) = Some a"
    using any_storages.reference_stable [OF assms(1) inv _ that] by blast
  assume rest: "\<forall>u. m_thr s u = Rest"
  then have "\<forall>t. pcs (c_nm (m_conc s)) t = Idle" using linkedD [OF D(1)] by simp
  then show "ns (c_nm (m_conc s)) = Null" using D(1) by (auto simp: lock_inv_def intro: nm_empty)
  have "\<forall>i \<in> set (m_route s). nref i = 0" using count rest by simp
  then have "dropWhile (\<lambda>i. nref i = 0) (m_route s) = []" by (simp add: dropWhile_eq_Nil_conv)
  then show "\<exists>w'. route_unregister (m_route s) None w = (None, [], w')" by (simp add: route_unregister_def unregister_all_eq Let_def)
qed

text \<open>An update goes on unless it waits for its key.\<close>

lemma update_moves:
  assumes safe: "re_safe s t" and u: "m_upd s t = Some st"
    and free: "\<And>r a m. m_thr s t = Locking r a \<Longrightarrow> mutex_lock t (rq_key r) m (ns (c_nm (m_conc s))) \<noteq> Ret None"
  shows "\<exists>s'. re_step ok_rq good s s' \<and> moved (m_conc s) (m_conc s') t"
proof -
  have step: "\<exists>s'. re_step ok_rq good s s' \<and> moved (m_conc s) (m_conc s') t" if "\<exists>c. io_step ok_rq (m_conc s) c \<and> moved (m_conc s) c t"
    using that re_step.request by fastforce
  show ?thesis
  proof (cases "m_thr s t")
    case (Routed r a)
    from step [OF moves_routed [OF Routed]] show ?thesis .
  next
    case (Locking r a)
    with safe u obtain m where m: "pcs (c_nm (m_conc s)) t = Waiting (rq_key r) m" "mutex_lock t (rq_key r) m (ns (c_nm (m_conc s))) \<noteq> UB"
      by (auto simp: re_safe_def)
    with free [OF Locking, of m] obtain ns' where "mutex_lock t (rq_key r) m (ns (c_nm (m_conc s))) = Ret (Some ns')"
      by (cases "mutex_lock t (rq_key r) m (ns (c_nm (m_conc s)))") auto
    from io_step.acquire [OF Locking m(1) this] Locking show ?thesis by (intro step) (fastforce simp: moved_def)
  next
    case (Locked r a)
    with safe u obtain x w' where "rq_serve r st (c_world (m_conc s)) = Ret (x, w')"
      by (cases "rq_serve r st (c_world (m_conc s))") (auto simp: re_safe_def)
    from re_step.update_serve [OF u Locked this] Locked show ?thesis by (intro exI conjI) (auto simp: moved_def)
  next
    case (Served r a x)
    have env: "env_ok \<lparr>e_thread = t, e_now = 0, e_get_mem = True, e_lock_mem = mem_ok, e_lock_addr = 0, e_set_mem = mem_ok,
      e_now1 = 0, e_now2 = 0\<rparr>" (is "env_ok ?env") by (simp add: env_ok_def)
    with safe u Served obtain cache' where "rq_cache ?env r x (c_cache (m_conc s)) = Ret cache'"
      by (cases "rq_cache ?env r x (c_cache (m_conc s))") (auto simp: re_safe_def)
    from io_step.cache [OF Served env this] Served show ?thesis by (intro step) (fastforce simp: moved_def)
  next
    case (Leaving r a x)
    show ?thesis
    proof (cases "pcs (c_nm (m_conc s)) t")
      case Idle
      from re_step.update_end [OF u Leaving Idle] Leaving show ?thesis by (intro exI conjI) (auto simp: moved_def)
    next
      case (Holding k m)
      with safe u Leaving have "unlock_find k (ns (c_nm (m_conc s))) = Some m" by (simp add: re_safe_def)
      from io_step.find [OF Leaving Holding this] Holding show ?thesis by (intro step) (fastforce simp: moved_def)
    next
      case (Found k m)
      with safe u Leaving obtain ns' where "mutex_unlock k m (ns (c_nm (m_conc s))) = Ret ns'"
        by (cases "mutex_unlock k m (ns (c_nm (m_conc s)))") (auto simp: re_safe_def)
      from io_step.release [OF Leaving Found this] Found show ?thesis by (intro step) (fastforce simp: moved_def)
    next
      case (Released k m)
      with safe u Leaving obtain ns' where "unlock_deref k m (ns (c_nm (m_conc s))) = Ret ns'"
        by (cases "unlock_deref k m (ns (c_nm (m_conc s)))") (auto simp: re_safe_def)
      from io_step.unlocked [OF Leaving Released this] Released show ?thesis by (intro step) (fastforce simp: moved_def)
    qed (use safe u Leaving in \<open>simp add: re_safe_def\<close>)
  qed (use safe u in \<open>simp_all add: re_safe_def\<close>)
qed

lemma re_moves:
  assumes "re_safe s t" "m_thr s t \<noteq> Rest"
    and "\<And>r a m. m_thr s t = Locking r a \<Longrightarrow> mutex_lock t (rq_key r) m (ns (c_nm (m_conc s))) \<noteq> Ret None"
  shows "\<exists>s'. re_step ok_rq good s s' \<and> moved (m_conc s) (m_conc s') t"
proof (cases "m_upd s t")
  case None
  with assms(1) have "thr_safe (m_conc s) t" by (simp add: re_safe_def)
  from moves [OF this assms(2,3), where ok_rq = ok_rq] show ?thesis using re_step.request by fastforce
next
  case (Some st)
  show ?thesis by (rule update_moves [OF assms(1) Some assms(3)])
qed

text \<open>
  Reconfiguration does not stop requests: a thread with a request or an update can make its next step, or
  waits for a key whose holder can.
\<close>

theorem reconfigured_progress:
  assumes "any_storages good ok keys vals"
    and "nmtx_ns io = Null" "route_ok (ioroute io)" "\<forall>i \<in> set (ioroute io). nref i = 0 \<and> good (storage i)"
    and "ok (ioworld io)" "filled (iocache io)"
    and reach: "(re_step (admissible keys vals) good)\<^sup>*\<^sup>* (reconf_init io) s" and t: "m_thr s t \<noteq> Rest"
  shows "(\<exists>s'. re_step (admissible keys vals) good s s' \<and> moved (m_conc s) (m_conc s') t) \<or>
    (\<exists>r a u s'. m_thr s t = Locking r a \<and> pc_holds (pcs (c_nm (m_conc s)) u) = Some (rq_key r) \<and>
       re_step (admissible keys vals) good s s' \<and> moved (m_conc s) (m_conc s') u)"
proof -
  have inv: "any_storages.safe_inv good ok keys vals s"
    by (rule any_storages.safe_inv_reach [OF assms(1) reach any_storages.safe_inv_init [OF assms(1-6)]])
  note lock = any_storages.safe_invD(1) [OF assms(1) inv] and safe = any_storages.safe_inv_safe [OF assms(1) inv]
  show ?thesis
  proof (cases "\<exists>r a m. m_thr s t = Locking r a \<and> mutex_lock t (rq_key r) m (ns (c_nm (m_conc s))) = Ret None")
    case True
    then obtain r a m where L: "m_thr s t = Locking r a" "mutex_lock t (rq_key r) m (ns (c_nm (m_conc s))) = Ret None" by blast
    from lock L(2) obtain u where u: "pc_holds (pcs (c_nm (m_conc s)) u) = Some (rq_key r)" "m_thr s u \<noteq> Rest"
      "\<forall>r a. m_thr s u \<noteq> Locking r a" by (rule lock_held)
    from re_moves [OF safe u(2), of "admissible keys vals" good] u(1,3) L(1) show ?thesis by blast
  next
    case False
    with re_moves [OF safe t, of "admissible keys vals" good] show ?thesis by blast
  qed
qed

text \<open>A file storage of a daemon without a cache, and a thread that has matched a key.\<close>

abbreviation one_file :: "fs route_list" where
  "one_file \<equiv> [\<lparr>addr = 1, storage = file_storage ''f'' ''/d'', prefix = [''*''], nref = 0\<rparr>]"

abbreviation plain_io :: "fs io_ctx" where
  "plain_io \<equiv> \<lparr>nmtx_ns = Null, iocache = None, ioroute = one_file, ioworld = empty_fs\<rparr>"

abbreviation matched_one :: "fs reconf" where
  "matched_one \<equiv> (reconf_init plain_io)\<lparr>m_conc := (conc_init plain_io)\<lparr>c_route := map (bump 1 1) one_file, c_thr := (\<lambda>_. Rest)(1 := Routed (RGet ''k'') 1)\<rparr>\<rparr>"

lemma matched_one_reach: "(re_step (admissible (file_keys ''/d'') file_vals) (file_or_null ''/d''))\<^sup>*\<^sup>* (reconf_init plain_io) matched_one"
proof -
  let ?adm = "admissible (file_keys ''/d'') file_vals"
  let ?step = "re_step ?adm (file_or_null ''/d'')"
  let ?c = "conc_init plain_io" and ?s = "reconf_init plain_io"
  let ?c1 = "?c\<lparr>c_thr := (\<lambda>_. Rest)(1 := Begun (RGet ''k''))\<rparr>" and ?c2 = "?c\<lparr>c_thr := (\<lambda>_. Rest)(1 := Matching (RGet ''k''))\<rparr>"
  have step: "?step (?s\<lparr>m_conc := c\<rparr>) (?s\<lparr>m_conc := c'\<rparr>)" if "io_step ?adm c c'" for c c'
    using re_step.request [of ?adm "?s\<lparr>m_conc := c\<rparr>" c' "file_or_null ''/d''"] that by simp
  have "?adm (RGet ''k'')" by (simp add: file_keys_def)
  with io_step.started [of ?c 1 ?adm "RGet ''k''"] have "?step (?s\<lparr>m_conc := ?c\<rparr>) (?s\<lparr>m_conc := ?c1\<rparr>)"
    by (intro step) (simp add: conc_init_def)
  moreover have "?s\<lparr>m_conc := ?c\<rparr> = ?s" by (simp add: reconf_init_def)
  ultimately have "?step ?s (?s\<lparr>m_conc := ?c1\<rparr>)" by simp
  moreover from io_step.skip [of ?c1 1 "RGet ''k''" ?adm] have "?step (?s\<lparr>m_conc := ?c1\<rparr>) (?s\<lparr>m_conc := ?c2\<rparr>)"
    by (intro step) (simp add: conc_init_def)
  moreover from io_step.matched [of ?c2 1 "RGet ''k''" 1 "map (bump 1 1) one_file" ?adm] have "?step (?s\<lparr>m_conc := ?c2\<rparr>) matched_one"
    by (intro step) (simp add: conc_init_def bump_def)
  ultimately show ?thesis by (meson converse_rtranclp_into_rtranclp rtranclp.rtrancl_refl)
qed

theorem reconfigured_safe_witness:
  "route_unregister (map (bump 1 1) one_file) (Some ''f'') empty_fs = (Some EBUSY, map (bump 1 1) one_file, empty_fs)"
proof -
  have start: "route_ok (ioroute plain_io)" "\<forall>i \<in> set (ioroute plain_io). nref i = 0 \<and> file_or_null ''/d'' (storage i)"
    "file_good ''/d'' (ioworld plain_io)" "filled (iocache plain_io)"
    using empty_fs_ok(2) by (auto simp: route_ok_def file_or_null_def filled_def)
  from reconfigured_safe [OF fns.any_storages_axioms _ start matched_one_reach, of 1 1 empty_fs]
  show ?thesis by (auto simp: file_storage_def reconf_init_def conc_init_def)
qed

end
