(* ===== verification/Io_Stream.thy ===== *)
theory Io_Stream
  imports Daemon_Chain Builtin
begin

text \<open>
  The request protocol over a socket whose data arrives in pieces. In \<open>Io_Protocol\<close> what a peer has sent is
  there when it is asked for; here a \<^verbatim>\<open>recv\<close> gets no more than what has arrived, a connection may break, a
  \<^verbatim>\<open>send\<close> may fail, and \<^verbatim>\<open>worker\<close> of \<^verbatim>\<open>lib/io_server.c\<close> and the reading of answers in \<^verbatim>\<open>lib/builtin/unix.c\<close> meet
  this with the calls they make.

  As long as the pieces that one side sends arrive whole, also when several arrive as one, requests and
  answers are those of \<open>Io_Protocol\<close>. A value that arrives in two pieces is refused, and its second piece is
  taken for the next request.
\<close>

section \<open>Sockets\<close>

text \<open>What the next calls of \<^verbatim>\<open>recv\<close> find. After the last entry the peer has closed its side.\<close>

datatype arrival = Data "byte list" | Broken errno

fun sock_recv :: "nat \<Rightarrow> arrival list \<Rightarrow> (errno + byte list) \<times> arrival list" where
  "sock_recv 0 as = (Inr [], as)"
| "sock_recv n [] = (Inr [], [])"
| "sock_recv n (Broken e # as) = (Inl e, as)"
| "sock_recv n (Data bs # as) = (Inr (take n bs), if length bs \<le> n then as else Data (drop n bs) # as)"

text \<open>How much is left to receive.\<close>

fun to_come :: "arrival list \<Rightarrow> nat" where
  "to_come [] = 0"
| "to_come (Data bs # as) = Suc (length bs) + to_come as"
| "to_come (Broken e # as) = Suc (to_come as)"

text \<open>
  \<^verbatim>\<open>unix_stream_discard\<close> reads without waiting, 16 bytes at a time, until a call gets fewer: it takes what has
  arrived by then, the first \<open>here\<close> entries.
\<close>

function stream_discard :: "nat \<Rightarrow> arrival list \<Rightarrow> arrival list" where
  "stream_discard 0 as = as"
| "stream_discard (Suc here) [] = []"
| "stream_discard (Suc here) (Broken e # as) = as"
| "stream_discard (Suc here) (Data bs # as) =
     (if length bs < 16 then as
      else if length bs = 16 then stream_discard here as
      else stream_discard (Suc here) (Data (drop 16 bs) # as))"
  by pat_completeness auto
termination
  by (relation "measure (\<lambda>(here, as). to_come as)") auto

declare stream_discard.simps(4) [simp del]

text \<open>One end of a connection; sends are numbered, and an oracle says which succeed.\<close>

record conn =
  arrivals :: "arrival list"
  sent :: "byte list"
  sends :: nat

definition sock_send :: "(nat \<Rightarrow> bool) \<Rightarrow> byte list \<Rightarrow> conn \<Rightarrow> bool \<times> conn" where
  "sock_send ok bs c =
     (if ok (sends c) then (True, c\<lparr>sent := sent c @ bs, sends := sends c + 1\<rparr>)
      else (False, c\<lparr>sends := sends c + 1\<rparr>))"

section \<open>The worker\<close>

text \<open>What a turn meets: the environment of the request, memory for a value, what has arrived, the stack.\<close>

record turn_env =
  t_env :: io_env
  t_mem :: bool
  t_here :: nat
  t_stack :: "byte list"

text \<open>\<^verbatim>\<open>get\<close>, from the outcome of \<^verbatim>\<open>io_get\<close> on.\<close>

definition stream_get ::
  "turn_env \<Rightarrow> (nat \<Rightarrow> bool) \<Rightarrow> 'w io_ctx \<Rightarrow> string \<Rightarrow> conn \<Rightarrow> (int \<times> conn \<times> 'w io_ctx) option c_out" where
  "stream_get te ok io key c =
     c_bind (if cred_check io_get_t key \<noteq> 0 then Ret (Some (cred_check io_get_t key, None, 0, io))
             else c_bind (io_get (t_env te) io key) (\<lambda>r. Ret (map_option (\<lambda>(r, io').
               case r of Inl e \<Rightarrow> (errno_code e, None, 0, io') | Inr (v, d) \<Rightarrow> (0, Some v, d, io')) r))) (\<lambda>r.
       Ret (map_option (\<lambda>(ret, value, duration, io').
         let (n, c) = sock_send ok (wire_i64 duration) c
         in if \<not> n then (errno_code EIO, c, io')
            else let (n, c) = sock_send ok (case value of Some v \<Rightarrow> value_bytes v | None \<Rightarrow> [0, 0, 0, 0, 0]) c
              in if \<not> n then (errno_code EIO, c, io') else (ret, c, io')) r))"

text \<open>
  \<^verbatim>\<open>set\<close>. A \<^verbatim>\<open>recv\<close> for the data of a value of length 0 takes nothing; when it returns is not part of this model
  (\<open>Unix_Shared\<close>, where it matters, has \<open>request_waits\<close>).
\<close>

definition stream_set ::
  "turn_env \<Rightarrow> 'w io_ctx \<Rightarrow> string \<Rightarrow> byte \<Rightarrow> 32 word \<Rightarrow> conn \<Rightarrow> (int \<times> conn \<times> 'w io_ctx) option c_out" where
  "stream_set te io key vt vl c =
     (if \<not> t_mem te then Ret (Some (errno_code ENOMEM, c\<lparr>arrivals := stream_discard (t_here te) (arrivals c)\<rparr>, io))
      else
        let (n, as) = sock_recv (unat vl) (arrivals c); c = c\<lparr>arrivals := as\<rparr>
        in case n of
             Inl e \<Rightarrow> Ret (Some (errno_code EIO, c, io))
           | Inr bs \<Rightarrow>
               if length bs \<noteq> unat vl then Ret (Some (errno_code EIO, c, io))
               else if cred_check io_set_t key \<noteq> 0 then Ret (Some (cred_check io_set_t key, c, io))
               else c_bind (io_set (t_env te) io key \<lparr>vtype = vt, vlength = vl, vdata = bs\<rparr>) (\<lambda>r.
                 Ret (map_option (\<lambda>(r, io'). (result_code r, c, io')) r)))"

datatype 'w turn = Done int conn "'w io_ctx" | More conn "'w io_ctx"

text \<open>One turn of the loop of \<^verbatim>\<open>worker\<close>. A header that arrives in part is used with what the stack holds.\<close>

definition stream_turn :: "turn_env \<Rightarrow> (nat \<Rightarrow> bool) \<Rightarrow> 'w io_ctx \<Rightarrow> conn \<Rightarrow> 'w turn option c_out" where
  "stream_turn te ok io c =
     (let (n, as) = sock_recv PKG_SIZE (arrivals c); c = c\<lparr>arrivals := as\<rparr>
      in case n of
           Inl e \<Rightarrow> Ret (Some (Done (errno_code e) c io))
         | Inr bs \<Rightarrow>
             if bs = [] then Ret (Some (Done 0 c io))
             else
               let pkg = take PKG_SIZE (bs @ drop (length bs) (t_stack te)); ty = hd pkg; (vt, vl) = value_head (drop 264 pkg)
               in c_bind (cstring_at (drop 9 pkg)) (\<lambda>key.
                    c_bind (if ty = io_get_t then stream_get te ok io key c
                            else if ty = io_set_t then stream_set te io key vt vl c
                            else if ty = io_del_t then
                              c_bind (srv_del (t_env te) io key) (\<lambda>r. Ret (map_option (\<lambda>(result, io'). (result, c, io')) r))
                            else Ret (Some (0, c, io))) (\<lambda>r.
                      Ret (map_option (\<lambda>(result, c, io').
                        let (n, c) = sock_send ok (wire_int result) c
                        in if \<not> n then Done (errno_code EIO) c io' else More c io') r))))"

text \<open>What is left to receive shrinks from turn to turn.\<close>

lemma sock_recv_closed [simp]: "sock_recv n [] = (Inr [], [])"
  by (cases n) auto

lemma sock_recv_data [simp]:
  "0 < n \<Longrightarrow> sock_recv n (Data bs # as) = (Inr (take n bs), if length bs \<le> n then as else Data (drop n bs) # as)"
  by (cases n) auto

lemma sock_recv_shrinks:
  "to_come (snd (sock_recv n as)) \<le> to_come as"
  "0 < n \<Longrightarrow> sock_recv n as = (Inr bs, as') \<Longrightarrow> bs \<noteq> [] \<Longrightarrow> to_come as' < to_come as"
  by (cases "(n, as)" rule: sock_recv.cases; force split: if_splits)+

lemma sock_send_arrivals [simp]: "arrivals (snd (sock_send ok bs c)) = arrivals c"
  by (simp add: sock_send_def)

lemma stream_get_arrivals: "stream_get te ok io key c = Ret (Some (r, c', io')) \<Longrightarrow> arrivals c' = arrivals c"
  by (auto simp: stream_get_def sock_send_def Let_def split: if_splits)

lemma stream_discard_shrinks: "to_come (stream_discard here as) \<le> to_come as"
proof (induction here as rule: stream_discard.induct)
  case (4 here bs as)
  then show ?case by (subst stream_discard.simps(4)) auto
qed simp_all

lemma stream_set_arrivals:
  assumes "stream_set te io key vt vl c = Ret (Some (r, c', io'))"
  shows "to_come (arrivals c') \<le> to_come (arrivals c)"
proof -
  obtain n as where recv: "sock_recv (unat vl) (arrivals c) = (n, as)" by fastforce
  then have "to_come as \<le> to_come (arrivals c)" using sock_recv_shrinks(1) [of "unat vl" "arrivals c"] by simp
  with assms recv stream_discard_shrinks [of "t_here te" "arrivals c"] show ?thesis
    by (auto simp: stream_set_def Let_def split: if_splits sum.splits)
qed

lemma stream_turn_more:
  assumes "stream_turn te ok io c = Ret (Some (More c' io'))"
  shows "to_come (arrivals c') < to_come (arrivals c)"
proof -
  obtain n as where recv: "sock_recv PKG_SIZE (arrivals c) = (n, as)" by fastforce
  with assms obtain bs where n: "n = Inr bs" "bs \<noteq> []" by (cases n) (auto simp: stream_turn_def Let_def split: if_splits)
  then have less: "to_come as < to_come (arrivals c)" using sock_recv_shrinks(2) [OF _ recv [unfolded n(1)]] by simp
  have "to_come (arrivals c') \<le> to_come as"
    using assms recv n
    by (auto simp: stream_turn_def Let_def case_prod_beta split: if_splits
        dest!: stream_get_arrivals stream_set_arrivals)
  with less show ?thesis by simp
qed

text \<open>The loop: it ends with the input, with a broken connection, or with a \<^verbatim>\<open>send\<close> that fails.\<close>

function worker_stream ::
  "(nat \<Rightarrow> turn_env) \<Rightarrow> (nat \<Rightarrow> bool) \<Rightarrow> nat \<Rightarrow> 'w io_ctx \<Rightarrow> conn \<Rightarrow> (int \<times> conn \<times> 'w io_ctx) option c_out" where
  "worker_stream tes ok n io c =
     (case stream_turn (tes n) ok io c of
        UB \<Rightarrow> UB
      | Ret None \<Rightarrow> Ret None
      | Ret (Some (Done r c' io')) \<Rightarrow> Ret (Some (r, c', io'))
      | Ret (Some (More c' io')) \<Rightarrow> worker_stream tes ok (Suc n) io' c')"
  by pat_completeness auto
termination
  by (relation "measure (\<lambda>(tes, ok, n, io, c). to_come (arrivals c))") (auto dest: stream_turn_more)

declare worker_stream.simps [simp del]

section \<open>Pieces that arrive whole\<close>

text \<open>What \<^verbatim>\<open>io_begin\<close> sends with one call each. A \<^verbatim>\<open>send\<close> of no bytes leaves no trace.\<close>

fun pieces_of :: "timestamp \<Rightarrow> request \<Rightarrow> byte list list" where
  "pieces_of created (Req_get key) = [io_package io_get_t created key value_undef 0]"
| "pieces_of created (Req_set key v) =
     io_package io_set_t created key (vtype v) (vlength v) # (if vdata v = [] then [] else [vdata v])"
| "pieces_of created (Req_del key) = [io_package io_del_t created key value_undef 0]"

lemma concat_pieces: "concat (pieces_of created r) = request_bytes created r"
  by (cases r) (auto simp: io_begin_def)

text \<open>Pieces that arrive in their order, each one whole, any number of them as one.\<close>

inductive carries :: "byte list list \<Rightarrow> arrival list \<Rightarrow> bool" where
  carries_Nil: "carries [] []"
| carries_alone: "p \<noteq> [] \<Longrightarrow> carries ps as \<Longrightarrow> carries (p # ps) (Data p # as)"
| carries_joined: "p \<noteq> [] \<Longrightarrow> carries ps (Data bs # as) \<Longrightarrow> carries (p # ps) (Data (p @ bs) # as)"

inductive_cases carries_NilE: "carries [] as"
inductive_cases carries_ConsE: "carries (p # ps) as"

lemma carries_head: "carries ps (Data bs # as) \<Longrightarrow> bs \<noteq> []"
  by (erule carries.cases) auto

lemma recv_piece:
  assumes "carries (p # ps) as"
  obtains as' where "sock_recv (length p) as = (Inr p, as')" "carries ps as'"
  using assms by (elim carries_ConsE) (use that carries_head in force)+

lemma io_package_not_Nil [simp]: "io_package ty created key vt vl \<noteq> []"
  by (simp add: io_package_def)

lemma recv_package:
  assumes "carries (io_package ty created key vt vl # ps) as"
  obtains as' where "sock_recv PKG_SIZE as = (Inr (io_package ty created key vt vl), as')" "carries ps as'"
  using recv_piece [OF assms] unfolding package_parts(1) by blast

lemma stream_turn_package:
  assumes "no_nul key" "length key < 255"
    and "sock_recv PKG_SIZE (arrivals c) = (Inr (io_package ty created key vt vl), as)"
  shows "stream_turn te ok io c =
    c_bind (if ty = io_get_t then stream_get te ok io key (c\<lparr>arrivals := as\<rparr>)
            else if ty = io_set_t then stream_set te io key vt vl (c\<lparr>arrivals := as\<rparr>)
            else if ty = io_del_t then
              c_bind (srv_del (t_env te) io key) (\<lambda>r. Ret (map_option (\<lambda>(result, io'). (result, c\<lparr>arrivals := as\<rparr>, io')) r))
            else Ret (Some (0, c\<lparr>arrivals := as\<rparr>, io))) (\<lambda>r.
      Ret (map_option (\<lambda>(result, c, io').
        let (n, c) = sock_send ok (wire_int result) c
        in if \<not> n then Done (errno_code EIO) c io' else More c io') r))"
  using package_parts [of ty created key vt vl] cstring_key_field [OF assms(1,2)] assms(3)
  by (simp add: stream_turn_def Let_def)

fun n_sends :: "request \<Rightarrow> nat" where
  "n_sends (Req_get key) = 3"
| "n_sends (Req_set key v) = 1"
| "n_sends (Req_del key) = 1"

lemma stream_set_value:
  assumes "unat (vlength v) = length (vdata v)" "t_mem te" "sock_recv (unat (vlength v)) (arrivals c) = (Inr (vdata v), as)"
  shows "stream_set te io key (vtype v) (vlength v) c = c_bind (io_set (t_env te) io key v) (\<lambda>r.
    Ret (map_option (\<lambda>(r, io'). (result_code r, c\<lparr>arrivals := as\<rparr>, io')) r))"
proof -
  have v: "\<lparr>vtype = vtype v, vlength = vlength v, vdata = vdata v\<rparr> = v" by simp
  show ?thesis
    unfolding stream_set_def assms(3) using assms(1,2)
    by (simp add: cred_check_def del: value_t.surjective) (simp only: v)
qed

lemma stream_turn_answer:
  assumes r: "request_ok r" and mem: "t_mem te" and sends: "\<And>i. ok i"
    and c: "carries (pieces_of created r @ ps) (arrivals c)"
  shows "\<exists>as. carries ps as \<and> stream_turn te ok io c =
    c_bind (answer (t_env te) io r) (\<lambda>a. Ret (map_option (\<lambda>(out, io').
      More (c\<lparr>arrivals := as, sent := sent c @ out, sends := sends c + n_sends r\<rparr>) io') a))"
proof (cases r)
  case (Req_get key)
  with r have k: "no_nul key" "length key < 255" by simp_all
  obtain as where recv: "sock_recv PKG_SIZE (arrivals c) = (Inr (io_package io_get_t created key value_undef 0), as)" and as: "carries ps as"
    using c Req_get by (auto elim: recv_package)
  show ?thesis
    by (rule exI [of _ as], cases "io_get (t_env te) io key")
      (auto simp: as Req_get stream_turn_package [OF k recv] stream_get_def cred_check_def sock_send_def sends
        map_option_case numeral_3_eq_3 split: option.splits sum.splits prod.splits)
next
  case (Req_set key v)
  with r have k: "no_nul key" "length key < 255" and v: "unat (vlength v) = length (vdata v)" by (simp_all add: value_ok_def)
  obtain as where recv: "sock_recv PKG_SIZE (arrivals c) = (Inr (io_package io_set_t created key (vtype v) (vlength v)), as)"
    and as: "carries ((if vdata v = [] then [] else [vdata v]) @ ps) as"
    using c Req_set by (auto elim: recv_package)
  obtain as' where data: "sock_recv (unat (vlength v)) as = (Inr (vdata v), as')" and as': "carries ps as'"
    using as v by (cases "vdata v = []") (auto elim: recv_piece)
  note set = stream_set_value [OF v mem, of "c\<lparr>arrivals := as\<rparr>", simplified, OF data]
  show ?thesis
    by (rule exI [of _ as'], cases "io_set (t_env te) io key v")
      (auto simp: as' Req_set stream_turn_package [OF k recv] set sock_send_def sends map_option_case split: option.splits prod.splits)
next
  case (Req_del key)
  with r have k: "no_nul key" "length key < 255" by simp_all
  obtain as where recv: "sock_recv PKG_SIZE (arrivals c) = (Inr (io_package io_del_t created key value_undef 0), as)" and as: "carries ps as"
    using c Req_del by (auto elim: recv_package)
  show ?thesis
    by (rule exI [of _ as], cases "io_del (t_env te) io key")
      (auto simp: as Req_del stream_turn_package [OF k recv] srv_del_def cred_check_def sock_send_def sends
        map_option_case split: option.splits prod.splits)
qed

lemma stream_turn_closed: "arrivals c = [] \<Longrightarrow> stream_turn te ok io c = Ret (Some (Done 0 c io))"
  by (cases c) (simp add: stream_turn_def)

lemma worker_stream_answers:
  fixes io :: "'w io_ctx"
  assumes "\<And>r. r \<in> set rs \<Longrightarrow> request_ok r" "\<And>i. t_mem (tes i)" "\<And>i. ok i"
    and "carries (concat (map (pieces_of created) rs)) (arrivals c)"
  shows "worker_stream tes ok n io c =
    c_bind (answers (map (\<lambda>i. t_env (tes i)) [n..<n + length rs]) io rs) (\<lambda>a. Ret (map_option (\<lambda>(out, io').
      (0, \<lparr>arrivals = [], sent = sent c @ out, sends = sends c + sum_list (map n_sends rs)\<rparr>, io')) a))"
  using assms(1,4)
proof (induction rs arbitrary: n io c)
  case Nil
  then have "arrivals c = []" by (auto elim: carries_NilE)
  then show ?case by (cases c) (simp add: worker_stream.simps stream_turn_closed)
next
  case (Cons r rs)
  have c: "carries (pieces_of created r @ concat (map (pieces_of created) rs)) (arrivals c)" and r: "request_ok r"
    using Cons.prems by simp_all
  obtain as where as: "carries (concat (map (pieces_of created) rs)) as"
    and turn: "stream_turn (tes n) ok io c = c_bind (answer (t_env (tes n)) io r) (\<lambda>a. Ret (map_option (\<lambda>(out, io').
      More (c\<lparr>arrivals := as, sent := sent c @ out, sends := sends c + n_sends r\<rparr>) io') a))"
    using stream_turn_answer [where te = "tes n" and ok = ok and io = io, OF r assms(2,3) c] by blast
  define es where "es = map (\<lambda>i. t_env (tes i)) [Suc n..<n + length (r # rs)]"
  have es: "map (\<lambda>i. t_env (tes i)) [n..<n + length (r # rs)] = t_env (tes n) # es"
    unfolding es_def by (subst upt_conv_Cons) simp_all
  have IH: "worker_stream tes ok (Suc n) io' (c\<lparr>arrivals := as, sent := out, sends := m\<rparr>) =
    c_bind (answers es io' rs) (\<lambda>a. Ret (map_option (\<lambda>(out', io').
      (0, \<lparr>arrivals = [], sent = out @ out', sends = m + sum_list (map n_sends rs)\<rparr>, io')) a))" for io' :: "'w io_ctx" and out m
    using Cons.IH [of "c\<lparr>arrivals := as, sent := out, sends := m\<rparr>" "Suc n" io'] Cons.prems(1) as by (simp add: es_def)
  show ?case
  proof (cases "answer (t_env (tes n)) io r")
    case UB
    then show ?thesis unfolding es by (simp add: turn worker_stream.simps)
  next
    case (Ret a)
    then show ?thesis
      unfolding es
      by (subst worker_stream.simps, cases a)
        (auto simp: turn IH c_bind_assoc option.map_comp comp_def case_prod_unfold add.assoc)
  qed
qed

text \<open>A value that arrives in two pieces.\<close>

lemma stream_turn_short_value:
  assumes "no_nul key" "length key < 255" "t_mem te" "ok (sends c)" "part \<noteq> []" "length part < unat vl"
    and "arrivals c = Data (io_package io_set_t created key vt vl @ part) # as"
  shows "stream_turn te ok io c =
    Ret (Some (More (c\<lparr>arrivals := as, sent := sent c @ wire_int (errno_code EIO), sends := sends c + 1\<rparr>) io))"
proof -
  have recv: "sock_recv PKG_SIZE (arrivals c) = (Inr (io_package io_set_t created key vt vl), Data part # as)"
    using assms(5) by (simp add: assms(7) package_parts(1))
  have "0 < unat vl" using assms(6) by simp
  then have "stream_set te io key vt vl (c\<lparr>arrivals := Data part # as\<rparr>) = Ret (Some (errno_code EIO, c\<lparr>arrivals := as\<rparr>, io))"
    using assms(3,6) by (simp add: stream_set_def)
  with assms(4) show ?thesis by (simp add: stream_turn_package [OF assms(1,2) recv] sock_send_def)
qed

section \<open>The client\<close>

text \<open>\<^verbatim>\<open>io_end\<close> and \<^verbatim>\<open>get\<close> of the unix storage: each \<^verbatim>\<open>recv\<close> has to bring all that it asks for.\<close>

definition client_end :: "arrival list \<Rightarrow> errno option \<times> arrival list" where
  "client_end as =
     (case sock_recv 4 as of
        (Inl e, as) \<Rightarrow> (Some EIO, as)
      | (Inr bs, as) \<Rightarrow>
          if length bs \<noteq> 4 then (Some EIO, as)
          else if unwire_int bs = 0 then (None, as) else (Some (errno_of (unwire_int bs)), as))"

text \<open>A \<^verbatim>\<open>recv\<close> of a number of bytes, with the test of its result.\<close>

definition recv_all :: "nat \<Rightarrow> arrival list \<Rightarrow> byte list option \<times> arrival list" where
  "recv_all n as =
     (case sock_recv n as of
        (Inl e, as) \<Rightarrow> (None, as)
      | (Inr bs, as) \<Rightarrow> (if length bs \<noteq> n then None else Some bs, as))"

definition client_get :: "bool \<Rightarrow> nat \<Rightarrow> arrival list \<Rightarrow> (errno + value_t \<times> timestamp) \<times> arrival list" where
  "client_get mem here as =
     (case recv_all 8 as of
        (None, as) \<Rightarrow> (Inl EIO, stream_discard here as)
      | (Some dur, as) \<Rightarrow>
          (case recv_all 5 as of
             (None, as) \<Rightarrow> (Inl EIO, stream_discard here as)
           | (Some head, as) \<Rightarrow>
               let (vt, vl) = value_head head
               in if \<not> mem then (Inl ENOMEM, stream_discard here as)
                  else
                    (case recv_all (unat vl) as of
                       (None, as) \<Rightarrow> (Inl EIO, stream_discard here as)
                     | (Some data, as) \<Rightarrow>
                         (case client_end as of
                            (Some e, as) \<Rightarrow> (Inl e, stream_discard here as)
                          | (None, as) \<Rightarrow> (Inr (\<lparr>vtype = vt, vlength = vl, vdata = data\<rparr>, unwire_i64 dur), as)))))"

lemma carries_split: "carries ((p @ q) # ps) as \<Longrightarrow> p \<noteq> [] \<Longrightarrow> q \<noteq> [] \<Longrightarrow> carries (p # q # ps) as"
  by (erule carries_ConsE) (auto intro: carries.intros)

lemma recv_all_piece:
  assumes "carries (p # ps) as" "length p = n"
  obtains as' where "recv_all n as = (Some p, as')" "carries ps as'"
proof -
  obtain as' where "sock_recv (length p) as = (Inr p, as')" "carries ps as'" using recv_piece [OF assms(1)] .
  then show thesis using that [of as'] assms(2) by (simp add: recv_all_def)
qed

lemma client_end_piece:
  assumes "carries [wire_int r] as"
  shows "client_end as = (fst (io_end (wire_int r)), [])"
proof -
  obtain as' where "sock_recv 4 as = (Inr (wire_int r), as')" "carries [] as'" using recv_piece [OF assms] by auto
  then show ?thesis by (auto simp: client_end_def io_end_def Let_def elim: carries_NilE)
qed

text \<open>The value of an answer in two calls of \<^verbatim>\<open>recv\<close>, its header and its data.\<close>

lemma value_pieces:
  assumes "value_ok v" "carries (value_bytes v # ps) as"
  obtains as1 as2 where "recv_all 5 as = (Some (take 5 (value_bytes v)), as1)" "recv_all (unat (vlength v)) as1 = (Some (vdata v), as2)"
    "value_head (take 5 (value_bytes v)) = (vtype v, vlength v)" "carries ps as2"
proof -
  let ?h = "vtype v # le_bytes 4 (unat (vlength v))"
  have h: "take 5 (value_bytes v) = ?h" "value_bytes v = ?h @ vdata v" by (simp_all add: value_bytes_def)
  have head: "value_head ?h = (vtype v, vlength v)" using le_nat_word(1) [of "vlength v"] by (simp add: value_head_def)
  show thesis
  proof (cases "vdata v = []")
    case True
    with assms(2) h have "carries (?h # ps) as" by simp
    then obtain as1 where "recv_all 5 as = (Some ?h, as1)" "carries ps as1"
      by (rule recv_all_piece [where n = 5]) auto
    with True head assms(1) show thesis by (intro that [of as1 as1]) (simp_all add: h(1) recv_all_def value_ok_def)
  next
    case False
    with assms(2) h have "carries (?h # vdata v # ps) as" using carries_split [of ?h "vdata v" ps as] by simp
    then obtain as1 where 1: "recv_all 5 as = (Some ?h, as1)" "carries (vdata v # ps) as1"
      by (rule recv_all_piece [where n = 5]) auto
    from 1(2) obtain as2 where "recv_all (unat (vlength v)) as1 = (Some (vdata v), as2)" "carries ps as2"
      by (rule recv_all_piece [where n = "unat (vlength v)"]) (use assms(1) in \<open>auto simp: value_ok_def\<close>)
    with 1 head show thesis by (intro that [of as1 as2]) (simp_all add: h(1))
  qed
qed

section \<open>Properties\<close>

text \<open>
  C29: a connection served to its end, over a socket that joins what is sent. However the calls of \<^verbatim>\<open>send\<close>
  that carry a sequence of requests arrive, each one whole but any number of them as one, the worker
  takes one turn per request, sends the answers of \<^verbatim>\<open>io_get\<close>, \<^verbatim>\<open>io_set\<close> and \<^verbatim>\<open>io_del\<close> in the order of the
  requests, leaves nothing unread and ends with 0 when the peer has closed its side.
\<close>

theorem stream_serves:
  assumes "\<And>r. r \<in> set rs \<Longrightarrow> request_ok r" "\<And>i. t_mem (tes i)" "\<And>i. ok i"
    and "carries (concat (map (pieces_of created) rs)) (arrivals c)"
  shows "worker_stream tes ok 0 io c =
    c_bind (answers (map (\<lambda>i. t_env (tes i)) [0..<length rs]) io rs) (\<lambda>a. Ret (map_option (\<lambda>(out, io').
      (0, \<lparr>arrivals = [], sent = sent c @ out, sends = sends c + sum_list (map n_sends rs)\<rparr>, io')) a))"
  using worker_stream_answers [where n = 0, OF assms] by simp

abbreviation bare_turn :: turn_env where
  "bare_turn \<equiv> \<lparr>t_env = bare_env, t_mem = True, t_here = 0, t_stack = []\<rparr>"

theorem stream_serves_witness:
  "worker_stream (\<lambda>_. bare_turn) (\<lambda>_. True) 0 bare_io
     \<lparr>arrivals = [Data (io_package 1 0 ''k'' 1 1 @ [7] @ io_package 2 0 ''k'' 0 0)], sent = [], sends = 0\<rparr> =
   Ret (Some (0, \<lparr>arrivals = [], sent = wire_int (errno_code ENOENT) @ wire_int (errno_code ENOENT), sends = 2\<rparr>, bare_io))"
proof -
  let ?rs = "[Req_set ''k'' \<lparr>vtype = 1, vlength = 1, vdata = [7]\<rparr>, Req_del ''k'']"
  let ?c = "\<lparr>arrivals = [Data (io_package 1 0 ''k'' 1 1 @ [7] @ io_package 2 0 ''k'' 0 0)], sent = [], sends = 0\<rparr>"
  have join: "p \<noteq> [] \<Longrightarrow> q \<noteq> [] \<Longrightarrow> carries [p, [7], q] [Data (p @ [7] @ q)]" for p q
    by (intro carries_joined carries_alone carries_Nil) auto
  have "carries (concat (map (pieces_of 0) ?rs)) [Data (io_package 1 0 ''k'' 1 1 @ [7] @ io_package 2 0 ''k'' 0 0)]"
    using join [of "io_package 1 0 ''k'' 1 1" "io_package 2 0 ''k'' 0 0"] by simp
  then have "carries (concat (map (pieces_of 0) ?rs)) (arrivals ?c)" by simp
  with stream_serves [of ?rs "\<lambda>_. bare_turn" "\<lambda>_. True" 0 ?c bare_io]
  have run: "worker_stream (\<lambda>_. bare_turn) (\<lambda>_. True) 0 bare_io ?c =
    c_bind (answers (map (\<lambda>i. t_env bare_turn) [0..<length ?rs]) bare_io ?rs) (\<lambda>a. Ret (map_option (\<lambda>(out, io').
      (0, \<lparr>arrivals = [], sent = sent ?c @ out, sends = sends ?c + sum_list (map n_sends ?rs)\<rparr>, io')) a))"
    by (fastforce simp: no_nul_def value_ok_def simp del: answers.simps map_map list.map)
  have ans: "answers (map (\<lambda>i. t_env bare_turn) [0..<length ?rs]) bare_io ?rs =
      Ret (Some (wire_int (errno_code ENOENT) @ wire_int (errno_code ENOENT), bare_io))"
    by (simp add: bare_io_requests [simplified] result_code_def)
  show ?thesis unfolding run ans by simp
qed

text \<open>
  C31: a value that arrives in two pieces. The worker takes the first piece for the whole, refuses the set
  with \<open>EIO\<close> and stores nothing; the second piece is then taken for the next request. If the value
  contains the bytes of a del there, that del is carried out: the peer that asked for one set is
  answered twice, and the property that its value names is deleted.
\<close>

theorem split_value_smuggles:
  assumes "no_nul key" "length key < 255" "no_nul victim" "length victim < 255"
    and "value_ok v" "vdata v = part @ io_package io_del_t created2 victim value_undef 0" "part \<noteq> []"
    and "arrivals c = [Data (io_package io_set_t created key (vtype v) (vlength v) @ part),
                       Data (io_package io_del_t created2 victim value_undef 0)]"
    and "\<And>i. t_mem (tes i)" "\<And>i. ok i"
    and "io_del (t_env (tes 1)) io victim = Ret (Some (r, io'))"
  shows "worker_stream tes ok 0 io c =
    Ret (Some (0, \<lparr>arrivals = [], sent = sent c @ wire_int (errno_code EIO) @ wire_int (result_code r),
      sends = sends c + 2\<rparr>, io'))"
proof -
  let ?c = "c\<lparr>arrivals := [Data (io_package io_del_t created2 victim value_undef 0)],
      sent := sent c @ wire_int (errno_code EIO), sends := sends c + 1\<rparr>"
  have short: "length part < unat (vlength v)" using assms(5,6) by (simp add: value_ok_def io_package_def)
  have turn: "stream_turn (tes 0) ok io c = Ret (Some (More ?c io))"
    using stream_turn_short_value [OF assms(1,2,9,10,7) short assms(8)] .
  have "carries (concat (map (pieces_of created2) [Req_del victim])) (arrivals ?c)"
    by (auto intro: carries.intros)
  then have "worker_stream tes ok 1 io ?c =
      Ret (Some (0, \<lparr>arrivals = [], sent = sent ?c @ wire_int (result_code r), sends = sends ?c + 1\<rparr>, io'))"
    using worker_stream_answers [of "[Req_del victim]" tes ok created2 ?c 1 io] assms(3,4,9-11) by simp
  then show ?thesis by (subst worker_stream.simps) (simp add: turn)
qed

lemma bare_io_del: "io_del bare_env bare_io k = Ret (Some (Some ENOENT, bare_io))"
proof -
  have ok: "io_ok bare_io" using nt.inv_empty by (simp add: io_ok_def route_ok_def)
  show ?thesis using io_routed_none [OF ok, of k] by (simp add: io_del_def)
qed

theorem split_value_smuggles_witness:
  "worker_stream (\<lambda>_. bare_turn) (\<lambda>_. True) 0 bare_io
     \<lparr>arrivals = [Data (io_package 1 0 ''k'' 5 270 @ [7]), Data (io_package 2 0 ''w'' 0 0)], sent = [], sends = 0\<rparr> =
   Ret (Some (0, \<lparr>arrivals = [], sent = wire_int (errno_code EIO) @ wire_int (errno_code ENOENT), sends = 2\<rparr>, bare_io))"
proof -
  let ?v = "\<lparr>vtype = 5, vlength = 270, vdata = [7] @ io_package 2 0 ''w'' 0 0\<rparr>"
  let ?c = "\<lparr>arrivals = [Data (io_package 1 0 ''k'' (vtype ?v) (vlength ?v) @ [7]), Data (io_package 2 0 ''w'' 0 0)], sent = [], sends = 0\<rparr>"
  have "worker_stream (\<lambda>_. bare_turn) (\<lambda>_. True) 0 bare_io ?c =
      Ret (Some (0, \<lparr>arrivals = [], sent = sent ?c @ wire_int (errno_code EIO) @ wire_int (result_code (Some ENOENT)),
        sends = sends ?c + 2\<rparr>, bare_io))"
    using package_parts(1) [of 2 0 "''w''" 0 0]
    by (intro split_value_smuggles [of "''k''" "''w''" ?v "[7]" 0 ?c 0]) (simp_all add: no_nul_def value_ok_def bare_io_del [simplified])
  then show ?thesis by (simp add: result_code_def)
qed

text \<open>
  C30: the answer to a get, over a socket that joins what is sent. However the three pieces that the
  daemon sends arrive, the duration, the value and the result, each one whole but any of them as one,
  the unix storage returns the value and the duration, or the error that the result names, and leaves
  nothing unread, so that a shared connection stays in step.
\<close>

theorem client_get_arrived:
  assumes "value_ok v" "carries [wire_i64 d, value_bytes v, wire_int 0] as"
    and "errno_ok e" "carries [wire_i64 0, [0, 0, 0, 0, 0], wire_int (errno_code e)] fs"
  shows "client_get True here as = (Inr (v, i64 d), []) \<and>
    (\<exists>e'. client_get True 0 fs = (Inl e', []) \<and> errno_ok e')"
proof
  obtain as1 where 1: "recv_all 8 as = (Some (wire_i64 d), as1)" "carries [value_bytes v, wire_int 0] as1"
    using assms(2) by (rule recv_all_piece [where n = 8]) auto
  obtain as2 as3 where 2: "recv_all 5 as1 = (Some (take 5 (value_bytes v)), as2)" "recv_all (unat (vlength v)) as2 = (Some (vdata v), as3)"
    "value_head (take 5 (value_bytes v)) = (vtype v, vlength v)" "carries [wire_int 0] as3"
    using value_pieces [OF assms(1) 1(2)] .
  show "client_get True here as = (Inr (v, i64 d), [])"
    using 1 2 client_end_piece [OF 2(4)] by (simp add: client_get_def io_end_ok unwire_wire_i64_mod)
next
  let ?v = "\<lparr>vtype = 0, vlength = 0, vdata = []\<rparr>"
  have "le_bytes (Suc (Suc (Suc (Suc 0)))) 0 = [0, 0, 0, 0]" "Suc (Suc (Suc (Suc 0))) = 4" by simp_all
  then have "le_bytes 4 0 = [0, 0, 0, 0]" by metis
  then have v: "value_bytes ?v = [0, 0, 0, 0, 0]" "value_ok ?v" by (simp_all add: value_bytes_def value_ok_def)
  obtain as1 where 1: "recv_all 8 fs = (Some (wire_i64 0), as1)" "carries [value_bytes ?v, wire_int (errno_code e)] as1"
    using assms(4) unfolding v(1) by (rule recv_all_piece [where n = 8]) auto
  obtain as2 as3 where 2: "recv_all 5 as1 = (Some (take 5 (value_bytes ?v)), as2)" "recv_all (unat (vlength ?v)) as2 = (Some (vdata ?v), as3)"
    "value_head (take 5 (value_bytes ?v)) = (vtype ?v, vlength ?v)" "carries [wire_int (errno_code e)] as3"
    using value_pieces [OF v(2) 1(2)] .
  obtain e' where "io_end (wire_int (errno_code e)) = (Some e', [])" "errno_ok e'" using io_end_errno [OF assms(3)] .
  then show "\<exists>e'. client_get True 0 fs = (Inl e', []) \<and> errno_ok e'"
    using 1 2 client_end_piece [OF 2(4)] by (simp add: client_get_def)
qed

theorem client_get_arrived_witness:
  "client_get True 0 [Data (wire_i64 9), Data (value_bytes \<lparr>vtype = 1, vlength = 1, vdata = [7]\<rparr> @ wire_int 0)] =
     (Inr (\<lparr>vtype = 1, vlength = 1, vdata = [7]\<rparr>, 9), [])"
proof -
  let ?v = "\<lparr>vtype = 1, vlength = 1, vdata = [7]\<rparr>"
  have ne: "wire_i64 x \<noteq> []" "value_bytes v \<noteq> []" "wire_int x \<noteq> []" for x v
    by (simp_all add: value_bytes_def flip: length_0_conv)
  have "carries [wire_i64 9, value_bytes ?v, wire_int 0] [Data (wire_i64 9), Data (value_bytes ?v @ wire_int 0)]"
    "carries [wire_i64 0, [0, 0, 0, 0, 0], wire_int (errno_code EIO)]
       [Data (wire_i64 0 @ [0, 0, 0, 0, 0]), Data (wire_int (errno_code EIO))]"
    by (intro carries_alone carries_joined carries_Nil ne list.distinct; simp)+
  with client_get_arrived [of ?v 9 _ EIO _ 0] show ?thesis by (simp add: value_ok_def errno_ok_def i64_def)
qed

text \<open>
  A shared connection that gets out of step. When the unix storage has no memory for the value that
  it is told of, it discards what has arrived, and the result of the get may not have: then that result
  is what the next request on the connection reads as its own. A del is reported done that the daemon
  has refused, and its refusal stays for the request after it.
\<close>

theorem shared_answers_shift:
  assumes "value_ok v" "vdata v \<noteq> []" "length (vdata v) < 16"
  shows "client_get False 1 (Data (wire_i64 d @ value_bytes v) # Data (wire_int 0) # as) = (Inl ENOMEM, Data (wire_int 0) # as) \<and>
    client_end (Data (wire_int 0) # as) = (None, as)"
proof
  have h: "wire_i64 d @ value_bytes v = wire_i64 d @ (vtype v # le_bytes 4 (unat (vlength v))) @ vdata v"
    by (simp add: value_bytes_def)
  have "value_head (vtype v # le_bytes 4 (unat (vlength v))) = (vtype v, vlength v)"
    using le_nat_word(1) [of "vlength v"] by (simp add: value_head_def)
  with assms show "client_get False 1 (Data (wire_i64 d @ value_bytes v) # Data (wire_int 0) # as) = (Inl ENOMEM, Data (wire_int 0) # as)"
    unfolding h by (simp add: client_get_def recv_all_def stream_discard.simps(4))
qed (simp add: client_end_def unwire_wire_int)

theorem shared_answers_shift_witness:
  "client_get False 1 [Data (wire_i64 9 @ value_bytes \<lparr>vtype = 1, vlength = 1, vdata = [7]\<rparr>), Data (wire_int 0), Data (wire_int (errno_code EIO))] =
     (Inl ENOMEM, [Data (wire_int 0), Data (wire_int (errno_code EIO))]) \<and>
   client_end [Data (wire_int 0), Data (wire_int (errno_code EIO))] = (None, [Data (wire_int (errno_code EIO))])"
  by (rule shared_answers_shift) (simp_all add: value_ok_def)

end
