(* ===== verification/Unix_Shared.thy ===== *)
theory Unix_Shared
  imports Io_Stream
begin

text \<open>
  The shared connection of a unix storage (\<^verbatim>\<open>lib/builtin/unix.c\<close>, type \<^verbatim>\<open>long\<close>): \<^verbatim>\<open>get\<close>, \<^verbatim>\<open>set\<close> and \<^verbatim>\<open>del\<close> of any
  number of threads over one socket, cut at each call of \<^verbatim>\<open>send\<close> and \<^verbatim>\<open>recv\<close>. The mutex is taken before the
  request is sent and given up after its answer is read. What a call of \<^verbatim>\<open>send\<close> carries arrives some time
  later, whole, alone or joined to what has arrived before it; a call of \<^verbatim>\<open>recv\<close> waits until something has
  arrived. The daemon at the other end takes a turn of its worker (\<open>Io_Stream\<close>) when its calls of \<^verbatim>\<open>recv\<close> find
  something; its state may change between turns by requests of others.
\<close>

section \<open>The connection\<close>

datatype reply = Reply_get "errno + value_t \<times> timestamp" | Reply_set "errno option" | Reply_del "errno option"

text \<open>What a client makes of the bytes of a whole answer, and what it leaves of them.\<close>

fun read_reply :: "bool \<Rightarrow> request \<Rightarrow> byte list \<Rightarrow> reply \<times> byte list" where
  "read_reply cmem (Req_get key) bs = (case unix_get cmem bs of (r, left) \<Rightarrow> (Reply_get r, left))"
| "read_reply cmem (Req_set key v) bs = (case io_end bs of (r, left) \<Rightarrow> (Reply_set r, left))"
| "read_reply cmem (Req_del key) bs = (case io_end bs of (r, left) \<Rightarrow> (Reply_del r, left))"

text \<open>The call of \<^verbatim>\<open>recv\<close> a client is before: the duration, the header of the value, its data, the result.\<close>

datatype stage = At_duration | At_head timestamp | At_data timestamp byte "32 word" | At_result timestamp value_t | At_set | At_del

fun first_stage :: "request \<Rightarrow> stage" where
  "first_stage (Req_get key) = At_duration"
| "first_stage (Req_set key v) = At_set"
| "first_stage (Req_del key) = At_del"

text \<open>What the call leads to: the next one, the error exit of \<^verbatim>\<open>get\<close>, the end.\<close>

datatype reading = Read_on stage | Read_fails errno | Read_out reply

fun read_step :: "bool \<Rightarrow> stage \<Rightarrow> arrival list \<Rightarrow> reading \<times> arrival list" where
  "read_step mem At_duration as =
     (case recv_all 8 as of (None, as) \<Rightarrow> (Read_fails EIO, as) | (Some bs, as) \<Rightarrow> (Read_on (At_head (unwire_i64 bs)), as))"
| "read_step mem (At_head d) as =
     (case recv_all 5 as of
        (None, as) \<Rightarrow> (Read_fails EIO, as)
      | (Some bs, as) \<Rightarrow> (case value_head bs of (vt, vl) \<Rightarrow> (if mem then Read_on (At_data d vt vl) else Read_fails ENOMEM, as)))"
| "read_step mem (At_data d vt vl) as =
     (case recv_all (unat vl) as of
        (None, as) \<Rightarrow> (Read_fails EIO, as)
      | (Some bs, as) \<Rightarrow> (Read_on (At_result d \<lparr>vtype = vt, vlength = vl, vdata = bs\<rparr>), as))"
| "read_step mem (At_result d v) as =
     (case client_end as of (Some e, as) \<Rightarrow> (Read_fails e, as) | (None, as) \<Rightarrow> (Read_out (Reply_get (Inr (v, d))), as))"
| "read_step mem At_set as = (case client_end as of (r, as) \<Rightarrow> (Read_out (Reply_set r), as))"
| "read_step mem At_del as = (case client_end as of (r, as) \<Rightarrow> (Read_out (Reply_del r), as))"

text \<open>
  Where a thread is: outside; before the mutex; before the calls of \<^verbatim>\<open>send\<close> that are left; before a call of
  \<^verbatim>\<open>recv\<close>; before the discarding of its error exit; with its result.
\<close>

datatype uthr = UIdle | UWant request | USend request "byte list list" | URead request stage | UDiscard request errno | UDone reply

text \<open>
  \<open>u_out\<close> and \<open>u_ans\<close> have been sent and not arrived, by the threads and by the daemon; \<open>u_arr\<close> and \<open>u_in\<close> have
  arrived there and have not been received. \<open>u_sent\<close>, \<open>u_served\<close> and \<open>u_got\<close> are histories: who sent which
  request, in which environment and state of the other daemon each was answered, who got which result.
\<close>

record 'w shared =
  u_mutex :: "nat option"
  u_out :: "byte list list"
  u_arr :: "arrival list"
  u_ans :: "byte list list"
  u_in :: "arrival list"
  u_peer :: "'w io_ctx"
  u_thr :: "nat \<Rightarrow> uthr"
  u_sent :: "(nat \<times> request) list"
  u_served :: "(io_env \<times> 'w io_ctx) list"
  u_got :: "(nat \<times> reply) list"

text \<open>A piece arrives, behind what is there or joined to the last of it.\<close>

definition arrive :: "bool \<Rightarrow> byte list \<Rightarrow> arrival list \<Rightarrow> arrival list" where
  "arrive joined p as =
     (case (joined, rev as) of (True, Data bs # rest) \<Rightarrow> rev rest @ [Data (bs @ p)] | _ \<Rightarrow> as @ [Data p])"

text \<open>
  Whether the turn of the worker waits: a \<^verbatim>\<open>recv\<close> for the package or for the data of a value finds nothing. (A
  \<^verbatim>\<open>recv\<close> of no bytes waits as well, so that a set of an empty value is never answered.)
\<close>

definition request_waits :: "arrival list \<Rightarrow> bool" where
  "request_waits as \<longleftrightarrow> as = [] \<or>
     (case sock_recv PKG_SIZE as of (Inr (ty # _), rest) \<Rightarrow> ty = io_set_t \<and> rest = [] | _ \<Rightarrow> False)"

text \<open>The calls of \<^verbatim>\<open>send\<close> of a turn: a duration of 8 bytes, a value and a result of 4 bytes, or a result only.\<close>

definition calls_of :: "conn \<Rightarrow> byte list list" where
  "calls_of c =
     (if sends c = 3 then [take 8 (sent c), take (length (sent c) - 12) (drop 8 (sent c)), drop (length (sent c) - 4) (sent c)]
      else [sent c])"

text \<open>Allocations for values, of the threads and of the worker, may fail when \<open>frail\<close>.\<close>

inductive shared_step :: "bool \<Rightarrow> (request \<Rightarrow> bool) \<Rightarrow> ('w io_ctx \<Rightarrow> bool) \<Rightarrow> 'w shared \<Rightarrow> 'w shared \<Rightarrow> bool"
  for frail :: bool and ok_rq :: "request \<Rightarrow> bool" and sane :: "'w io_ctx \<Rightarrow> bool" where
  call: "u_thr s t = UIdle \<Longrightarrow> ok_rq q \<Longrightarrow> shared_step frail ok_rq sane s (s\<lparr>u_thr := (u_thr s)(t := UWant q)\<rparr>)"
| lock: "u_thr s t = UWant q \<Longrightarrow> u_mutex s = None \<Longrightarrow>
    shared_step frail ok_rq sane s (s\<lparr>u_mutex := Some t, u_thr := (u_thr s)(t := USend q (pieces_of created q))\<rparr>)"
| send: "u_thr s t = USend q (p # ps) \<Longrightarrow> ps \<noteq> [] \<Longrightarrow>
    shared_step frail ok_rq sane s (s\<lparr>u_out := u_out s @ [p], u_thr := (u_thr s)(t := USend q ps)\<rparr>)"
| send_last: "u_thr s t = USend q [p] \<Longrightarrow>
    shared_step frail ok_rq sane s (s\<lparr>u_out := u_out s @ [p], u_thr := (u_thr s)(t := URead q (first_stage q)), u_sent := u_sent s @ [(t, q)]\<rparr>)"
| arrive_out: "u_out s = p # ps \<Longrightarrow> shared_step frail ok_rq sane s (s\<lparr>u_out := ps, u_arr := arrive joined p (u_arr s)\<rparr>)"
| serve: "\<not> request_waits (u_arr s) \<Longrightarrow> env_ok (t_env te) \<Longrightarrow> t_mem te \<or> frail \<Longrightarrow>
    stream_turn te (\<lambda>_. True) (u_peer s) \<lparr>arrivals = u_arr s, sent = [], sends = 0\<rparr> = Ret (Some (More c io')) \<Longrightarrow>
    shared_step frail ok_rq sane s
      (s\<lparr>u_arr := arrivals c, u_ans := u_ans s @ calls_of c, u_peer := io', u_served := u_served s @ [(t_env te, u_peer s)]\<rparr>)"
| others: "sane io' \<Longrightarrow> shared_step frail ok_rq sane s (s\<lparr>u_peer := io'\<rparr>)"
| arrive_in: "u_ans s = p # ps \<Longrightarrow> shared_step frail ok_rq sane s (s\<lparr>u_ans := ps, u_in := arrive joined p (u_in s)\<rparr>)"
| recv: "u_thr s t = URead q st \<Longrightarrow> u_in s \<noteq> [] \<Longrightarrow> mem \<or> frail \<Longrightarrow> read_step mem st (u_in s) = (Read_on st', as) \<Longrightarrow>
    shared_step frail ok_rq sane s (s\<lparr>u_in := as, u_thr := (u_thr s)(t := URead q st')\<rparr>)"
| recv_fail: "u_thr s t = URead q st \<Longrightarrow> u_in s \<noteq> [] \<Longrightarrow> mem \<or> frail \<Longrightarrow> read_step mem st (u_in s) = (Read_fails e, as) \<Longrightarrow>
    shared_step frail ok_rq sane s (s\<lparr>u_in := as, u_thr := (u_thr s)(t := UDiscard q e)\<rparr>)"
| recv_last: "u_thr s t = URead q st \<Longrightarrow> u_in s \<noteq> [] \<Longrightarrow> mem \<or> frail \<Longrightarrow> read_step mem st (u_in s) = (Read_out x, as) \<Longrightarrow>
    shared_step frail ok_rq sane s (s\<lparr>u_in := as, u_mutex := None, u_thr := (u_thr s)(t := UDone x), u_got := u_got s @ [(t, x)]\<rparr>)"
| discard: "u_thr s t = UDiscard q e \<Longrightarrow> x = Reply_get (Inl e) \<Longrightarrow>
    shared_step frail ok_rq sane s
      (s\<lparr>u_in := stream_discard (length (u_in s)) (u_in s), u_mutex := None, u_thr := (u_thr s)(t := UDone x), u_got := u_got s @ [(t, x)]\<rparr>)"
| return: "u_thr s t = UDone x \<Longrightarrow> shared_step frail ok_rq sane s (s\<lparr>u_thr := (u_thr s)(t := UIdle)\<rparr>)"

definition shared_init :: "'w io_ctx \<Rightarrow> 'w shared" where
  "shared_init io =
     \<lparr>u_mutex = None, u_out = [], u_arr = [], u_ans = [], u_in = [], u_peer = io, u_thr = (\<lambda>_. UIdle), u_sent = [],
      u_served = [], u_got = []\<rparr>"

section \<open>The contract of the other daemon\<close>

text \<open>A request that can be sent and that the worker does not wait in.\<close>

fun sendable :: "request \<Rightarrow> bool" where
  "sendable (Req_set key v) \<longleftrightarrow> request_ok (Req_set key v) \<and> vdata v \<noteq> []"
| "sendable q \<longleftrightarrow> request_ok q"

text \<open>It answers every request it is asked; values it hands out have the length they say.\<close>

locale answering =
  fixes ok_rq :: "request \<Rightarrow> bool" and sane :: "'w io_ctx \<Rightarrow> bool"
  assumes request_sent: "ok_rq q \<Longrightarrow> sendable q"
    and request_answered: "sane io \<Longrightarrow> ok_rq q \<Longrightarrow> env_ok env \<Longrightarrow> \<exists>out io'. answer env io q = Ret (Some (out, io')) \<and> sane io' \<and>
      (\<forall>key. q = Req_get key \<longrightarrow> (\<exists>d v r. value_ok v \<and> out = wire_i64 d @ value_bytes v @ wire_int r))"

section \<open>Pieces on their way\<close>

lemma sendable_ok: "sendable q \<Longrightarrow> request_ok q"
  by (cases q) auto

lemma wire_int_not_Nil [simp]: "wire_int x \<noteq> []"
  using length_wire(2) [of x] by (metis list.size(3) zero_neq_numeral)

lemma value_bytes_not_Nil [simp]: "value_bytes v \<noteq> []"
  by (simp add: value_bytes_def)

lemma wire_i64_not_Nil [simp]: "wire_i64 x \<noteq> []"
  by (simp flip: length_0_conv)

lemmas not_Nil_sym [simp] = wire_int_not_Nil [THEN not_sym] value_bytes_not_Nil [THEN not_sym] wire_i64_not_Nil [THEN not_sym]
  io_package_not_Nil [THEN not_sym]

lemma arrive_Nil [simp]: "arrive j p [] = [Data p]"
  by (cases j) (simp_all add: arrive_def)

lemma arrive_Cons: "as \<noteq> [] \<Longrightarrow> arrive j p (a # as) = a # arrive j p as"
  by (cases as rule: rev_cases) (auto simp: arrive_def split: list.split arrival.split bool.split)

lemma arrive_one: "arrive j p [Data bs] = (if j then [Data (bs @ p)] else [Data bs, Data p])"
  by (simp add: arrive_def)

lemma arrive_not_Nil [simp]: "arrive j p as \<noteq> []"
  by (auto simp: arrive_def split: list.split arrival.split bool.split)

lemma carries_Nil_iff [simp]: "carries [] as \<longleftrightarrow> as = []"
  by (auto elim: carries_NilE intro: carries_Nil)

lemma carries_not_Nil: "carries ps as \<Longrightarrow> as = [] \<longleftrightarrow> ps = []"
  by (erule carries.cases) auto

lemma carries_arrive: "carries ps as \<Longrightarrow> p \<noteq> [] \<Longrightarrow> carries (ps @ [p]) (arrive j p as)"
proof (induction ps as rule: carries.induct)
  case (carries_alone q ps as)
  show ?case
  proof (cases "as = []")
    case True
    with carries_alone have "ps = []" using carries_not_Nil by blast
    with True carries_alone show ?thesis by (auto simp: arrive_one intro!: carries.intros)
  next
    case False
    with carries_alone show ?thesis by (auto simp: arrive_Cons intro!: carries.intros)
  qed
next
  case (carries_joined q ps bs as)
  have IH: "carries (ps @ [p]) (arrive j p (Data bs # as))" using carries_joined by blast
  show ?case
  proof (cases "as = []")
    case True
    with IH carries_joined(1) show ?thesis by (cases j) (auto simp: arrive_one intro: carries.carries_joined)
  next
    case False
    with IH carries_joined(1) show ?thesis by (auto simp: arrive_Cons intro: carries.carries_joined)
  qed
qed (auto intro: carries.intros)

lemma pieces_not_Nil [simp]: "pieces_of created q \<noteq> []" "[] \<notin> set (pieces_of created q)"
  by (cases q; simp)+

lemma waits_package:
  "sock_recv PKG_SIZE as = (Inr (io_package ty created key vt vl), as') \<Longrightarrow> as \<noteq> [] \<Longrightarrow> request_waits as \<longleftrightarrow> ty = io_set_t \<and> as' = []"
  by (simp add: request_waits_def io_package_def)

text \<open>The worker waits as long as part of a request has not arrived, and no longer.\<close>

lemma request_waits_iff:
  assumes "sendable q" "pieces_of created q = ps @ qs" "carries ps as"
  shows "request_waits as \<longleftrightarrow> qs \<noteq> []"
proof (cases ps)
  case Nil
  with assms show ?thesis by (auto simp: request_waits_def)
next
  case (Cons p ps')
  then obtain as' where recv: "sock_recv (length p) as = (Inr p, as')" "carries ps' as'" using assms(3) recv_piece by blast
  have p: "p = hd (pieces_of created q)" using Cons assms(2) by simp
  have as: "as \<noteq> []" using Cons carries_not_Nil [OF assms(3)] by simp
  show ?thesis
  proof (cases q)
    case (Req_set key v)
    let ?hd = "io_package io_set_t created key (vtype v) (vlength v)"
    have q: "pieces_of created q = [?hd, vdata v]" using assms(1) Req_set by simp
    then have "sock_recv PKG_SIZE as = (Inr ?hd, as')" using p recv(1) by (simp add: package_parts(1))
    from waits_package [OF this as] have "request_waits as \<longleftrightarrow> as' = []" by simp
    moreover have "as' = [] \<longleftrightarrow> ps' = []" using carries_not_Nil [OF recv(2)] .
    moreover have "ps' = [] \<longleftrightarrow> qs \<noteq> []" using q assms(2) Cons by (cases ps') auto
    ultimately show ?thesis by simp
  next
    case (Req_get key)
    with p recv(1) have "sock_recv PKG_SIZE as = (Inr (io_package io_get_t created key value_undef 0), as')" by (simp add: package_parts(1))
    from waits_package [OF this as] Req_get assms(2) Cons show ?thesis by simp
  next
    case (Req_del key)
    with p recv(1) have "sock_recv PKG_SIZE as = (Inr (io_package io_del_t created key value_undef 0), as')" by (simp add: package_parts(1))
    from waits_package [OF this as] Req_del assms(2) Cons show ?thesis by simp
  qed
qed

text \<open>A request that has arrived is answered; what is sent for it.\<close>

fun answer_calls :: "request \<Rightarrow> byte list \<Rightarrow> byte list list" where
  "answer_calls (Req_get key) out = [take 8 out, take (length out - 12) (drop 8 out), drop (length out - 4) out]"
| "answer_calls q out = [out]"

lemma turn_answers:
  assumes "sendable q" "carries (pieces_of created q) as" "t_mem te" "answer (t_env te) io q = Ret (Some (out, io'))"
  shows "stream_turn te (\<lambda>_. True) io \<lparr>arrivals = as, sent = [], sends = 0\<rparr> =
      Ret (Some (More \<lparr>arrivals = [], sent = out, sends = n_sends q\<rparr> io'))"
    "calls_of \<lparr>arrivals = [], sent = out, sends = n_sends q\<rparr> = answer_calls q out"
proof -
  have "carries (pieces_of created q @ []) (arrivals \<lparr>arrivals = as, sent = [], sends = 0\<rparr>)" using assms(2) by simp
  from stream_turn_answer [OF sendable_ok [OF assms(1)] assms(3) _ this, of "\<lambda>_. True" io] assms(4)
  show "stream_turn te (\<lambda>_. True) io \<lparr>arrivals = as, sent = [], sends = 0\<rparr> =
      Ret (Some (More \<lparr>arrivals = [], sent = out, sends = n_sends q\<rparr> io'))" by auto
  show "calls_of \<lparr>arrivals = [], sent = out, sends = n_sends q\<rparr> = answer_calls q out"
    by (cases q) (simp_all add: calls_of_def)
qed

text \<open>What is left of an answer at each stage, and the reply it makes.\<close>

definition get_reply :: "timestamp \<Rightarrow> value_t \<Rightarrow> int \<Rightarrow> reply" where
  "get_reply d v r = Reply_get (case fst (io_end (wire_int r)) of Some e \<Rightarrow> Inl e | None \<Rightarrow> Inr (v, d))"

fun expects :: "stage \<Rightarrow> byte list list \<Rightarrow> reply \<Rightarrow> bool" where
  "expects At_duration ps x \<longleftrightarrow> (\<exists>d v r. value_ok v \<and> ps = [wire_i64 d, value_bytes v, wire_int r] \<and> x = get_reply (unwire_i64 (wire_i64 d)) v r)"
| "expects (At_head d) ps x \<longleftrightarrow> (\<exists>v r. value_ok v \<and> ps = [value_bytes v, wire_int r] \<and> x = get_reply d v r)"
| "expects (At_data d vt vl) ps x \<longleftrightarrow>
     (\<exists>v r. value_ok v \<and> vtype v = vt \<and> vlength v = vl \<and> ps = (if vdata v = [] then [] else [vdata v]) @ [wire_int r] \<and> x = get_reply d v r)"
| "expects (At_result d v) ps x \<longleftrightarrow> (\<exists>r. ps = [wire_int r] \<and> x = get_reply d v r)"
| "expects At_set ps x \<longleftrightarrow> (\<exists>r. ps = [wire_int r] \<and> x = Reply_set (fst (io_end (wire_int r))))"
| "expects At_del ps x \<longleftrightarrow> (\<exists>r. ps = [wire_int r] \<and> x = Reply_del (fst (io_end (wire_int r))))"

lemma expects_pieces: "expects st ps x \<Longrightarrow> p \<in> set ps \<Longrightarrow> p \<noteq> []"
  by (cases st) (auto split: if_splits)

lemma expects_some: "expects st ps x \<Longrightarrow> ps \<noteq> []"
  by (cases st) auto

text \<open>A call of \<^verbatim>\<open>recv\<close> takes the next of the pieces that are expected.\<close>

lemma unix_get_reply: "value_ok v \<Longrightarrow> Reply_get (fst (unix_get True (wire_i64 d @ value_bytes v @ wire_int r))) = get_reply (unwire_i64 (wire_i64 d)) v r"
  using value_head_bytes [of v "wire_int r"] drop_value_bytes [of v "wire_int r"]
  by (simp add: unix_get_def Let_def value_ok_def get_reply_def split: prod.split option.split)

lemma read_step_expects:
  assumes "carries rs as" "as \<noteq> []" "expects st (rs @ ans) x"
  shows "case read_step True st as of
      (Read_on st', as') \<Rightarrow> \<exists>rs'. carries rs' as' \<and> expects st' (rs' @ ans) x
    | (Read_fails e, as') \<Rightarrow> x = Reply_get (Inl e) \<and> as' = [] \<and> ans = []
    | (Read_out y, as') \<Rightarrow> x = y \<and> as' = [] \<and> ans = []"
proof -
  obtain p rs' where rs: "rs = p # rs'" using assms(1,2) carries_not_Nil by (cases rs) auto
  have ending: "rs' = []" "ans = []" "client_end as = (fst (io_end (wire_int r)), [])" if "rs @ ans = [wire_int r]" for r
    using that rs assms(1) client_end_piece by auto
  show ?thesis
  proof (cases st)
    case At_duration
    with assms(3) rs obtain d v r where v: "value_ok v" "p = wire_i64 d" "rs' @ ans = [value_bytes v, wire_int r]" "x = get_reply (unwire_i64 (wire_i64 d)) v r"
      by auto
    obtain as' where "recv_all 8 as = (Some (wire_i64 d), as')" "carries rs' as'"
      using assms(1) unfolding rs v(2) by (rule recv_all_piece [where n = 8]) auto
    with v At_duration show ?thesis by auto
  next
    case (At_head d)
    with assms(3) rs obtain v r where v: "value_ok v" "p = value_bytes v" "rs' @ ans = [wire_int r]" "x = get_reply d v r" by auto
    let ?h = "vtype v # le_bytes 4 (unat (vlength v))"
    have h: "value_bytes v = ?h @ vdata v" by (simp add: value_bytes_def)
    have head: "value_head ?h = (vtype v, vlength v)" using le_nat_word(1) [of "vlength v"] by (simp add: value_head_def)
    let ?rs = "(if vdata v = [] then [] else [vdata v]) @ rs'"
    have "carries (?h # ?rs) as"
      using assms(1) carries_split [of ?h "vdata v" rs' as] unfolding rs v(2) h by auto
    then obtain as' where "recv_all 5 as = (Some ?h, as')" "carries ?rs as'" by (rule recv_all_piece [where n = 5]) auto
    moreover have "expects (At_data d (vtype v) (vlength v)) (?rs @ ans) x"
      unfolding expects.simps using v by (intro exI [of _ v] exI [of _ r]) simp
    ultimately show ?thesis using At_head head by (auto simp del: expects.simps)
  next
    case (At_data d vt vl)
    with assms(3) obtain v r where v: "value_ok v" "vtype v = vt" "vlength v = vl"
      "rs @ ans = (if vdata v = [] then [] else [vdata v]) @ [wire_int r]" "x = get_reply d v r" by auto
    have eq: "\<lparr>vtype = vt, vlength = vl, vdata = vdata v\<rparr> = v" using v(2,3) by simp
    show ?thesis
    proof (cases "vdata v = []")
      case True
      with v(1,3) have "recv_all (unat vl) as = (Some (vdata v), as)" by (simp add: recv_all_def value_ok_def)
      then have "read_step True st as = (Read_on (At_result d v), as)" using At_data eq by simp
      moreover have "expects (At_result d v) (rs @ ans) x" using v True by auto
      ultimately show ?thesis using assms(1) by auto
    next
      case False
      with v(4) rs have p: "p = vdata v" "rs' @ ans = [wire_int r]" by auto
      obtain as' where "recv_all (unat vl) as = (Some (vdata v), as')" "carries rs' as'"
        using assms(1) unfolding rs p(1) by (rule recv_all_piece [where n = "unat vl"]) (use v(1,3) in \<open>auto simp: value_ok_def\<close>)
      moreover from this have "read_step True st as = (Read_on (At_result d v), as')" using At_data eq by simp
      moreover have "expects (At_result d v) (rs' @ ans) x" using v(5) p(2) by auto
      ultimately show ?thesis by auto
    qed
  next
    case (At_result d v)
    with assms(3) obtain r where r: "rs @ ans = [wire_int r]" "x = get_reply d v r" by auto
    from At_result ending [OF r(1)] r(2) show ?thesis by (cases "fst (io_end (wire_int r))") (auto simp: get_reply_def)
  next
    case At_set
    with assms(3) obtain r where r: "rs @ ans = [wire_int r]" "x = Reply_set (fst (io_end (wire_int r)))" by auto
    from At_set ending [OF r(1)] r(2) show ?thesis by auto
  next
    case At_del
    with assms(3) obtain r where r: "rs @ ans = [wire_int r]" "x = Reply_del (fst (io_end (wire_int r)))" by auto
    from At_del ending [OF r(1)] r(2) show ?thesis by auto
  qed
qed

text \<open>The calls of \<^verbatim>\<open>send\<close> of an answer are what its reader expects.\<close>

lemma answer_expected:
  assumes "answer env io q = Ret (Some (out, io'))" "\<forall>key. q = Req_get key \<longrightarrow> (\<exists>d v r. value_ok v \<and> out = wire_i64 d @ value_bytes v @ wire_int r)"
  shows "expects (first_stage q) (answer_calls q out) (fst (read_reply True q out))"
proof (cases q)
  case (Req_get key)
  with assms(2) obtain d v r where out: "value_ok v" "out = wire_i64 d @ value_bytes v @ wire_int r" by auto
  have "answer_calls q out = [wire_i64 d, value_bytes v, wire_int r]" by (simp add: Req_get out(2))
  moreover have "expects At_duration [wire_i64 d, value_bytes v, wire_int r] (get_reply (unwire_i64 (wire_i64 d)) v r)"
    unfolding expects.simps using out(1) by blast
  ultimately show ?thesis using out(2) unix_get_reply [OF out(1), of d r] by (simp add: Req_get case_prod_beta del: expects.simps answer_calls.simps)
qed (use assms(1) in \<open>auto simp: case_prod_beta split: prod.splits\<close>)

section \<open>What every step keeps\<close>

text \<open>The thread that has the mutex.\<close>

fun inside :: "uthr \<Rightarrow> bool" where
  "inside (USend q ps) = True"
| "inside (URead q st) = True"
| "inside (UDiscard q e) = True"
| "inside _ = False"

fun u_request :: "uthr \<Rightarrow> request option" where
  "u_request (UWant q) = Some q"
| "u_request (USend q ps) = Some q"
| "u_request (URead q st) = Some q"
| "u_request (UDiscard q e) = Some q"
| "u_request _ = None"

text \<open>The n-th result is what its sender makes of the answer to its own request.\<close>

definition answered :: "'w shared \<Rightarrow> nat \<Rightarrow> bool" where
  "answered s n \<longleftrightarrow> fst (u_got s ! n) = fst (u_sent s ! n) \<and>
     (\<exists>out io'. answer (fst (u_served s ! n)) (snd (u_served s ! n)) (snd (u_sent s ! n)) = Ret (Some (out, io')) \<and>
        snd (u_got s ! n) = fst (read_reply True (snd (u_sent s ! n)) out))"

definition quiet :: "'w shared \<Rightarrow> bool" where
  "quiet s \<longleftrightarrow> u_out s = [] \<and> u_arr s = [] \<and> u_ans s = [] \<and> u_in s = [] \<and>
     length (u_sent s) = length (u_got s) \<and> length (u_served s) = length (u_got s)"

text \<open>The request \<open>q\<close> is on its way, with \<open>todo\<close> not yet sent; it has been answered, and its reply will be \<open>x\<close>.\<close>

definition on_way :: "'w shared \<Rightarrow> request \<Rightarrow> byte list list \<Rightarrow> bool" where
  "on_way s q todo \<longleftrightarrow> (\<exists>created ps. pieces_of created q = ps @ u_out s @ todo \<and> carries ps (u_arr s)) \<and>
     u_ans s = [] \<and> u_in s = [] \<and> length (u_served s) = length (u_got s)"

definition on_return :: "'w shared \<Rightarrow> request \<Rightarrow> reply \<Rightarrow> bool" where
  "on_return s q x \<longleftrightarrow> u_out s = [] \<and> u_arr s = [] \<and>
     (\<exists>served env io out io'. u_served s = served @ [(env, io)] \<and> length served = length (u_got s) \<and>
        answer env io q = Ret (Some (out, io')) \<and> x = fst (read_reply True q out))"

definition sent_by :: "'w shared \<Rightarrow> nat \<Rightarrow> request \<Rightarrow> bool" where
  "sent_by s t q \<longleftrightarrow> (\<exists>sent. u_sent s = sent @ [(t, q)] \<and> length sent = length (u_got s))"

fun holds :: "'w shared \<Rightarrow> nat \<Rightarrow> uthr \<Rightarrow> bool" where
  "holds s t (USend q ps) \<longleftrightarrow> ps \<noteq> [] \<and> on_way s q ps \<and> length (u_sent s) = length (u_got s)"
| "holds s t (URead q st) \<longleftrightarrow> sent_by s t q \<and>
     (st = first_stage q \<and> on_way s q [] \<or> (\<exists>x rs. on_return s q x \<and> carries rs (u_in s) \<and> expects st (rs @ u_ans s) x))"
| "holds s t (UDiscard q e) \<longleftrightarrow> sent_by s t q \<and> on_return s q (Reply_get (Inl e)) \<and> u_in s = [] \<and> u_ans s = []"
| "holds s t _ \<longleftrightarrow> True"

definition shared_inv :: "(request \<Rightarrow> bool) \<Rightarrow> ('w io_ctx \<Rightarrow> bool) \<Rightarrow> 'w shared \<Rightarrow> bool" where
  "shared_inv ok_rq sane s \<longleftrightarrow> sane (u_peer s) \<and> (\<forall>t q. u_request (u_thr s t) = Some q \<longrightarrow> ok_rq q) \<and>
     (\<forall>t. inside (u_thr s t) \<longleftrightarrow> u_mutex s = Some t) \<and> (\<forall>n < length (u_got s). answered s n) \<and>
     (u_mutex s = None \<longrightarrow> quiet s) \<and> (\<forall>t. holds s t (u_thr s t))"

lemma shared_invD:
  assumes "shared_inv ok_rq sane s"
  shows "sane (u_peer s)" "u_request (u_thr s t) = Some q \<Longrightarrow> ok_rq q" "inside (u_thr s t) \<longleftrightarrow> u_mutex s = Some t"
    "n < length (u_got s) \<Longrightarrow> answered s n" "u_mutex s = None \<Longrightarrow> quiet s" "holds s t (u_thr s t)"
  using assms by (simp_all add: shared_inv_def)

lemma holds_outside: "\<not> inside x \<Longrightarrow> holds s t x"
  by (cases x) auto

text \<open>A longer history keeps what it says of earlier requests.\<close>

lemma answered_mono:
  assumes "answered s n" "n < length (u_got s)" "length (u_got s) \<le> length (u_sent s)" "length (u_got s) \<le> length (u_served s)"
    and "u_sent s' = u_sent s @ a" "u_served s' = u_served s @ b" "u_got s' = u_got s @ c"
  shows "answered s' n"
  using assms by (simp add: answered_def nth_append)

lemma holds_lengths:
  assumes "holds s t x" "inside x"
  shows "length (u_got s) \<le> length (u_sent s) \<and> length (u_got s) \<le> length (u_served s) \<and>
    length (u_served s) \<le> length (u_sent s) \<and> length (u_sent s) \<le> length (u_got s) + 1"
  using assms by (cases x) (auto simp: on_way_def on_return_def sent_by_def)

lemma shared_lengths:
  assumes "shared_inv ok_rq sane s"
  shows "length (u_got s) \<le> length (u_sent s)" "length (u_got s) \<le> length (u_served s)"
    "length (u_served s) \<le> length (u_sent s)" "length (u_sent s) \<le> length (u_got s) + 1"
proof -
  have "length (u_got s) \<le> length (u_sent s) \<and> length (u_got s) \<le> length (u_served s) \<and>
    length (u_served s) \<le> length (u_sent s) \<and> length (u_sent s) \<le> length (u_got s) + 1"
  proof (cases "u_mutex s")
    case None
    from shared_invD(5) [OF assms this] show ?thesis by (simp add: quiet_def)
  next
    case (Some t)
    show ?thesis using shared_invD(3,6) [OF assms, of t] Some by (intro holds_lengths [of s t "u_thr s t"]) auto
  qed
  then show "length (u_got s) \<le> length (u_sent s)" "length (u_got s) \<le> length (u_served s)"
    "length (u_served s) \<le> length (u_sent s)" "length (u_sent s) \<le> length (u_got s) + 1" by auto
qed

text \<open>Something is under way only when a thread has the mutex, and then it is its request.\<close>

lemma shared_holder:
  assumes "shared_inv ok_rq sane s" "\<not> quiet s"
  obtains t where "u_mutex s = Some t" "inside (u_thr s t)" "holds s t (u_thr s t)"
  using assms shared_invD [OF assms(1)] that by (cases "u_mutex s") auto

text \<open>A step of the holder, or of the connection for it: the others do not notice.\<close>

lemma shared_inv_holder:
  assumes "shared_inv ok_rq sane s" "u_mutex s = Some t" "u_mutex s' = Some t"
    and "sane (u_peer s')" "\<And>u. u \<noteq> t \<Longrightarrow> u_thr s' u = u_thr s u" "inside (u_thr s' t)" "u_request (u_thr s' t) = u_request (u_thr s t)"
    and "u_sent s' = u_sent s @ a" "u_served s' = u_served s @ b" "u_got s' = u_got s" "holds s' t (u_thr s' t)"
  shows "shared_inv ok_rq sane s'"
proof -
  note D = shared_invD [OF assms(1)] and L = shared_lengths [OF assms(1)]
  have "u_request (u_thr s' u) = u_request (u_thr s u)" for u using assms(5,7) by (cases "u = t") auto
  then have rq: "\<forall>u q. u_request (u_thr s' u) = Some q \<longrightarrow> ok_rq q" using D(2) by metis
  have ins: "\<forall>u. inside (u_thr s' u) \<longleftrightarrow> u_mutex s' = Some u" using D(3) assms(2,3,5,6) by (metis option.inject)
  have ans: "\<forall>n < length (u_got s'). answered s' n"
    using answered_mono [OF D(4) _ L(1,2), of _ s' a b "[]"] assms(8-10) by simp
  have "holds s' u (u_thr s' u)" for u
    using ins assms(3,11) holds_outside [of "u_thr s' u" s' u] by (cases "u = t") auto
  with rq ins ans assms(3,4) show ?thesis by (simp add: shared_inv_def)
qed

text \<open>The end of a request: the mutex is free, and nothing is left on the connection.\<close>

lemma shared_inv_end:
  assumes inv: "shared_inv ok_rq sane s" and t: "u_mutex s = Some t" "u_request (u_thr s t) = Some q" and h: "sent_by s t q" "on_return s q x"
    and gone: "u_ans s = []"
  shows "shared_inv ok_rq sane (s\<lparr>u_in := [], u_mutex := None, u_thr := (u_thr s)(t := UDone x), u_got := u_got s @ [(t, x)]\<rparr>)"
proof -
  note D = shared_invD [OF inv] and L = shared_lengths [OF inv]
  let ?s = "s\<lparr>u_in := [], u_mutex := None, u_thr := (u_thr s)(t := UDone x), u_got := u_got s @ [(t, x)]\<rparr>"
  from h obtain sent served env io out io' where h: "u_sent s = sent @ [(t, q)]" "length sent = length (u_got s)" "u_out s = []" "u_arr s = []"
    "u_served s = served @ [(env, io)]" "length served = length (u_got s)" "answer env io q = Ret (Some (out, io'))" "x = fst (read_reply True q out)"
    unfolding sent_by_def on_return_def by blast
  have old: "answered ?s n" if "n < length (u_got s)" for n
    using answered_mono [OF D(4) [OF that] that L(1,2), of ?s "[]" "[]" "[(t, x)]"] by simp
  have "answered ?s (length (u_got s))" using h by (simp add: answered_def nth_append)
  with old have "\<forall>n < length (u_got ?s). answered ?s n" by (simp add: less_Suc_eq all_conj_distrib)
  moreover have "quiet ?s" using h gone by (simp add: quiet_def)
  moreover have ins: "\<forall>u. inside (u_thr ?s u) \<longleftrightarrow> u_mutex ?s = Some u" using D(3) t(1) by auto
  moreover have "\<forall>u. holds ?s u (u_thr ?s u)" using ins by (intro allI holds_outside) simp
  ultimately show ?thesis using D(1,2) by (simp add: shared_inv_def)
qed

context answering
begin

lemma on_way_serve:
  assumes inv: "shared_inv ok_rq sane s" and m: "u_mutex s = Some t" and thr: "u_thr s t = URead q (first_stage q)" and way: "on_way s q []"
    and full: "\<not> request_waits (u_arr s)" and env: "env_ok (t_env te)" "t_mem te"
    and turn: "stream_turn te (\<lambda>_. True) (u_peer s) \<lparr>arrivals = u_arr s, sent = [], sends = 0\<rparr> = Ret (Some (More c io'))"
  shows "shared_inv ok_rq sane
    (s\<lparr>u_arr := arrivals c, u_ans := u_ans s @ calls_of c, u_peer := io', u_served := u_served s @ [(t_env te, u_peer s)]\<rparr>)"
proof -
  note D = shared_invD [OF inv]
  have q: "ok_rq q" using D(2) [of t q] thr by simp
  note sendable = request_sent [OF q]
  from way obtain created ps where ps: "pieces_of created q = ps @ u_out s" "carries ps (u_arr s)" by (auto simp: on_way_def)
  with request_waits_iff [OF sendable ps] full have out: "u_out s = []" by simp
  from request_answered [OF D(1) q env(1)] obtain ans io1 where a: "answer (t_env te) (u_peer s) q = Ret (Some (ans, io1))" "sane io1"
    "\<forall>key. q = Req_get key \<longrightarrow> (\<exists>d v r. value_ok v \<and> ans = wire_i64 d @ value_bytes v @ wire_int r)" by blast
  have "carries (pieces_of created q) (u_arr s)" using ps out by simp
  note ta = turn_answers [OF sendable this env(2) a(1)]
  from ta(1) turn have c: "c = \<lparr>arrivals = [], sent = ans, sends = n_sends q\<rparr>" "io' = io1" by simp_all
  let ?s = "s\<lparr>u_arr := arrivals c, u_ans := u_ans s @ calls_of c, u_peer := io', u_served := u_served s @ [(t_env te, u_peer s)]\<rparr>"
  let ?x = "fst (read_reply True q ans)"
  have "on_return ?s q ?x" using way out a(1) by (auto simp: on_return_def on_way_def c)
  moreover have "carries [] (u_in ?s)" "u_ans ?s = answer_calls q ans" using way ta(2) by (simp_all add: on_way_def c)
  moreover have "expects (first_stage q) (answer_calls q ans) ?x" by (rule answer_expected [OF a(1,3)])
  moreover have "sent_by ?s t q" using D(6) [of t] thr by (simp add: sent_by_def)
  ultimately have "holds ?s t (u_thr ?s t)" using thr by (auto simp del: carries_Nil_iff read_reply.simps intro!: exI [of _ ?x] exI [of _ "[]"])
  then show ?thesis
    by (intro shared_inv_holder [OF inv m, where a = "[]" and b = "[(t_env te, u_peer s)]"]) (use m a(2) c(2) thr in simp_all)
qed

text \<open>When a turn can be taken, a request has arrived whole and waits for its answer.\<close>

lemma shared_arrived:
  assumes inv: "shared_inv ok_rq sane s" and full: "\<not> request_waits (u_arr s)"
  obtains t q where "u_mutex s = Some t" "u_thr s t = URead q (first_stage q)" "on_way s q []"
proof -
  have some: "u_arr s \<noteq> []" using full by (auto simp: request_waits_def)
  then have "\<not> quiet s" by (simp add: quiet_def)
  from shared_holder [OF inv this] obtain t where t: "u_mutex s = Some t" "inside (u_thr s t)" "holds s t (u_thr s t)" .
  have ok: "sendable q" if "u_request (u_thr s t) = Some q" for q using request_sent shared_invD(2) [OF inv that] .
  show thesis
  proof (cases "u_thr s t")
    case (USend q ps)
    with t(3) obtain created ps' where "pieces_of created q = ps' @ (u_out s @ ps)" "carries ps' (u_arr s)" "ps \<noteq> []"
      by (auto simp: on_way_def)
    with request_waits_iff [OF ok this(1,2)] USend full show thesis by simp
  next
    case (URead q st)
    with t(3) some have "st = first_stage q" "on_way s q []" by (auto simp: on_return_def)
    with t(1) URead that show thesis by blast
  qed (use t some in \<open>auto simp: on_return_def\<close>)
qed

lemma shared_inv_send:
  assumes inv: "shared_inv ok_rq sane s" and thr: "u_thr s t = USend q (p # ps)"
    and s': "s' = s\<lparr>u_out := u_out s @ [p], u_thr := (u_thr s)(t := if ps = [] then URead q (first_stage q) else USend q ps),
      u_sent := u_sent s @ (if ps = [] then [(t, q)] else [])\<rparr>"
  shows "shared_inv ok_rq sane s'"
proof -
  note D = shared_invD [OF inv]
  have m: "u_mutex s = Some t" using D(3) [of t] thr by simp
  have h: "on_way s q (p # ps)" "length (u_sent s) = length (u_got s)" using D(6) [of t] thr by simp_all
  have "on_way s' q ps" using h(1) by (auto simp: on_way_def s')
  then have "holds s' t (u_thr s' t)" using h(2) by (auto simp: s' sent_by_def)
  then show ?thesis
    by (intro shared_inv_holder [OF inv m, where a = "if ps = [] then [(t, q)] else []" and b = "[]"]) (use m thr D(1) in \<open>simp_all add: s'\<close>)
qed

lemma shared_inv_arrive_out:
  assumes inv: "shared_inv ok_rq sane s" and out: "u_out s = p # ps"
  shows "shared_inv ok_rq sane (s\<lparr>u_out := ps, u_arr := arrive joined p (u_arr s)\<rparr>)" (is "shared_inv _ _ ?s")
proof -
  note D = shared_invD [OF inv]
  have "\<not> quiet s" using out by (simp add: quiet_def)
  from shared_holder [OF inv this] obtain t where t: "u_mutex s = Some t" "inside (u_thr s t)" "holds s t (u_thr s t)" .
  have way: "on_way ?s q todo" if "on_way s q todo" for q todo
  proof -
    from that obtain created qs where qs: "pieces_of created q = qs @ u_out s @ todo" "carries qs (u_arr s)" by (auto simp: on_way_def)
    have "p \<noteq> []" using qs(1) pieces_not_Nil(2) [of created q] out by auto
    then have "carries (qs @ [p]) (u_arr ?s)" using carries_arrive [OF qs(2)] by simp
    moreover have "pieces_of created q = (qs @ [p]) @ u_out ?s @ todo" using qs(1) out by simp
    ultimately have "\<exists>created ps. pieces_of created q = ps @ u_out ?s @ todo \<and> carries ps (u_arr ?s)" by blast
    with that show ?thesis by (simp add: on_way_def)
  qed
  have "\<not> on_return s q x" for q x using out by (simp add: on_return_def)
  with t(2,3) way have "holds ?s t (u_thr ?s t)" by (cases "u_thr s t") (auto simp: sent_by_def)
  then show ?thesis by (intro shared_inv_holder [OF inv t(1), where a = "[]" and b = "[]"]) (use t D(1) in simp_all)
qed

lemma shared_inv_arrive_in:
  assumes inv: "shared_inv ok_rq sane s" and ans: "u_ans s = p # ps"
  shows "shared_inv ok_rq sane (s\<lparr>u_ans := ps, u_in := arrive joined p (u_in s)\<rparr>)" (is "shared_inv _ _ ?s")
proof -
  note D = shared_invD [OF inv]
  have "\<not> quiet s" using ans by (simp add: quiet_def)
  from shared_holder [OF inv this] obtain t where t: "u_mutex s = Some t" "inside (u_thr s t)" "holds s t (u_thr s t)" .
  have "\<not> on_way s q todo" for q todo using ans by (simp add: on_way_def)
  with t(2,3) ans obtain q st x rs where h: "u_thr s t = URead q st" "sent_by s t q" "on_return s q x" "carries rs (u_in s)" "expects st (rs @ p # ps) x"
    by (cases "u_thr s t") auto
  have "p \<noteq> []" using expects_pieces [OF h(5)] by simp
  then have "carries (rs @ [p]) (u_in ?s)" using carries_arrive [OF h(4)] by simp
  moreover have "on_return ?s q x" "sent_by ?s t q" "expects st ((rs @ [p]) @ u_ans ?s) x" using h by (simp_all add: on_return_def sent_by_def)
  ultimately have "\<exists>x rs. on_return ?s q x \<and> carries rs (u_in ?s) \<and> expects st (rs @ u_ans ?s) x" "sent_by ?s t q" by blast+
  with h(1) have "holds ?s t (u_thr ?s t)" by (simp del: not_Nil_sym)
  then show ?thesis by (intro shared_inv_holder [OF inv t(1), where a = "[]" and b = "[]"]) (use t D(1) in simp_all)
qed

text \<open>A thread that has received something reads the answer to its own request.\<close>

lemma shared_reading:
  assumes inv: "shared_inv ok_rq sane s" and thr: "u_thr s t = URead q st" and got: "u_in s \<noteq> []"
  obtains x rs where "u_mutex s = Some t" "sent_by s t q" "on_return s q x" "carries rs (u_in s)" "expects st (rs @ u_ans s) x"
proof -
  note D = shared_invD [OF inv]
  have "u_mutex s = Some t" using D(3) [of t] thr by simp
  with D(6) [of t] thr got that show thesis by (auto simp: on_way_def)
qed

lemma shared_inv_step:
  assumes "shared_step False ok_rq sane s s'" "shared_inv ok_rq sane s"
  shows "shared_inv ok_rq sane s'"
  using assms
proof (induction rule: shared_step.induct)
  case (call s t q)
  note D = shared_invD [OF call(3)]
  let ?s = "s\<lparr>u_thr := (u_thr s)(t := UWant q)\<rparr>"
  have "holds ?s u (u_thr s u)" for u using D(6) [of u] by (cases "u_thr s u") (auto simp: sent_by_def on_way_def on_return_def)
  moreover have "inside (u_thr ?s u) \<longleftrightarrow> u_mutex ?s = Some u" for u using D(3) [of u] call(1) by auto
  moreover have "u_request (u_thr ?s u) = Some q' \<Longrightarrow> ok_rq q'" for u q' using D(2) [of u q'] call(2) by (auto split: if_splits)
  ultimately show ?case using call(3) by (auto simp: shared_inv_def answered_def quiet_def)
next
  case (lock s t q created)
  note D = shared_invD [OF lock(3)]
  let ?s = "s\<lparr>u_mutex := Some t, u_thr := (u_thr s)(t := USend q (pieces_of created q))\<rparr>"
  have quiet: "quiet s" by (rule D(5) [OF lock(2)])
  then have "on_way ?s q (pieces_of created q)" unfolding on_way_def quiet_def by (auto intro!: exI [of _ created] exI [of _ "[]"])
  then have "holds ?s t (u_thr ?s t)" using quiet by (simp add: quiet_def)
  moreover have ins: "inside (u_thr ?s u) \<longleftrightarrow> u_mutex ?s = Some u" for u using D(3) [of u] lock(2) by auto
  ultimately have "holds ?s u (u_thr ?s u)" for u using holds_outside [of "u_thr ?s u" ?s u] ins [of u] by (cases "u = t") auto
  moreover have "u_request (u_thr ?s u) = Some q' \<Longrightarrow> ok_rq q'" for u q' using D(2) [of u q'] D(2) [of t q] lock(1) by (auto split: if_splits)
  ultimately show ?case using D(1,4) ins by (auto simp: shared_inv_def answered_def)
next
  case (send s t q p ps)
  then show ?case by (intro shared_inv_send [OF send(3,1)]) simp
next
  case (send_last s t q p)
  then show ?case by (intro shared_inv_send [OF send_last(2,1)]) simp
next
  case (arrive_out s p ps joined)
  then show ?case by (intro shared_inv_arrive_out)
next
  case (serve s te c io')
  obtain t q where "u_mutex s = Some t" "u_thr s t = URead q (first_stage q)" "on_way s q []" by (rule shared_arrived [OF serve(5,1)])
  with serve show ?case by (intro on_way_serve) auto
next
  case (others io' s)
  then have "holds (s\<lparr>u_peer := io'\<rparr>) u (u_thr s u)" for u
    using shared_invD(6) [OF others(2), of u] by (cases "u_thr s u") (auto simp: sent_by_def on_way_def on_return_def)
  with others show ?case by (auto simp: shared_inv_def answered_def quiet_def)
next
  case (arrive_in s p ps joined)
  then show ?case by (intro shared_inv_arrive_in)
next
  case (recv s t q st mem st' as)
  obtain x rs where h: "u_mutex s = Some t" "sent_by s t q" "on_return s q x" "carries rs (u_in s)" "expects st (rs @ u_ans s) x"
    by (rule shared_reading [OF recv(5,1,2)])
  from read_step_expects [OF h(4) recv(2) h(5)] recv(3,4) obtain rs' where rs': "carries rs' as" "expects st' (rs' @ u_ans s) x" by auto
  let ?s = "s\<lparr>u_in := as, u_thr := (u_thr s)(t := URead q st')\<rparr>"
  have "sent_by ?s t q" "on_return ?s q x" using h by (simp_all add: sent_by_def on_return_def)
  with rs' have "holds ?s t (u_thr ?s t)" by auto
  then show ?case
    by (intro shared_inv_holder [OF recv(5) h(1), where a = "[]" and b = "[]"]) (use h(1) recv(1) shared_invD(1) [OF recv(5)] in simp_all)
next
  case (recv_fail s t q st mem e as)
  obtain x rs where h: "u_mutex s = Some t" "sent_by s t q" "on_return s q x" "carries rs (u_in s)" "expects st (rs @ u_ans s) x"
    by (rule shared_reading [OF recv_fail(5,1,2)])
  from read_step_expects [OF h(4) recv_fail(2) h(5)] recv_fail(3,4) have x: "x = Reply_get (Inl e)" "as = []" "u_ans s = []" by auto
  let ?s = "s\<lparr>u_in := as, u_thr := (u_thr s)(t := UDiscard q e)\<rparr>"
  have "holds ?s t (u_thr ?s t)" using h x by (simp add: sent_by_def on_return_def)
  then show ?case
    by (intro shared_inv_holder [OF recv_fail(5) h(1), where a = "[]" and b = "[]"]) (use h(1) recv_fail(1) shared_invD(1) [OF recv_fail(5)] x(2) in simp_all)
next
  case (recv_last s t q st mem x as)
  obtain y rs where h: "u_mutex s = Some t" "sent_by s t q" "on_return s q y" "carries rs (u_in s)" "expects st (rs @ u_ans s) y"
    by (rule shared_reading [OF recv_last(5,1,2)])
  from read_step_expects [OF h(4) recv_last(2) h(5)] recv_last(3,4) have "y = x" "as = []" "u_ans s = []" by auto
  with shared_inv_end [OF recv_last(5) h(1) _ h(2,3), of] recv_last(1) show ?case by simp
next
  case (discard s t q e x)
  note D = shared_invD [OF discard(3)]
  have "u_mutex s = Some t" using D(3) [of t] discard(1) by simp
  with D(6) [of t] shared_inv_end [OF discard(3), of t q x] discard(1,2) show ?case by simp
next
  case (return s t x)
  note D = shared_invD [OF return(2)]
  let ?s = "s\<lparr>u_thr := (u_thr s)(t := UIdle)\<rparr>"
  have "holds ?s u (u_thr s u)" for u using D(6) [of u] by (cases "u_thr s u") (auto simp: sent_by_def on_way_def on_return_def)
  moreover have "inside (u_thr ?s u) \<longleftrightarrow> u_mutex ?s = Some u" for u using D(3) [of u] return(1) by auto
  ultimately show ?case using return(2) by (auto simp: shared_inv_def answered_def quiet_def)
qed

lemma shared_inv_reach:
  assumes "(shared_step False ok_rq sane)\<^sup>*\<^sup>* (shared_init io) s" "sane io"
  shows "shared_inv ok_rq sane s"
  using assms(1)
proof (induction rule: rtranclp_induct)
  case base
  with assms(2) show ?case by (simp add: shared_inv_def shared_init_def quiet_def)
qed (auto intro: shared_inv_step)

text \<open>The thread that has the mutex, the connection or the other daemon for it, can go on.\<close>

lemma shared_holder_moves:
  assumes inv: "shared_inv ok_rq sane s" and m: "u_mutex s = Some u"
  shows "\<exists>s'. shared_step False ok_rq sane s s' \<and>
    (u_thr s' u \<noteq> u_thr s u \<or> u_served s' \<noteq> u_served s \<or> u_out s' \<noteq> u_out s \<or> u_ans s' \<noteq> u_ans s)"
proof -
  note D = shared_invD [OF inv]
  have "inside (u_thr s u)" using D(3) [of u] m by simp
  then consider q ps where "u_thr s u = USend q ps" | q st where "u_thr s u = URead q st" | q e where "u_thr s u = UDiscard q e"
    by (cases "u_thr s u") auto
  then show ?thesis
  proof cases
    case (1 q ps)
    with D(6) [of u] obtain p ps' where ps: "ps = p # ps'" by (cases ps) auto
    show ?thesis
    proof (cases "ps' = []")
      case True
      with 1 ps shared_step.send_last [of s u q p False ok_rq sane] show ?thesis by (intro exI conjI) auto
    next
      case False
      with 1 ps shared_step.send [of s u q p ps' False ok_rq sane] show ?thesis by (intro exI conjI) auto
    qed
  next
    case (2 q st)
    have q: "ok_rq q" using D(2) [of u q] 2 by simp
    show ?thesis
    proof (cases "u_in s = []")
      case False
      obtain y as where y: "read_step True st (u_in s) = (y, as)" by fastforce
      show ?thesis
      proof (cases y)
        case (Read_on st')
        have "URead q st' \<noteq> URead q st" using y Read_on by (cases st) (auto split: option.splits prod.splits)
        with shared_step.recv [OF 2 False _ y [unfolded Read_on], of False ok_rq sane] 2 show ?thesis by (intro exI conjI) auto
      next
        case (Read_fails e)
        with shared_step.recv_fail [OF 2 False _ y [unfolded Read_fails], of False ok_rq sane] 2 show ?thesis by (intro exI conjI) auto
      next
        case (Read_out x)
        with shared_step.recv_last [OF 2 False _ y [unfolded Read_out], of False ok_rq sane] 2 show ?thesis by (intro exI conjI) auto
      qed
    next
      case True
      show ?thesis
      proof (cases "on_way s q []")
        case way: True
        then obtain created ps where ps: "pieces_of created q = ps @ u_out s" "carries ps (u_arr s)" by (auto simp: on_way_def)
        show ?thesis
        proof (cases "u_out s")
          case (Cons p ps')
          from shared_step.arrive_out [OF Cons, of False ok_rq sane False] Cons show ?thesis by (intro exI conjI) auto
        next
          case Nil
          let ?env = "\<lparr>e_thread = 0, e_now = 0, e_get_mem = True, e_lock_mem = mem_ok, e_lock_addr = 0, e_set_mem = mem_ok, e_now1 = 0, e_now2 = 0\<rparr>"
          let ?te = "\<lparr>t_env = ?env, t_mem = True, t_here = 0, t_stack = []\<rparr>"
          have env: "env_ok (t_env ?te)" by (simp add: env_ok_def)
          from request_answered [OF D(1) q env] obtain ans io' where a: "answer (t_env ?te) (u_peer s) q = Ret (Some (ans, io'))" by blast
          have full: "\<not> request_waits (u_arr s)" using request_waits_iff [OF request_sent [OF q] ps] Nil by simp
          have "carries (pieces_of created q) (u_arr s)" using ps Nil by simp
          note turn = turn_answers(1) [OF request_sent [OF q] this _ a, simplified]
          show ?thesis by (intro exI conjI, rule shared_step.serve [OF full env _ turn [simplified]]) simp_all
        qed
      next
        case False
        with D(6) [of u] 2 True obtain x rs where "carries rs []" "expects st (rs @ u_ans s) x" by auto
        then have "u_ans s \<noteq> []" using expects_some [of st "u_ans s" x] carries_not_Nil [of rs "[]"] by auto
        then obtain p ps where ans: "u_ans s = p # ps" by (cases "u_ans s") auto
        from shared_step.arrive_in [OF ans, of False ok_rq sane False] ans show ?thesis by (intro exI conjI) auto
      qed
    qed
  next
    case (3 q e)
    from shared_step.discard [OF 3 refl, of False ok_rq sane] 3 show ?thesis by (intro exI conjI) auto
  qed
qed

end

section \<open>A coherent daemon answers\<close>

text \<open>Requests for keys that go to a storage of the daemon, with values that are not empty.\<close>

fun asked :: "'w route_list \<Rightarrow> (string \<Rightarrow> bool) \<Rightarrow> (value_t \<Rightarrow> bool) \<Rightarrow> request \<Rightarrow> bool" where
  "asked route keys vals (Req_get k) = chain_keys route keys k"
| "asked route keys vals (Req_set k v) = (chain_keys route keys k \<and> vals v \<and> vdata v \<noteq> [])"
| "asked route keys vals (Req_del k) = chain_keys route keys k"

lemma undef_value: "value_ok \<lparr>vtype = 0, vlength = 0, vdata = []\<rparr>" "value_bytes \<lparr>vtype = 0, vlength = 0, vdata = []\<rparr> = [0, 0, 0, 0, 0]"
proof -
  have "le_bytes (Suc (Suc (Suc (Suc 0)))) 0 = [0, 0, 0, 0]" "Suc (Suc (Suc (Suc 0))) = 4" by simp_all
  then have "le_bytes 4 0 = [0, 0, 0, 0]" by metis
  then show "value_ok \<lparr>vtype = 0, vlength = 0, vdata = []\<rparr>" "value_bytes \<lparr>vtype = 0, vlength = 0, vdata = []\<rparr> = [0, 0, 0, 0, 0]"
    by (simp_all add: value_bytes_def value_ok_def)
qed

sublocale io_backend \<subseteq> answering "asked route keys vals" "coherent route ok backing keys"
proof
  fix q
  assume "asked route keys vals q"
  then show "sendable q" using vals_value_ok by (cases q) (auto simp: chain_keys_def)
next
  fix io q env
  assume io: "coh io" and q: "asked route keys vals q" and env: "env_ok env"
  show "\<exists>out io'. answer env io q = Ret (Some (out, io')) \<and> coh io' \<and>
      (\<forall>key. q = Req_get key \<longrightarrow> (\<exists>d v r. value_ok v \<and> out = wire_i64 d @ value_bytes v @ wire_int r))"
  proof (cases q)
    case (Req_get k)
    with q obtain i where i: "List.find (serves k) route = Some i" and k: "keys k" using chain_served [of k] by auto
    show ?thesis
    proof (cases "backing (ioworld io) k")
      case None
      with get_coherent [OF io env k i] obtain e io' where get: "io_get env io k = Ret (Some (Inl e, io'))" "coh io'" by auto
      have "wire_i64 0 @ [0, 0, 0, 0, 0] @ wire_int (errno_code e) = wire_i64 0 @ value_bytes \<lparr>vtype = 0, vlength = 0, vdata = []\<rparr> @ wire_int (errno_code e)"
        by (simp only: undef_value(2))
      with get undef_value(1) Req_get show ?thesis by (auto simp del: append_Cons append.simps(1))
    next
      case (Some v)
      with get_coherent [OF io env k i] obtain d io' where get: "io_get env io k = Ret (Some (Inr (v, d), io'))" "coh io'" by auto
      have "value_ok v" using served_get [OF i coherentD(2) [OF io] k Some] vals_value_ok by blast
      with get Req_get show ?thesis by auto
    qed
  next
    case (Req_set k v)
    with q obtain i where i: "List.find (serves k) route = Some i" and k: "keys k" "vals v" using chain_served [of k] by auto
    from routed_set [OF io env k i] Req_set show ?thesis by auto
  next
    case (Req_del k)
    with q obtain i where i: "List.find (serves k) route = Some i" and k: "keys k" using chain_served [of k] by auto
    from routed_del [OF io env k i] Req_del show ?thesis by auto
  qed
qed

section \<open>Properties\<close>

text \<open>
  C8: One connection for many threads. As long as the pieces of requests and answers arrive whole, no value is
  empty and there is memory for values at both ends: whatever the interleaving of the threads' calls of
  \<^verbatim>\<open>send\<close> and \<^verbatim>\<open>recv\<close>, of the arrival of pieces, alone or joined, of the turns of the daemon at the other end
  and of changes of its state by others, at most one thread is between sending and reading; every request
  that was sent is answered once and in the order of sending; the n-th result goes to the sender of the n-th
  request and is what it makes of the answer to its own request; and between requests nothing is on its way
  or unread in either direction.
\<close>

theorem shared_connection_in_step:
  assumes "answering ok_rq sane" "sane io" "(shared_step False ok_rq sane)\<^sup>*\<^sup>* (shared_init io) s"
  shows "(inside (u_thr s t) \<longleftrightarrow> u_mutex s = Some t) \<and>
    length (u_got s) \<le> length (u_served s) \<and> length (u_served s) \<le> length (u_sent s) \<and> length (u_sent s) \<le> length (u_got s) + 1 \<and>
    (n < length (u_got s) \<longrightarrow> fst (u_got s ! n) = fst (u_sent s ! n) \<and>
       (\<exists>out io'. answer (fst (u_served s ! n)) (snd (u_served s ! n)) (snd (u_sent s ! n)) = Ret (Some (out, io')) \<and>
          snd (u_got s ! n) = fst (read_reply True (snd (u_sent s ! n)) out))) \<and>
    (u_mutex s = None \<longrightarrow> u_out s = [] \<and> u_arr s = [] \<and> u_ans s = [] \<and> u_in s = [])"
proof -
  have inv: "shared_inv ok_rq sane s" by (rule answering.shared_inv_reach [OF assms(1,3,2)])
  note D = shared_invD [OF inv]
  show ?thesis using shared_lengths [OF inv] D(3,4,5) by (simp add: answered_def quiet_def)
qed

text \<open>
  No request on a shared connection waits for ever: a thread that is not at rest can go on, or the mutex is
  taken and the thread that has it, the connection or the other daemon on its behalf, can.
\<close>

theorem shared_connection_progress:
  assumes "answering ok_rq sane" "sane io" "(shared_step False ok_rq sane)\<^sup>*\<^sup>* (shared_init io) s" "u_thr s t \<noteq> UIdle"
  shows "\<exists>s'. shared_step False ok_rq sane s s' \<and>
    (u_thr s' t \<noteq> u_thr s t \<or> (\<exists>u. u_mutex s = Some u \<and>
       (u_thr s' u \<noteq> u_thr s u \<or> u_served s' \<noteq> u_served s \<or> u_out s' \<noteq> u_out s \<or> u_ans s' \<noteq> u_ans s)))"
proof (cases "u_mutex s")
  case None
  have "shared_inv ok_rq sane s" by (rule answering.shared_inv_reach [OF assms(1,3,2)])
  from shared_invD(3) [OF this, of t] None have "\<not> inside (u_thr s t)" by simp
  with assms(4) consider q where "u_thr s t = UWant q" | x where "u_thr s t = UDone x" by (cases "u_thr s t") auto
  then show ?thesis
  proof cases
    case (1 q)
    from shared_step.lock [OF 1 None, of False ok_rq sane 0] 1 show ?thesis by (intro exI conjI) auto
  next
    case (2 x)
    from shared_step.return [OF 2, of False ok_rq sane] 2 show ?thesis by (intro exI conjI) auto
  qed
next
  case (Some u)
  have "shared_inv ok_rq sane s" by (rule answering.shared_inv_reach [OF assms(1,3,2)])
  from answering.shared_holder_moves [OF assms(1) this Some] Some show ?thesis by blast
qed

text \<open>A daemon with a file storage at the other end, and one request for a key it does not have.\<close>

abbreviation peer_route :: "fs route_list" where
  "peer_route \<equiv> [\<lparr>addr = 1, storage = file_storage ''f'' ''/p'', prefix = [''*''], nref = 0\<rparr>]"

abbreviation peer_io :: "fs io_ctx" where
  "peer_io \<equiv> \<lparr>nmtx_ns = Null, iocache = None, ioroute = peer_route, ioworld = empty_fs\<rparr>"

interpretation pb: io_backend peer_route "file_good ''/p''" "file_contents ''/p''" "file_keys ''/p''" file_vals
  by (rule kv_storage_backend) (simp add: fst.kv_storage_axioms)

lemma peer_coherent: "coherent peer_route (file_good ''/p'') (file_contents ''/p'') (file_keys ''/p'') peer_io"
  using nt.inv_empty empty_fs_ok(2) by (simp add: coherent_def io_ok_def route_ok_def name_free_def)

theorem shared_connection_in_step_witness:
  "\<exists>s x env (io :: fs io_ctx) out io'.
     (shared_step False (asked peer_route (file_keys ''/p'') file_vals) (coherent peer_route (file_good ''/p'') (file_contents ''/p'') (file_keys ''/p'')))\<^sup>*\<^sup>*
       (shared_init peer_io) s \<and>
     u_got s = [(4, x)] \<and> answer env io (Req_del ''k'') = Ret (Some (out, io')) \<and> x = fst (read_reply True (Req_del ''k'') out) \<and> u_in s = []"
proof -
  let ?ok = "asked peer_route (file_keys ''/p'') file_vals" and ?sane = "coherent peer_route (file_good ''/p'') (file_contents ''/p'') (file_keys ''/p'')"
  let ?q = "Req_del ''k''" and ?p = "io_package io_del_t 0 ''k'' value_undef 0" and ?step = "shared_step False (asked peer_route (file_keys ''/p'') file_vals)"
  let ?s = "shared_init peer_io"
  let ?s1 = "?s\<lparr>u_thr := (\<lambda>_. UIdle)(4 := UWant ?q)\<rparr>"
  let ?s2 = "?s\<lparr>u_mutex := Some 4, u_thr := (\<lambda>_. UIdle)(4 := USend ?q [?p])\<rparr>"
  let ?s3 = "?s\<lparr>u_mutex := Some 4, u_out := [?p], u_thr := (\<lambda>_. UIdle)(4 := URead ?q At_del), u_sent := [(4, ?q)]\<rparr>"
  let ?s4 = "?s3\<lparr>u_out := [], u_arr := [Data ?p]\<rparr>"
  have ok: "?ok ?q" by (simp add: chain_keys_def file_keys_def no_nul_def serves_def)
  have env: "env_ok (t_env bare_turn)" by (simp add: env_ok_def)
  from pb.request_answered [OF peer_coherent ok env] obtain ans io' where a: "answer (t_env bare_turn) peer_io ?q = Ret (Some (ans, io'))" by blast
  then obtain r where ans: "ans = wire_int (result_code r)" by (auto split: option.splits)
  note sendable = pb.request_sent [OF ok]
  have arr: "carries (pieces_of 0 ?q) [Data ?p]" by (auto intro: carries.intros)
  note turn = turn_answers [OF sendable arr _ a, simplified]
  let ?s5 = "?s4\<lparr>u_arr := [], u_ans := [ans], u_peer := io', u_served := [(t_env bare_turn, peer_io)]\<rparr>"
  let ?s6 = "?s5\<lparr>u_ans := [], u_in := [Data ans]\<rparr>"
  have "carries [wire_int (result_code r)] [Data ans]" unfolding ans by (auto intro: carries.intros)
  from client_end_piece [OF this] obtain x where x: "client_end [Data ans] = (x, [])" by auto
  let ?s7 = "?s6\<lparr>u_in := [], u_mutex := None, u_thr := (\<lambda>_. UIdle)(4 := UDone (Reply_del x)), u_got := [(4, Reply_del x)]\<rparr>"
  have "?step ?sane ?s ?s1" using shared_step.call [of ?s 4 ?ok ?q False ?sane] ok by (simp add: shared_init_def)
  moreover have "?step ?sane ?s1 ?s2" using shared_step.lock [of ?s1 4 ?q False ?ok ?sane 0] by (simp add: shared_init_def)
  moreover have "?step ?sane ?s2 ?s3" using shared_step.send_last [of ?s2 4 ?q ?p False ?ok ?sane] by (simp add: shared_init_def)
  moreover have "?step ?sane ?s3 ?s4" using shared_step.arrive_out [of ?s3 ?p "[]" False ?ok ?sane False] by (simp add: shared_init_def)
  moreover have "?step ?sane ?s4 ?s5"
  proof -
    have full: "\<not> request_waits (u_arr ?s4)" using request_waits_iff [OF sendable, of 0 "pieces_of 0 ?q" "[]" "[Data ?p]"] arr by simp
    have "stream_turn bare_turn (\<lambda>_. True) (u_peer ?s4) \<lparr>arrivals = u_arr ?s4, sent = [], sends = 0\<rparr> =
        Ret (Some (More \<lparr>arrivals = [], sent = ans, sends = 1\<rparr> io'))" using turn(1) by (simp add: shared_init_def)
    from shared_step.serve [OF full env _ this, of False ?ok ?sane] turn(2) show ?thesis by (simp add: shared_init_def)
  qed
  moreover have "?step ?sane ?s5 ?s6" using shared_step.arrive_in [of ?s5 ans "[]" False ?ok ?sane False] by (simp add: shared_init_def)
  moreover have "?step ?sane ?s6 ?s7"
    using shared_step.recv_last [of ?s6 4 ?q At_del True False "Reply_del x" "[]" ?ok ?sane] x by (simp add: shared_init_def)
  ultimately have reach: "(?step ?sane)\<^sup>*\<^sup>* ?s ?s7" by (meson converse_rtranclp_into_rtranclp rtranclp.rtrancl_refl)
  from shared_connection_in_step [OF pb.answering_axioms peer_coherent reach, of 4 0] obtain out io2 where
    "answer bare_env peer_io ?q = Ret (Some (out, io2))" "Reply_del x = fst (read_reply True ?q out)"
    by (auto simp del: answer.simps read_reply.simps)
  with reach show ?thesis
    by - (rule exI [of _ ?s7], rule exI [of _ "Reply_del x"], rule exI [of _ bare_env], rule exI [of _ peer_io], rule exI [of _ out],
        rule exI [of _ io2], simp del: answer.simps read_reply.simps)
qed

end
