(* ===== verification/Attach_Wait.thy ===== *)
theory Attach_Wait
  imports Value
begin

text \<open>
  \<^verbatim>\<open>attach_wait\<close> of \<^verbatim>\<open>lib/misc.c\<close>, the pause in which a debugger can be attached to a process of a debug
  build: a count-down on the standard error, as long as an environment variable says. Both programs call
  it at their start. What it writes is the result; sleeping leaves no trace.
\<close>

section \<open>The count-down\<close>

text \<open>One turn: the number, as many backspaces, and the character that remains. \<^verbatim>\<open>--n\<close> below \<^verbatim>\<open>INT_MIN\<close> is \<open>UB\<close>.\<close>

definition tick :: "char \<Rightarrow> int \<Rightarrow> string" where
  "tick c n = (let b = fmt_d n in b @ replicate (length b) (CHR 0x08) @ [c])"

function count_down :: "char \<Rightarrow> int \<Rightarrow> string c_out" where
  "count_down c n =
     (if n \<le> - (2 ^ 31) then UB
      else if n - 1 = 0 then Ret (tick c n)
      else c_bind (count_down c (n - 1)) (\<lambda>out. Ret (tick c n @ out)))"
  by pat_completeness auto
termination
  by (relation "measure (\<lambda>(c, n). nat (n + 2 ^ 31))") auto

declare count_down.simps [simp del]

text \<open>The value of the variable is read with \<^verbatim>\<open>strtoul\<close> and stored in an \<^verbatim>\<open>int\<close>.\<close>

definition attach_wait :: "(string \<Rightarrow> string option) \<Rightarrow> string option \<Rightarrow> char \<Rightarrow> int \<Rightarrow> string c_out" where
  "attach_wait getenv envname c unit =
     (case getenv (case envname of Some e \<Rightarrow> e | None \<Rightarrow> ''ATTACH_WAIT'') of
        None \<Rightarrow> Ret []
      | Some n_str \<Rightarrow>
          let n = signed_take_bit 31 (case strtoul n_str of None \<Rightarrow> 0 | Some (n, _) \<Rightarrow> n)
          in if n = 0 then Ret []
             else if unit = 0 then UB
             else c_bind (count_down c n) (\<lambda>out. Ret (CHR 0x0A # out @ [CHR 0x0A])))"

section \<open>Its result\<close>

lemma count_down_positive: "0 < n \<Longrightarrow> count_down c (int n) = Ret (concat (map (\<lambda>k. tick c (int k)) (rev [1..<Suc n])))"
proof (induction n)
  case (Suc n)
  show ?case
  proof (cases "n = 0")
    case True
    then show ?thesis by (subst count_down.simps) simp
  next
    case False
    with Suc.IH show ?thesis by (subst count_down.simps) simp
  qed
qed simp

lemma count_down_negative: "n \<le> 0 \<Longrightarrow> count_down c n = UB"
proof (induction c n rule: count_down.induct)
  case (1 c n)
  then show ?case by (subst count_down.simps) auto
qed

text \<open>
  A variable with a positive number of an \<^verbatim>\<open>int\<close> makes the count-down write that number of ticks and end; one
  whose number is negative as an \<^verbatim>\<open>int\<close> makes it count down through all negative numbers and overflow; one
  that is not set, or has no number or 0, makes it do nothing.
\<close>

lemma attach_wait_counts:
  assumes "getenv (case envname of Some e \<Rightarrow> e | None \<Rightarrow> ''ATTACH_WAIT'') = Some (base_digits 10 n)" "0 < n" "n < 2 ^ 32" "unit \<noteq> 0"
  shows "attach_wait getenv envname c unit =
    (if n < 2 ^ 31 then Ret (CHR 0x0A # concat (map (\<lambda>k. tick c (int k)) (rev [1..<Suc n])) @ [CHR 0x0A]) else UB)"
proof -
  have n: "strtoul (base_digits 10 n) = Some (int n, False)" using assms(3) by (intro strtoul_digits) simp
  show ?thesis
  proof (cases "n < 2 ^ 31")
    case True
    then have "signed_take_bit 31 (int n) = int n" by (simp add: signed_take_bit_int_eq_self_iff)
    with True n assms(1,2,4) count_down_positive [OF assms(2), of c] show ?thesis by (simp add: attach_wait_def del: upt_Suc)
  next
    case False
    have "n div 2 ^ 31 = 1" using False assms(3) by (intro div_nat_eqI) simp_all
    then have "int n div 2 ^ 31 = 1" using zdiv_int [of n "2 ^ 31"] by simp
    then have neg: "signed_take_bit 31 (int n) < 0" by (simp add: bit_iff_odd)
    then have "signed_take_bit 31 (int n) \<noteq> 0" by linarith
    with False n assms(1,4) count_down_negative [OF less_imp_le [OF neg], of c] show ?thesis by (simp add: attach_wait_def Let_def)
  qed
qed

lemma attach_wait_nothing:
  "getenv ''ATTACH_WAIT'' = None \<Longrightarrow> attach_wait getenv None c unit = Ret []"
  "getenv e = Some ''0'' \<Longrightarrow> attach_wait getenv (Some e) c unit = Ret []"
  by (simp_all add: attach_wait_def strtoul_def strto_scan_def strto_sign_def strto_base_def c_isspace_def digit_val_def digits_val_def)

end
