(* ===== verification/Spec2Isabelle.thy ===== *)
theory Spec2Isabelle
  imports Propd_Prelude RB_Tree RB_Order RB_Sweep Misc Value Storage Cache Route Named_Mutex Io Builtin Thread_Pool Memio Io_Protocol Ctrl
    Io_Interleaved Io_Alone Daemon_Chain Server Getopt Propd_Config Propd_Run Prop_Tool
    Splay Misc_Tests Ownership Storage_Ownership Route_Ownership Request_Ownership Io_Reconfig Unix_Shared Io_Stream Attach_Wait
begin

text \<open>
  A verification development for \<^verbatim>\<open>propd\<close>, a property daemon: processes get, set and delete named
  values through a Unix socket; the daemon finds the storage of a key by prefix patterns, keeps a cache
  in front of the storages, and may itself be a storage of another daemon.

  \<^bold>\<open>The program.\<close> A request enters through the request server (\<^verbatim>\<open>lib/io_server.c\<close>), whose accept loop
  hands every connection to the thread pool (\<^verbatim>\<open>lib/infra/thread_pool.c\<close>). The worker calls \<^verbatim>\<open>io_get\<close>,
  \<^verbatim>\<open>io_set\<close> or \<^verbatim>\<open>io_del\<close> (\<^verbatim>\<open>lib/io.c\<close>), which looks in the cache (\<^verbatim>\<open>lib/cache.c\<close>), finds and
  references a storage in the route table (\<^verbatim>\<open>lib/route.c\<close>), locks the key (\<^verbatim>\<open>lib/infra/named_mutex.c\<close>),
  calls the storage through its interface (\<^verbatim>\<open>lib/storage.c\<close>), updates the cache, unlocks and releases.
  Storages are files, memory regions, nothing, or another daemon (\<^verbatim>\<open>lib/builtin/\<close>, \<^verbatim>\<open>lib/memio/\<close>). The
  cache and the mutexes live in the rank-balanced trees of \<^verbatim>\<open>lib/infra/tree.h\<close>.

  \<^bold>\<open>How C is modelled.\<close> Undefined behaviour is the outcome \<open>UB\<close> of the type \<open>c_out\<close> and a return is
  \<open>Ret\<close>; a theorem that concludes \<open>Ret\<close> therefore includes memory safety of what is modelled. Error
  numbers are the datatype \<open>errno\<close>, results that may fail are sums or options, and allocation is an
  oracle \<open>alloc\<close> that says which of the operation's allocations succeed. Clock readings, thread
  numbers and fresh addresses are arguments, collected in \<open>io_env\<close> for a request. Integers keep their
  width: \<open>32 word\<close> and \<open>16 word\<close> for the unsigned ones, \<open>i64\<close> for the wrapping of time stamps. Objects
  whose lifetime matters (route items, mutexes) carry the address that a pointer to them holds, so
  that a dangling pointer is visible. Code the repository only calls is an argument: the conversions of
  floating-point text, the JSON parser, the file system (with its failures), the state \<open>'w\<close> behind a
  storage. An assertion that fails is \<open>UB\<close>, as in a debug build; a theorem that concludes \<open>Ret\<close> therefore also
  holds for the default build, which compiles assertions out. Where the two builds differ in what is shown,
  the build is an argument (\<open>r_debug\<close> in \<open>Propd_Run\<close>).

  \<^bold>\<open>The theories, in the order in which they build on each other.\<close>

  \<^item> \<open>Propd_Prelude\<close>: the C types, the little-endian bytes of packed structs, \<^verbatim>\<open>infra/timestamp.h\<close>; the
    interfaces \<open>three_way\<close> (a three-way comparison of keys) and \<open>keyed_tree\<close> (lookup, insertion, removal
    and sweep by key).

  \<^item> \<open>RB_Tree\<close>: the macros of \<^verbatim>\<open>tree.h\<close> that the daemon uses. The parent pointer of a node and its two
    rank bits become a path of frames to the root (a zipper); \<^verbatim>\<open>RB_INSERT_COLOR\<close> and the loop of
    \<^verbatim>\<open>RB_REMOVE_COLOR\<close> climb along it, a NULL dereference being \<open>None\<close>. Insertion, removal and the
    removing sweep \<^verbatim>\<open>RB_FOREACH_SAFE\<close> are proved to keep order and rank rule and to never dereference
    NULL; after any sequence of insertions and removals height and searches are logarithmic. The sweep's fuel is the number of elements, and the theorem
    shows that it ends within it. The file ends with \<open>three_way\<close> giving \<open>keyed_tree\<close>.

  \<^item> \<open>RB_Order\<close>: the other functions that \<^verbatim>\<open>RB_GENERATE\<close> makes, which the program does not call:
    predecessor, search for the next key, insertion beside an element, reinsertion, traversals, and
    the diagnostic \<^verbatim>\<open>RB_RANK\<close>. \<open>RB_Sweep\<close> has the remaining loops that may remove what they visit.

  \<^item> \<open>Splay\<close>: the splay tree of \<^verbatim>\<open>tree.h\<close>, which the program does not instantiate. The trees into which
    \<^verbatim>\<open>SPLAY\<close> cuts its argument are two lists of links, assembled at the end; the loops end because the
    tree below the root shrinks.

  \<^item> \<open>Misc\<close>: \<^verbatim>\<open>lib/misc.c\<close>: string arrays, hexadecimal dumps, \<^verbatim>\<open>prefix_match\<close>. \<open>Misc_Tests\<close> holds the
    tests of that file, which pass.

  \<^item> \<open>Value\<close>: \<^verbatim>\<open>lib/value.h\<close>, \<^verbatim>\<open>lib/value.c\<close>: values, their text form and its round trips.

  \<^item> \<open>Storage\<close>: \<^verbatim>\<open>lib/storage.c\<close>, and the contract \<open>kv_storage\<close> of a storage that is a map of keys to
    values.

  \<^item> \<open>Cache\<close>: \<^verbatim>\<open>lib/cache.c\<close>: what a get returns after a set, a del and a turn of the cleaner, and that
    every sequence of operations keeps the invariant.

  \<^item> \<open>Route\<close>: \<^verbatim>\<open>lib/route.c\<close>: matching, registration, and reference counts over all interleavings.

  \<^item> \<open>Named_Mutex\<close>: \<^verbatim>\<open>lib/infra/named_mutex.c\<close>: the operations cut where they give up the namespace's
    lock; over every interleaving of threads there is no use after free, two threads never hold a
    name, and a waiting thread waits for one that can move.

  \<^item> \<open>Io\<close>: \<^verbatim>\<open>lib/io.c\<close>: requests over the operations of the theories above, the locale \<open>io_backend\<close> of a
    route table whose storages keep their contract, and the coherence of cache and storages.

  \<^item> \<open>Io_Interleaved\<close>: the requests of \<^verbatim>\<open>lib/io.c\<close> cut into the steps between which other threads can
    run, over cache, route table, named mutexes and storages at once, with the cleaner as a further
    thread. No thread does anything undefined, cache and storages agree but for a change under way,
    and no request waits for a thread that cannot go on.

  \<^item> \<open>Io_Alone\<close>: the steps of one thread, taken without interruption, are the functions of \<open>Io\<close>.

  \<^item> \<open>Io_Reconfig\<close>: the same steps together with registrations and unregistrations, and with updates of the
    cache (\<^verbatim>\<open>io_update\<close>) in the same pieces as a get. Cache and storages need not agree then; but no reference
    dangles, a storage in use is not unregistered, and no named mutex or reference is left. Threads are not
    cancelled here, and copies in the cache find memory.

  \<^item> \<open>Builtin\<close>: the file storage, which is shown to keep the contract \<open>kv_storage\<close>, the null and the tcp
    storage.

  \<^item> \<open>Thread_Pool\<close>: the ring buffer as an instance of \<open>bounded_fifo\<close>, submission and workers as a step
    relation.

  \<^item> \<open>Memio\<close>: \<^verbatim>\<open>lib/memio/\<close> and \<^verbatim>\<open>lib/builtin/memory.c\<close>: fields under a mask, layouts, the storage.

  \<^item> \<open>Io_Protocol\<close>: the bytes of requests and answers, the worker of \<^verbatim>\<open>lib/io_server.c\<close> and the client
    side in \<^verbatim>\<open>lib/builtin/unix.c\<close>. A run of the worker is given one environment per turn; as many as
    there are requests are enough.

  \<^item> \<open>Ctrl\<close>: \<^verbatim>\<open>lib/ctrl_server.c\<close> and \<^verbatim>\<open>lib/ctrl_client.c\<close>: the datagrams by which a daemon becomes a
    storage of another, the server's receive buffer and its handlers. An exchange also returns the number of
    sockets it leaves open: one when its package found no memory or was not sent.

  \<^item> \<open>Daemon_Chain\<close>: a daemon as the storage of another. Its worker answers what the unix storage asks,
    and a daemon in front of storages that keep the contract keeps it as well.

  \<^item> \<open>Unix_Shared\<close>: many threads on the shared connection of a unix storage, interleaved call by call of \<^verbatim>\<open>send\<close>
    and \<^verbatim>\<open>recv\<close> with the arrival of the pieces in both directions and the turns of the daemon at its other end:
    the mutex keeps requests and answers in step while pieces arrive whole, no value is empty and values find
    memory at both ends. Without memory the error exit discards what has arrived only, and answers shift
    (\<open>shared_answers_shift\<close> of \<open>Io_Stream\<close>).

  \<^item> \<open>Io_Stream\<close>: the worker and the reading of answers again, over sockets on which data arrives in pieces,
    calls of \<^verbatim>\<open>send\<close> fail and connections break. While the pieces arrive whole, requests and answers are
    those of \<open>Io_Protocol\<close>; a value that is cut is refused and its rest executed. The loop ends because
    what is left to receive shrinks.

  \<^item> \<open>Server\<close>: what the servers and the connections hold of the operating system (descriptors, socket
    files, allocations, threads): the start and the loops of both servers, \<^verbatim>\<open>io_connect\<close>, \<^verbatim>\<open>ctrl_init\<close>.

  \<^item> \<open>Getopt\<close>: \<^verbatim>\<open>getopt_long\<close> of the C library as both programs call it. The scan ends because every
    step consumes a word.

  \<^item> \<open>Propd_Config\<close>: the configuration of \<^verbatim>\<open>lib/propd.c\<close>: defaults, the command line with the parsers of
    the storages, and \<^verbatim>\<open>main\<close> of \<^verbatim>\<open>app/propd/main.c\<close>. A configuration that is written out is parsed back;
    what is parsed is well formed; \<^verbatim>\<open>main\<close> shadows the configured storages.

  \<^item> \<open>Propd_Run\<close>: \<^verbatim>\<open>__propd_run\<close> and \<^verbatim>\<open>propd_run\<close>: the components are started and stopped in the order of
    the code, over the definitions of the theories above. The state \<open>daemon_state\<close> says what exists; every
    failure and every quiet end gives everything back but the sockets of control requests that were not sent,
    and a request that is still running makes the daemon abort or, without assertions, lose storages.

  \<^item> \<open>Prop_Tool\<close>: the client \<^verbatim>\<open>app/prop/main.c\<close>, its commands over any storage that keeps the contract.

  \<^item> \<open>Ownership\<close>: who frees what. Here the heap is a set of live blocks, every call of \<^verbatim>\<open>malloc\<close> or \<^verbatim>\<open>strdup\<close>
    may fail, and freeing a block twice or an uninitialised pointer is \<open>UB\<close>. The locale \<open>owner\<close> is the
    contract of a constructor and its destructor; string arrays, cache items and named mutexes are
    instances, and a cache gives back what it took.

  \<^item> \<open>Storage_Ownership\<close>: the same for layouts and for the storages of every kind but tcp, whose
    constructor loses what it allocates.

  \<^item> \<open>Route_Ownership\<close>: the same for the route table: the storages of the command line and of children
    are given back when everything is unregistered, except those of children without prefixes and the values
    that their registrations fetch for the cache.

  \<^item> \<open>Request_Ownership\<close>: the blocks of the values that requests hand along, from the gets of the storages
    through \<^verbatim>\<open>lib/io.c\<close> to the handlers of the server: a request gives back what it took, but an update of
    the cache loses the value it fetched.

  \<^item> \<open>Attach_Wait\<close>: the debugging pause of \<^verbatim>\<open>lib/misc.c\<close>.

  This theory joins them: the requests of a daemon refine a map of keys to values, also through another
  daemon, and the client shows what it stored.

  \<^bold>\<open>What is not modelled.\<close> Log output and the text of help and usage messages, except where formatting a
  value may be undefined; freeing memory outside \<open>Ownership\<close> and the theories built on it (elsewhere a freed
  object is one that is no longer there), but for the counts in \<open>Server\<close> and \<open>Propd_Run\<close>; outside \<open>Io_Stream\<close>
  and \<open>Unix_Shared\<close> data that arrives in part; outside \<open>Io_Stream\<close> calls of the servers' \<^verbatim>\<open>send\<close> that fail (a
  failing \<^verbatim>\<open>send\<close> of a client, or of the control server's answer, is asserted not to happen), and everywhere a
  \<^verbatim>\<open>send\<close> that takes only a part; that a \<^verbatim>\<open>recv\<close> of 0 bytes waits, except in \<open>Unix_Shared\<close>; a peer that
  never answers, for which the program waits without end; overflow of
  time stamps, which wrap around; in \<^verbatim>\<open>tree.h\<close> the augmentation of rank-balanced trees, which no tree of the
  program has. A call on a storage is one step, also where several threads call one storage at once. Threads
  are not cancelled within a request, except that \<open>Propd_Run\<close> runs the clean-up of requests that are running
  when the workers are cancelled; nor is a server's thread while it waits for room in the pool. In the theories
  that do not say otherwise an operation runs from start to end; interleaved are \<open>Route\<close>, \<open>Named_Mutex\<close>,
  \<open>Thread_Pool\<close>, \<open>Io_Interleaved\<close>, \<open>Io_Reconfig\<close> and \<open>Unix_Shared\<close>.
\<close>

section \<open>The daemon in front of a file storage\<close>

text \<open>
  C1: the daemon refines a map of keys to values. In front of storages that keep their contract,
  with or without a cache, whatever the durations and the clock: from a coherent state each request
  completes and leads to a coherent state, a get answers with the stored value or with an error if
  there is none and changes nothing, a set and a del that report success do what they say to that
  key, ones that report failure change nothing, and no request changes another key.
\<close>

theorem io_refines_map:
  assumes "io_backend route ok backing keys vals" "coherent route ok backing keys io" "env_ok env"
    and "keys k" "vals v" "\<exists>i \<in> set route. serves k i"
  shows "(\<exists>r io'. io_get env io k = Ret (Some (r, io')) \<and> coherent route ok backing keys io' \<and>
      backing (ioworld io') = backing (ioworld io) \<and>
      (case backing (ioworld io) k of None \<Rightarrow> \<exists>e. r = Inl e \<and> errno_ok e | Some v \<Rightarrow> \<exists>d. r = Inr (v, d))) \<and>
    (\<exists>r io'. io_set env io k v = Ret (Some (r, io')) \<and> coherent route ok backing keys io' \<and>
      backing (ioworld io') k = (if r = None then Some v else backing (ioworld io) k) \<and>
      (\<forall>j. keys j \<longrightarrow> j \<noteq> k \<longrightarrow> backing (ioworld io') j = backing (ioworld io) j)) \<and>
    (\<exists>r io'. io_del env io k = Ret (Some (r, io')) \<and> coherent route ok backing keys io' \<and>
      backing (ioworld io') k = (if r = None then None else backing (ioworld io) k) \<and>
      (\<forall>j. keys j \<longrightarrow> j \<noteq> k \<longrightarrow> backing (ioworld io') j = backing (ioworld io) j))"
proof -
  obtain i where i: "List.find (serves k) route = Some i"
    using assms(6) by (cases "List.find (serves k) route") (auto simp: find_None_iff)
  show ?thesis
    using io_backend.get_coherent [OF assms(1-4) i] io_backend.routed_set [OF assms(1-5) i]
      io_backend.routed_del [OF assms(1-4) i] by blast
qed

abbreviation file_route :: "fs route_list" where
  "file_route \<equiv> [\<lparr>addr = 1, storage = file_storage ''f'' ''/d'', prefix = [''*''], nref = 0\<rparr>]"

abbreviation file_io :: "fs io_ctx" where
  "file_io \<equiv> \<lparr>nmtx_ns = Null, iocache = Some \<lparr>tree = Null, min_interval = 1, max_interval = 9,
     default_duration = 100, min_duration = 10, clean_notice = 0\<rparr>, ioroute = file_route, ioworld = empty_fs\<rparr>"

abbreviation plain_env :: io_env where
  "plain_env \<equiv> \<lparr>e_thread = 1, e_now = 5, e_get_mem = True, e_lock_mem = mem_ok, e_lock_addr = 9,
     e_set_mem = mem_ok, e_now1 = 5, e_now2 = 5\<rparr>"

interpretation fb: io_backend file_route "file_good ''/d''" "file_contents ''/d''" "file_keys ''/d''" file_vals
  by (rule kv_storage_backend) (simp add: fst.kv_storage_axioms)

lemma file_io_coherent: "coherent file_route (file_good ''/d'') (file_contents ''/d'') (file_keys ''/d'') file_io"
  using nt.inv_empty ct.inv_empty empty_fs_ok(2)
  by (simp add: coherent_def io_ok_def route_ok_def name_free_def cache_inv_def item_at_def)

theorem io_refines_map_witness:
  "\<exists>e io'. io_get plain_env file_io ''k'' = Ret (Some (Inl e, io')) \<and>
     coherent file_route (file_good ''/d'') (file_contents ''/d'') (file_keys ''/d'') io'"
proof -
  have "file_contents ''/d'' empty_fs ''k'' = None" by (simp add: file_contents_def file_get_def Let_def)
  with io_refines_map [OF fb.io_backend_axioms file_io_coherent, of plain_env "''k''" "\<lparr>vtype = 1, vlength = 1, vdata = [7]\<rparr>"]
  show ?thesis by (auto simp: env_ok_def file_keys_def file_vals_def value_wf_def value_ok_def serves_def)
qed

section \<open>Requests of several threads\<close>

text \<open>
  C3: whatever the interleaving of gets, sets and dels of any number of threads and of turns of the
  cleaner, from a daemon at rest: no thread is about to do anything undefined; a value in the cache is
  the storage's unless the thread that changed the storage is about to change the cache; what a
  request has been answered is what the storage has until it gives up the key; and when all threads are
  at rest again the daemon is coherent, with no mutex and no reference left.
\<close>

theorem requests_interleaved_coherent:
  assumes "io_backend route ok backing keys vals" "coherent route ok backing keys io"
    and "nmtx_ns io = Null" "\<forall>i \<in> set (ioroute io). nref i = 0"
    and "(io_step (admissible keys vals))\<^sup>*\<^sup>* (conc_init io) s"
  shows "thr_safe s t \<and>
    (c_cache s = Some c \<longrightarrow> keys k \<longrightarrow> item_at c k = Some i \<longrightarrow>
       (\<exists>v. cvalue i = Some v \<and> (pending (c_thr s) k \<or> backing (c_world s) k = Some v))) \<and>
    (c_thr s t = Served r a x \<longrightarrow> stores r x = Some b \<longrightarrow> backing (c_world s) (rq_key r) = b) \<and>
    ((\<forall>u. c_thr s u = Rest) \<longrightarrow> coherent route ok backing keys (conc_io s) \<and> nmtx_ns (conc_io s) = Null)"
proof -
  have inv: "io_backend.conc_inv route ok backing keys vals s"
    using io_backend.conc_inv_reach [OF assms(1,5,2-4)] .
  note D = inv [unfolded io_backend.conc_inv_def [OF assms(1)]]
  have "thr_safe s t" by (rule io_backend.conc_safe [OF assms(1) inv])
  moreover have "c_cache s = Some c \<longrightarrow> keys k \<longrightarrow> item_at c k = Some i \<longrightarrow>
       (\<exists>v. cvalue i = Some v \<and> (pending (c_thr s) k \<or> backing (c_world s) k = Some v))"
    using D unfolding cached_ok_def by blast
  moreover have "c_thr s t = Served r a x \<longrightarrow> stores r x = Some b \<longrightarrow> backing (c_world s) (rq_key r) = b"
    using D unfolding served_ok_def by blast
  ultimately show ?thesis using io_backend.conc_rest [OF assms(1) inv] by blast
qed

text \<open>Two threads that have begun requests for the same key.\<close>

abbreviation two_begun :: "fs conc" where
  "two_begun \<equiv> (conc_init file_io)\<lparr>c_thr := (\<lambda>_. Rest)(1 := Begun (RGet ''k''), 2 := Begun (RDel ''k''))\<rparr>"

lemma two_begun_reach:
  "(io_step (admissible (file_keys ''/d'') file_vals))\<^sup>*\<^sup>* (conc_init file_io) two_begun"
proof -
  let ?s = "(conc_init file_io)\<lparr>c_thr := (\<lambda>_. Rest)(1 := Begun (RGet ''k''))\<rparr>"
  let ?step = "io_step (admissible (file_keys ''/d'') file_vals)"
  have k: "file_keys ''/d'' ''k''" by (simp add: file_keys_def)
  have "?step (conc_init file_io) ?s"
    using io_step.started [of "conc_init file_io" 1 "admissible (file_keys ''/d'') file_vals" "RGet ''k''"] k by (simp add: conc_init_def)
  moreover have "?step ?s two_begun"
    using io_step.started [of ?s 2 "admissible (file_keys ''/d'') file_vals" "RDel ''k''"] k by simp
  ultimately show ?thesis by (meson converse_rtranclp_into_rtranclp rtranclp.rtrancl_refl)
qed

theorem requests_interleaved_coherent_witness:
  "cache_get True 7 \<lparr>tree = Null, min_interval = 1, max_interval = 9, default_duration = 100, min_duration = 10, clean_notice = 0\<rparr> ''k'' \<noteq> UB"
  using requests_interleaved_coherent [OF fb.io_backend_axioms file_io_coherent _ _ two_begun_reach, of 1]
  by (simp add: thr_safe_def conc_init_def)

text \<open>
  C4: no deadlock: from a daemon at rest, whatever the interleaving, a thread with a request can make
  its next step, unless it waits for its key; then the thread that holds the key can make one.
\<close>

theorem requests_interleaved_progress:
  assumes "io_backend route ok backing keys vals" "coherent route ok backing keys io"
    and "nmtx_ns io = Null" "\<forall>i \<in> set (ioroute io). nref i = 0"
    and "(io_step (admissible keys vals))\<^sup>*\<^sup>* (conc_init io) s" "c_thr s t \<noteq> Rest"
  shows "(\<exists>s'. io_step (admissible keys vals) s s' \<and> moved s s' t) \<or>
    (\<exists>r a u s'. c_thr s t = Locking r a \<and> pc_holds (pcs (c_nm s) u) = Some (rq_key r) \<and>
       io_step (admissible keys vals) s s' \<and> moved s s' u)"
proof -
  have inv: "io_backend.conc_inv route ok backing keys vals s"
    using io_backend.conc_inv_reach [OF assms(1,5,2-4)] .
  then have "lock_inv s" by (simp add: io_backend.conc_inv_def [OF assms(1)])
  from progress [OF this io_backend.conc_safe [OF assms(1) inv] assms(6)] show ?thesis .
qed

theorem requests_interleaved_progress_witness:
  "\<exists>s'. io_step (admissible (file_keys ''/d'') file_vals) two_begun s' \<and> moved two_begun s' 2"
  using requests_interleaved_progress [OF fb.io_backend_axioms file_io_coherent _ _ two_begun_reach, of 2] by simp

text \<open>
  C6: a request that is not interrupted is the function of \<^verbatim>\<open>lib/io.c\<close>: from any state that
  interleaved requests reach, the steps of one thread lead to the result and the state that
  \<open>io_get\<close>, \<open>io_set\<close> or \<open>io_del\<close> computes.
\<close>

theorem requests_alone:
  assumes "(io_step (admissible keys vals))\<^sup>*\<^sup>* (conc_init io) s" "nmtx_ns io = Null" "c_thr s t = Rest" "admissible keys vals r"
    and "env_ok env" "e_thread env = t" "e_lock_addr env \<notin> mid ` set (inorder (ns (c_nm s)))"
    and "rq_run env (conc_io s) r = Ret (Some (x, io'))"
  shows "\<exists>s'. (io_step (admissible keys vals))\<^sup>*\<^sup>* s s' \<and> c_thr s' = (c_thr s)(t := Ended x) \<and> conc_io s' = io'"
proof -
  have "lock_inv (conc_init io)" using nm_inv_init assms(2) by (simp add: lock_inv_def conc_init_def nm_init_def)
  then have "lock_inv s" using assms(1) by (rule lock_inv_turns [rotated])
  from run_alone [where s = s and ok_rq = "admissible keys vals", OF assms(3,4) this assms(5-8)] show ?thesis .
qed

theorem requests_alone_witness:
  "\<exists>e s'. (io_step (admissible (file_keys ''/d'') file_vals))\<^sup>*\<^sup>* (conc_init file_io) s' \<and> c_thr s' 1 = Ended (Got (Inl e))"
proof -
  have "file_contents ''/d'' empty_fs ''k'' = None" "file_keys ''/d'' ''k''" by (simp_all add: file_contents_def file_get_def Let_def file_keys_def)
  with fb.get_coherent [OF file_io_coherent, of plain_env "''k''"] obtain e io' where
    "io_get plain_env file_io ''k'' = Ret (Some (Inl e, io'))" by (auto simp: env_ok_def serves_def)
  moreover have "conc_io (conc_init file_io) = file_io" by (simp add: conc_io_def conc_init_def)
  ultimately have "rq_run plain_env (conc_io (conc_init file_io)) (RGet ''k'') = Ret (Some (Got (Inl e), io'))" by simp
  from requests_alone [where t = 1 and keys = "file_keys ''/d''" and vals = file_vals, OF rtranclp.rtrancl_refl _ _ _ _ _ _ this] \<open>file_keys ''/d'' ''k''\<close>
  show ?thesis by (fastforce simp: conc_init_def env_ok_def)
qed

section \<open>A daemon in front of a daemon\<close>

text \<open>
  C7: two daemons in a chain, each with or without a cache, in front of storages that keep their
  contract. A set through the outer daemon that reports success is seen by a get at the outer daemon
  and by a get at the inner one; a del that reports success is seen at both; and the requests and their
  answers arrive, whatever the stack of the inner daemon's worker held before.
\<close>

theorem daemon_chain_refines_map:
  fixes route :: "'w route_list"
  assumes backend: "io_backend route ok backing keys vals" and env: "env_ok env" and env': "env_ok env'"
    and outer: "coherent [child_item env stack cr name a pats] (coherent route ok backing keys)
      (\<lambda>io. backing (ioworld io)) (chain_keys route keys) io"
    and k: "chain_keys route keys k" "\<exists>p \<in> set pats. prefix_match p k" and v: "vals v"
  shows "(\<exists>r io'. io_set env' io k v = Ret (Some (r, io')) \<and>
      (r = None \<longrightarrow> (\<exists>d io''. io_get env' io' k = Ret (Some (Inr (v, d), io''))) \<and>
         (\<exists>d inner. io_get env (ioworld io') k = Ret (Some (Inr (v, d), inner))))) \<and>
    (\<exists>r io'. io_del env' io k = Ret (Some (r, io')) \<and>
      (r = None \<longrightarrow> (\<exists>e io''. io_get env' io' k = Ret (Some (Inl e, io''))) \<and>
         (\<exists>e inner. io_get env (ioworld io') k = Ret (Some (Inl e, inner)))))"
proof -
  let ?route = "[child_item env stack cr name a pats] :: 'w io_ctx route_list" and ?ok = "coherent route ok backing keys"
  let ?backing = "\<lambda>io. backing (ioworld io)" and ?keys = "chain_keys route keys"
  note ob = daemon_backend [OF backend env, where stack = stack and created = cr and name = name and a = a and prefixes = pats]
  obtain i where i: "List.find (serves k) route = Some i" and ik: "keys k"
    using io_backend.chain_served [OF backend k(1)] by metis
  obtain j where j: "List.find (serves k) ?route = Some j" using k(2) by (auto simp: serves_def)
  have both: "(case backing (ioworld (ioworld io')) k of
        None \<Rightarrow> (\<exists>e io''. io_get env' io' k = Ret (Some (Inl e, io''))) \<and> (\<exists>e inner. io_get env (ioworld io') k = Ret (Some (Inl e, inner)))
      | Some v \<Rightarrow> (\<exists>d io''. io_get env' io' k = Ret (Some (Inr (v, d), io''))) \<and> (\<exists>d inner. io_get env (ioworld io') k = Ret (Some (Inr (v, d), inner))))"
    if io': "coherent ?route ?ok ?backing ?keys io'" for io'
    using io_backend.get_coherent [OF ob io' env' k(1) j] io_backend.get_coherent [OF backend coherentD(2) [OF io'] env ik i]
    by (auto split: option.splits)
  obtain r1 io1 where set: "io_set env' io k v = Ret (Some (r1, io1))" "coherent ?route ?ok ?backing ?keys io1"
      "backing (ioworld (ioworld io1)) k = (if r1 = None then Some v else backing (ioworld (ioworld io)) k)"
    using io_backend.routed_set [OF ob outer env' k(1) v j] by blast
  obtain r2 io2 where del: "io_del env' io k = Ret (Some (r2, io2))" "coherent ?route ?ok ?backing ?keys io2"
      "backing (ioworld (ioworld io2)) k = (if r2 = None then None else backing (ioworld (ioworld io)) k)"
    using io_backend.routed_del [OF ob outer env' k(1) j] by blast
  have "r1 = None \<longrightarrow> (\<exists>d io''. io_get env' io1 k = Ret (Some (Inr (v, d), io''))) \<and>
      (\<exists>d inner. io_get env (ioworld io1) k = Ret (Some (Inr (v, d), inner)))"
    using both [OF set(2)] set(3) by (cases r1) simp_all
  moreover have "r2 = None \<longrightarrow> (\<exists>e io''. io_get env' io2 k = Ret (Some (Inl e, io''))) \<and>
      (\<exists>e inner. io_get env (ioworld io2) k = Ret (Some (Inl e, inner)))"
    using both [OF del(2)] del(3) by (cases r2) simp_all
  ultimately show ?thesis using set(1) del(1) by blast
qed

abbreviation chain_io :: "fs io_ctx io_ctx" where
  "chain_io \<equiv> \<lparr>nmtx_ns = Null, iocache = None, ioroute = [child_item plain_env [] 0 ''child'' 2 [''*'']], ioworld = file_io\<rparr>"

interpretation rd: kv_storage "daemon_storage plain_env [] 0 ''child''" fb.coh "\<lambda>io. file_contents ''/d'' (ioworld io)"
  "chain_keys file_route (file_keys ''/d'')" file_vals
  by (rule fb.remote_kv) (simp add: env_ok_def)

lemma chain_io_coherent:
  "coherent [child_item plain_env [] 0 ''child'' 2 [''*'']] fb.coh (\<lambda>io. file_contents ''/d'' (ioworld io))
     (chain_keys file_route (file_keys ''/d'')) chain_io"
  using nt.inv_empty file_io_coherent by (subst coherent_def) (auto simp: io_ok_def route_ok_def name_free_def)

theorem daemon_chain_refines_map_witness:
  "\<exists>r io'. io_set plain_env chain_io ''k'' \<lparr>vtype = 1, vlength = 1, vdata = [7]\<rparr> = Ret (Some (r, io'))"
  using daemon_chain_refines_map [OF fb.io_backend_axioms _ _ chain_io_coherent, of plain_env "''k''" "\<lparr>vtype = 1, vlength = 1, vdata = [7]\<rparr>"]
  by (auto simp: env_ok_def chain_keys_def file_keys_def no_nul_def serves_def file_vals_def value_wf_def value_ok_def)

section \<open>The client in front of a daemon\<close>

text \<open>The connection of \<^verbatim>\<open>prop\<close> to a daemon that serves over its socket, with enough memory.\<close>

definition reaches :: "'w io_ctx prop_env \<Rightarrow> io_env \<Rightarrow> byte list \<Rightarrow> bool" where
  "reaches q env stack \<longleftrightarrow> (\<forall>at. q_ask q at = daemon_ask env stack) \<and> q_mem q = mem_ok \<and> q_conn q = None \<and> q_get_mem q"

lemma on_server_reaches:
  assumes "reaches q env stack"
  shows "on_server q at server loop w =
    c_bind (loop (daemon_storage env stack (q_created q) server) w) (\<lambda>(ret, w', lines). Ret (ret, w', lines))"
  using assms by (simp add: on_server_def reaches_def constructor_unix_def storage_destructor_def unix_storage_def)

lemma prop_main_operands:
  assumes "\<forall>s \<in> set args. \<not> is_option s \<and> s \<noteq> ''--''"
  shows "getopt_long prop_shortopts [] args = ([], args)"
proof -
  have "getopt_scan prop_shortopts [] ops args = ([], ops @ args)" for ops
    using assms by (induction args arbitrary: ops) (auto simp: scan_operand)
  then show ?thesis by (simp add: getopt_long_def)
qed

text \<open>
  C2: the client, the protocol, the server's worker, the cache, the route table and the storages together:
  after \<^verbatim>\<open>prop set\<close> of a text that is understood as a value, and if it reports success, \<^verbatim>\<open>prop get\<close> prints
  that value and succeeds; after a \<^verbatim>\<open>prop del\<close> that reports success, \<^verbatim>\<open>prop get\<close> reports a failure.
\<close>

theorem prop_end_to_end:
  fixes route :: "'w route_list"
  assumes backend: "io_backend route ok backing keys vals" and env: "env_ok env" and io: "coherent route ok backing keys io"
    and q: "reaches q env stack" and words: "\<forall>x \<in> {k, s}. \<not> is_option x \<and> x \<noteq> ''--''" and k: "chain_keys route keys k"
    and v: "value_parse (q_strtof q) (q_strtod q) (q_stale q) (q_value_mem q) s = Inr v" "vals v"
  shows "(\<exists>ret io' lines. prop_main q ns' [''set'', k, s] io = Ret (ret, io', lines) \<and>
      (ret = 0 \<longrightarrow> (\<exists>t io''. value_fmt (q_fmt_f q) (q_fmt_g q) [] 512 v True = Ret t \<and>
        prop_main q ns' [''get'', k] io' = Ret (0, io'', [Stdout t])))) \<and>
    (\<exists>ret io' lines. prop_main q ns' [''del'', k] io = Ret (ret, io', lines) \<and>
      (ret = 0 \<longrightarrow> (\<exists>code io''. code \<noteq> 0 \<and> prop_main q ns' [''get'', k] io' = Ret (code, io'', [fail_line (''get '' @ k) code]))))"
proof -
  let ?st = "daemon_storage env stack (q_created q) ''root'' :: 'w io_ctx storage_ctx"
  let ?ok = "coherent route ok backing keys" and ?backing = "\<lambda>io. backing (ioworld io)"
  have kv: "kv_storage ?st ?ok ?backing (chain_keys route keys) vals" using io_backend.remote_kv [OF backend env] .
  have ks: "\<not> is_option k" "k \<noteq> ''--''" "\<not> is_option s" "s \<noteq> ''--''"
    "\<not> is_option ''set''" "\<not> is_option ''get''" "\<not> is_option ''del''" using words by (auto simp: is_option_def)
  note main = prop_main_def prop_main_operands on_server_reaches [OF q] ks
  have get: "\<exists>line ret io''. prop_main q ns' [''get'', k] io' = Ret (ret, io'', [line]) \<and> kv_storage.shows_key ?backing q io' k line ret"
    if "?ok io'" for io'
    using kv_storage.get_one [OF kv that k, of q "[]" 0] by (auto simp: main command_get_def)
  note shown = kv_storage.shows_key_def [OF kv]
  obtain ret1 io1 line1 where set: "set_each q ?st [k, s] 0 io = Ret (ret1, io1, [line1])" "?ok io1" "ret1 = 0 \<longrightarrow> backing (ioworld io1) k = Some v"
    using kv_storage.set_one [OF kv io k v(2) v(1), of 0] by blast
  obtain ret2 io2 line2 where del: "del_each q ?st [k] 0 io = Ret (ret2, io2, [line2])" "?ok io2" "backing (ioworld io2) k = (if ret2 = 0 then None else backing (ioworld io) k)"
    using kv_storage.del_one [OF kv io k, of q 0] by blast
  have "prop_main q ns' [''set'', k, s] io = Ret (ret1, io1, [line1])" using set(1) by (simp add: main command_set_def del: set_each.simps)
  moreover have "prop_main q ns' [''del'', k] io = Ret (ret2, io2, [line2])" using del(1) by (simp add: main command_del_def del: del_each.simps)
  moreover have "\<exists>t io''. value_fmt (q_fmt_f q) (q_fmt_g q) [] 512 v True = Ret t \<and> prop_main q ns' [''get'', k] io1 = Ret (0, io'', [Stdout t])" if "ret1 = 0"
    using get [OF set(2)] set(3) that by (auto simp: shown)
  moreover have "\<exists>code io''. code \<noteq> 0 \<and> prop_main q ns' [''get'', k] io2 = Ret (code, io'', [fail_line (''get '' @ k) code])" if "ret2 = 0"
    using get [OF del(2)] del(3) that by (auto simp: shown)
  ultimately show ?thesis by blast
qed

abbreviation file_prop :: "fs io_ctx prop_env" where
  "file_prop \<equiv> \<lparr>q_ask = (\<lambda>at. daemon_ask plain_env []), q_send = (\<lambda>at server pkg w. (Unsent, w)), q_freed = 9, q_junk = [],
     q_mem = mem_ok, q_conn = None, q_get_mem = True, q_created = 0, q_fmt_f = (\<lambda>_. []), q_fmt_g = (\<lambda>_. []),
     q_strtof = (\<lambda>_. None), q_strtod = (\<lambda>_. None), q_stale = False, q_value_mem = mem_ok\<rparr>"

theorem prop_end_to_end_witness:
  "(\<exists>ret io' lines. prop_main file_prop None [''set'', ''k'', ''abc''] file_io = Ret (ret, io', lines)) \<and>
   (\<exists>ret io' lines. prop_main file_prop None [''del'', ''k''] file_io = Ret (ret, io', lines))"
proof -
  obtain v where v: "value_parse (q_strtof file_prop) (q_strtod file_prop) (q_stale file_prop) (q_value_mem file_prop) ''abc'' = Inr v" "file_vals v"
    by (simp add: value_parse_def value_split_def value_defs cstring_bytes_def file_vals_def value_wf_def value_ok_def)
  have k: "chain_keys file_route (file_keys ''/d'') ''k''" by (simp add: chain_keys_def file_keys_def no_nul_def serves_def)
  have "env_ok plain_env" "reaches file_prop plain_env []" "\<forall>x \<in> {''k'', ''abc''}. \<not> is_option x \<and> x \<noteq> ''--''"
    by (simp_all add: env_ok_def reaches_def is_option_def)
  from prop_end_to_end [OF fb.io_backend_axioms this(1) file_io_coherent this(2,3) k v, of None] show ?thesis by blast
qed

text \<open>
  \<^verbatim>\<open>prop get\<close> of several keys prints one line per key, its value or a failure, and its exit code tells
  only whether the last key had a value.
\<close>

theorem prop_get_reports_last:
  fixes route :: "'w route_list"
  assumes backend: "io_backend route ok backing keys vals" and env: "env_ok env" and io: "coherent route ok backing keys io"
    and q: "reaches q env stack" and ks: "ks \<noteq> []" "\<forall>k \<in> set ks. chain_keys route keys k"
  shows "\<exists>ret io' lines. command_get q at server (''get'' # ks) io = Ret (ret, io', lines) \<and> length lines = length ks \<and>
    (\<forall>i < length ks. case backing (ioworld io) (ks ! i) of
        Some v \<Rightarrow> \<exists>t. value_fmt (q_fmt_f q) (q_fmt_g q) [] 512 v True = Ret t \<and> lines ! i = Stdout t
      | None \<Rightarrow> \<exists>code. code \<noteq> 0 \<and> lines ! i = fail_line (''get '' @ ks ! i) code) \<and>
    (ret = 0 \<longleftrightarrow> backing (ioworld io) (last ks) \<noteq> None)"
proof -
  let ?st = "daemon_storage env stack (q_created q) server :: 'w io_ctx storage_ctx"
  have kv: "kv_storage ?st (coherent route ok backing keys) (\<lambda>io. backing (ioworld io)) (chain_keys route keys) vals"
    using io_backend.remote_kv [OF backend env] .
  note shown = kv_storage.shows_key_def [OF kv]
  obtain ret io' lines rets where get: "get_each q ?st ks 0 io = Ret (ret, io', lines)" "length lines = length ks" "length rets = length ks"
      "\<forall>i < length ks. kv_storage.shows_key (\<lambda>io. backing (ioworld io)) q io (ks ! i) (lines ! i) (rets ! i)" "ret = last (0 # rets)"
    using kv_storage.get_each_shows [OF kv io ks(2), of q 0] by (elim exE conjE)
  have "rets \<noteq> []" using ks(1) get(3) by auto
  then have "ret = rets ! (length ks - 1)" using get(3,5) by (simp add: last_conv_nth)
  moreover have "length ks - 1 < length ks" using ks(1) by simp
  ultimately have "kv_storage.shows_key (\<lambda>io. backing (ioworld io)) q io (last ks) (lines ! (length ks - 1)) ret"
    using get(4) ks(1) by (simp add: last_conv_nth)
  then have "ret = 0 \<longleftrightarrow> backing (ioworld io) (last ks) \<noteq> None" by (auto simp: shown split: option.splits)
  moreover have "command_get q at server (''get'' # ks) io = Ret (ret, io', lines)"
    using get(1) ks(1) by (cases ks) (simp_all add: command_get_def on_server_reaches [OF q])
  moreover have "case backing (ioworld io) (ks ! i) of
        Some v \<Rightarrow> \<exists>t. value_fmt (q_fmt_f q) (q_fmt_g q) [] 512 v True = Ret t \<and> lines ! i = Stdout t
      | None \<Rightarrow> \<exists>code. code \<noteq> 0 \<and> lines ! i = fail_line (''get '' @ ks ! i) code" if "i < length ks" for i
    using get(4) that by (auto simp: shown split: option.splits)
  ultimately show ?thesis using get(2) by blast
qed

theorem prop_get_reports_last_witness:
  "\<exists>ret io' lines. command_get file_prop ''/tmp'' ''root'' [''get'', ''k''] file_io = Ret (ret, io', lines) \<and> length lines = 1 \<and> ret \<noteq> 0"
proof -
  have "\<forall>k \<in> set [''k'']. chain_keys file_route (file_keys ''/d'') k" by (simp add: chain_keys_def file_keys_def no_nul_def serves_def)
  moreover have "env_ok plain_env" "reaches file_prop plain_env []" by (simp_all add: env_ok_def reaches_def)
  moreover have "file_contents ''/d'' empty_fs ''k'' = None" by (simp add: file_contents_def file_get_def Let_def)
  ultimately show ?thesis
    using prop_get_reports_last [OF fb.io_backend_axioms _ file_io_coherent, of plain_env file_prop "[]" "[''k'']" "''/tmp''" "''root''"] by auto
qed

end
